(* ===== verification/EL_Prelude.thy ===== *)
theory EL_Prelude
  imports Main "HOL-Library.Word" "HOL-Library.Multiset" "HOL-Library.AList" "HOL-Library.Monad_Syntax"
begin

text \<open>
  The shared vocabulary of the development: the machine integer types of the C++ sources, byte
  strings, the control-flow combinator that stands for a C++ loop with an early \<open>return\<close>, the
  iteration order of an unordered container, and the generic lemmas on lists, association lists,
  multisets and words that the component theories use.
\<close>

named_theorems codec_simps \<open>reading back what was just written\<close>
named_theorems el_defs \<open>guards and accessors that proofs about one operation unfold\<close>

unbundle bit_operations_syntax

section \<open>Machine integers and byte strings\<close>

type_synonym u8 = "8 word"
type_synonym u16 = "16 word"
type_synonym u32 = "32 word"
type_synonym u64 = "64 word"
type_synonym bytes = "u8 list"

abbreviation UINT64_MAX :: u64 where
  "UINT64_MAX \<equiv> 18446744073709551615"

lemma UINT64_MAX_eq: "UINT64_MAX = (- 1 :: u64)"
  by simp

lemma unat_u64_less [simp]: "unat (x :: u64) < 18446744073709551616"
  using unsigned_less [of x, where ?'a = nat] by simp

lemma unat_UINT64_MAX_minus: "unat (UINT64_MAX - (b :: u64)) = 18446744073709551615 - unat b"
proof -
  have "b \<le> UINT64_MAX"
    using unat_u64_less [of b] by (simp add: word_le_nat_alt del: unat_u64_less)
  then show ?thesis
    by (subst unat_sub) (simp_all add: word_le_nat_alt)
qed

text \<open>Text literals of the sources as bytes, for the places where they reach the wire.\<close>

definition byte_of_char :: "char \<Rightarrow> u8" where
  "byte_of_char c = word_of_nat (of_char c)"

definition char_of_byte :: "u8 \<Rightarrow> char" where
  "char_of_byte b = char_of (unat b)"

lemma char_of_byte_of_char [simp]: "char_of_byte (byte_of_char c) = c"
  by (simp add: char_of_byte_def byte_of_char_def unat_of_nat take_bit_eq_mod)

lemma byte_of_char_of_byte [simp]: "byte_of_char (char_of_byte b) = b"
proof -
  have "unat b < 256"
    using unsigned_less [of b, where ?'a = nat] by simp
  then show ?thesis
    by (simp add: char_of_byte_def byte_of_char_def of_char_of)
qed

lemma map_char_of_byte_of_char [simp]: "map char_of_byte (map byte_of_char s) = s"
  by (simp add: o_def)

section \<open>Loops with an early return\<close>

text \<open>
  A C++ loop whose body may \<open>return\<close>: the body gives \<open>Some r\<close> for \<open>return r\<close> and
  \<open>None\<close> for falling through, together with the state it left behind, which a failing
  iteration keeps.
\<close>

fun for_each :: "('a \<Rightarrow> 's \<Rightarrow> 'r option \<times> 's) \<Rightarrow> 'a list \<Rightarrow> 's \<Rightarrow> 'r option \<times> 's" where
  "for_each f [] s = (None, s)"
| "for_each f (x # xs) s =
     (case f x s of (None, s') \<Rightarrow> for_each f xs s' | (Some r, s') \<Rightarrow> (Some r, s'))"

text \<open>Straight-line code in which each statement may return.\<close>

definition stmts :: "('s \<Rightarrow> 'r option \<times> 's) list \<Rightarrow> 's \<Rightarrow> 'r option \<times> 's" where
  "stmts fs = for_each (\<lambda>f. f) fs"

lemma stmts_Nil [simp]: "stmts [] s = (None, s)"
  by (simp add: stmts_def)

lemma stmts_Cons [simp]:
  "stmts (f # fs) s = (case f s of (None, s') \<Rightarrow> stmts fs s' | (Some r, s') \<Rightarrow> (Some r, s'))"
  unfolding stmts_def by simp

text \<open>Whatever every iteration keeps, the loop keeps, whether it returns early or not.\<close>

lemma for_each_invariant:
  assumes "\<And>x s. x \<in> set xs \<Longrightarrow> P s \<Longrightarrow> P (snd (f x s))" and "P s"
  shows "P (snd (for_each f xs s))"
  using assms
proof (induction xs arbitrary: s)
  case (Cons x xs)
  show ?case
  proof (cases "f x s")
    case (Pair r s')
    with Cons.prems have "P s'"
      by (metis list.set_intros(1) snd_conv)
    with Pair Cons show ?thesis
      by (cases r) simp_all
  qed
qed simp

lemma for_each_append:
  "for_each f (xs @ ys) s =
     (case for_each f xs s of (None, s') \<Rightarrow> for_each f ys s' | (Some r, s') \<Rightarrow> (Some r, s'))"
  by (induction xs arbitrary: s) (auto split: prod.splits option.splits)

lemma for_each_fst_None_step:
  assumes "fst (for_each f (x # xs) s) = None"
  shows "fst (f x s) = None" and "for_each f (x # xs) s = for_each f xs (snd (f x s))"
  using assms by (auto split: prod.splits option.splits)

section \<open>Resources held after a sequence of calls\<close>

text \<open>What a program holds after its calls, each of which may acquire and release resources.\<close>

definition holding :: "('c \<Rightarrow> 'h set) \<Rightarrow> ('c \<Rightarrow> 'h set) \<Rightarrow> 'c list \<Rightarrow> 'h set" where
  "holding acquires releases cs = fold (\<lambda>c H. (H \<union> acquires c) - releases c) cs {}"

lemma holding_Nil [simp]: "holding acquires releases [] = {}"
  by (simp add: holding_def)

lemma holding_append:
  "holding acquires releases (cs @ cs') = fold (\<lambda>c H. (H \<union> acquires c) - releases c) cs' (holding acquires releases cs)"
  by (simp add: holding_def)

lemma holding_snoc [simp]:
  "holding acquires releases (cs @ [c]) = (holding acquires releases cs \<union> acquires c) - releases c"
  by (simp add: holding_def)

section \<open>Iteration order of unordered containers\<close>

text \<open>
  The C++ standard leaves the order in which a \<open>std::unordered_map\<close> is traversed unspecified.
  A value of this type is one such order: a function that permutes the keys in the order in which
  they were inserted. Every operation that traverses an unordered map takes the order as an
  argument, and theorems about it hold for all of them.
\<close>

typedef 'k hash_order = "{f :: 'k list \<Rightarrow> 'k list. \<forall>xs. mset (f xs) = mset xs}"
  morphisms traverse Hash_Order
  by (rule exI [of _ "\<lambda>xs. xs"]) simp

setup_lifting type_definition_hash_order

lift_definition insertion_order :: "'k hash_order" is "\<lambda>xs. xs"
  by simp

lift_definition reverse_insertion_order :: "'k hash_order" is rev
  by simp

lemma traverse_insertion_order [simp]: "traverse insertion_order xs = xs"
  by transfer simp

lemma traverse_reverse_insertion_order [simp]: "traverse reverse_insertion_order xs = rev xs"
  by transfer simp

lemma mset_traverse [simp]: "mset (traverse ho xs) = mset xs"
  using traverse [of ho] by simp

lemma set_traverse [simp]: "set (traverse ho xs) = set xs"
  by (metis mset_traverse set_mset_mset)

lemma length_traverse [simp]: "length (traverse ho xs) = length xs"
  by (metis mset_traverse size_mset)

lemma distinct_traverse [simp]: "distinct (traverse ho xs) = distinct xs"
  by (metis mset_traverse mset_eq_imp_distinct_iff)

lemma sum_list_traverse: "sum_list (map f (traverse ho xs)) = (sum_list (map f xs) :: 'a :: comm_monoid_add)"
  by (metis mset_traverse mset_map sum_mset_sum_list)

section \<open>Lists and association lists\<close>

lemma sum_list_map_add_nat:
  "sum_list (map (\<lambda>x. f x + g x) xs) = sum_list (map f xs) + (sum_list (map g xs) :: 'a :: comm_monoid_add)"
  by (rule sum_list_addf)

lemma sum_list_list_update_nat:
  "i < length xs \<Longrightarrow> sum_list (xs[i := v]) + xs ! i = sum_list xs + (v :: nat)"
  by (induction xs arbitrary: i) (auto split: nat.splits)

lemma map_of_update [simp]: "map_of (AList.update k v al) = (map_of al)(k \<mapsto> v)"
  by (rule update_conv')

lemma keys_update:
  "map fst (AList.update k v al) = (if k \<in> fst ` set al then map fst al else map fst al @ [k])"
  by (auto simp: update_keys)

lemma distinct_keys_update [simp]:
  "distinct (map fst al) \<Longrightarrow> distinct (map fst (AList.update k v al))"
  by (rule distinct_update)

lemma map_of_distinct_sum:
  assumes "distinct (map fst al)" and "set (map fst al) \<subseteq> A" and "finite A"
  shows "(\<Sum>(k, v) \<leftarrow> al. f v) = (\<Sum>k \<in> A. case map_of al k of None \<Rightarrow> (0 :: 'b :: comm_monoid_add) | Some v \<Rightarrow> f v)"
  using assms
proof (induction al arbitrary: A)
  case Nil
  then show ?case by simp
next
  case (Cons p al)
  obtain k v where p: "p = (k, v)" by fastforce
  have k: "k \<in> A" "k \<notin> set (map fst al)" and sub: "set (map fst al) \<subseteq> A - {k}"
    using Cons.prems p by auto
  have "(\<Sum>x \<in> A. case map_of (p # al) x of None \<Rightarrow> 0 | Some v \<Rightarrow> f v) =
        f v + (\<Sum>x \<in> A - {k}. case map_of (p # al) x of None \<Rightarrow> 0 | Some v \<Rightarrow> f v)"
    using k Cons.prems(3) p by (subst sum.remove [of A k]) auto
  also have "(\<Sum>x \<in> A - {k}. case map_of (p # al) x of None \<Rightarrow> 0 | Some v \<Rightarrow> f v) =
             (\<Sum>x \<in> A - {k}. case map_of al x of None \<Rightarrow> 0 | Some v \<Rightarrow> f v)"
    using p by (intro sum.cong) auto
  also have "\<dots> = (\<Sum>(k, v) \<leftarrow> al. f v)"
    using Cons.IH [of "A - {k}"] Cons.prems sub p by simp
  finally show ?case
    using p by simp
qed

lemma take_drop_append_exact: "n = length xs \<Longrightarrow> take n (xs @ ys) = xs \<and> drop n (xs @ ys) = ys"
  by simp

end
