(* ===== verification/EL_Types.thy ===== *)
theory EL_Types
  imports EL_Prelude
begin

text \<open>
  The strong identities of \<^verbatim>\<open>id.hpp\<close>, the enumerations of \<^verbatim>\<open>enums.hpp\<close> and
  \<^verbatim>\<open>attribution.hpp\<close>, and the status type of \<^verbatim>\<open>error.hpp\<close>.

  A scoped C++ enumeration with a fixed underlying type has every value of that type, and the codec
  casts raw bytes to it, so an enumeration is a one-constructor datatype around its underlying word;
  the enumerators are named constants of it. \<open>validate\<close> is what rejects the other values.
\<close>

section \<open>Identities\<close>

text \<open>
  \<^verbatim>\<open>template <typename Tag> class Identity\<close>: a 64-bit value under a phantom tag, so that
  identities of different authority domains are different types.
\<close>

datatype 'tag Identity = Identity (id_value: u64)

definition id_valid :: "'tag Identity \<Rightarrow> bool" where
  "id_valid i \<longleftrightarrow> id_value i \<noteq> 0"

definition id_invalid :: "'tag Identity" where
  "id_invalid = Identity 0"

lemma id_valid_Identity [simp]: "id_valid (Identity v) \<longleftrightarrow> v \<noteq> 0"
  by (simp add: id_valid_def)

lemma id_valid_invalid [simp]: "\<not> id_valid id_invalid"
  by (simp add: id_invalid_def)

instantiation Identity :: (type) linorder
begin

definition less_eq_Identity :: "'a Identity \<Rightarrow> 'a Identity \<Rightarrow> bool" where
  "less_eq_Identity a b \<longleftrightarrow> id_value a \<le> id_value b"

definition less_Identity :: "'a Identity \<Rightarrow> 'a Identity \<Rightarrow> bool" where
  "less_Identity a b \<longleftrightarrow> id_value a < id_value b"

instance
  by standard (auto simp: less_eq_Identity_def less_Identity_def intro: Identity.expand)

end

lemma Identity_le [simp]: "Identity a \<le> Identity b \<longleftrightarrow> a \<le> b"
  and Identity_less [simp]: "Identity a < Identity b \<longleftrightarrow> a < b"
  by (simp_all add: less_eq_Identity_def less_Identity_def)

typedecl CoordinatorEpochTag
typedecl LedgerIdTag
typedecl LedgerGenerationTag
typedecl AccountIdTag
typedecl AccountGenerationTag
typedecl ServiceIdTag
typedecl ServiceGenerationTag
typedecl WorkloadIdTag
typedecl WorkloadGenerationTag
typedecl RequestIdTag
typedecl RequestGenerationTag
typedecl JobIdTag
typedecl JobGenerationTag
typedecl AttemptIdTag
typedecl AttemptGenerationTag
typedecl WorkerIdTag
typedecl WorkerBootIdTag
typedecl ResourceIdTag
typedecl ResourceGenerationTag
typedecl DeviceIdTag
typedecl DeviceGenerationTag
typedecl AllocationIdTag
typedecl AllocationGenerationTag
typedecl ReservationIdTag
typedecl ReservationGenerationTag
typedecl TransferIdTag
typedecl TransferGenerationTag
typedecl RecoveryIdTag
typedecl RecoveryGenerationTag
typedecl CacheObjectIdTag
typedecl CacheGenerationTag
typedecl EvidenceIdTag
typedecl EvidenceGenerationTag
typedecl AccountingEntryIdTag
typedecl AccountingGenerationTag
typedecl CommitIdTag
typedecl PublicationIdTag

type_synonym CoordinatorEpoch = "CoordinatorEpochTag Identity"
type_synonym LedgerId = "LedgerIdTag Identity"
type_synonym LedgerGeneration = "LedgerGenerationTag Identity"
type_synonym AccountId = "AccountIdTag Identity"
type_synonym AccountGeneration = "AccountGenerationTag Identity"
type_synonym ServiceId = "ServiceIdTag Identity"
type_synonym ServiceGeneration = "ServiceGenerationTag Identity"
type_synonym WorkloadId = "WorkloadIdTag Identity"
type_synonym WorkloadGeneration = "WorkloadGenerationTag Identity"
type_synonym RequestId = "RequestIdTag Identity"
type_synonym RequestGeneration = "RequestGenerationTag Identity"
type_synonym JobId = "JobIdTag Identity"
type_synonym JobGeneration = "JobGenerationTag Identity"
type_synonym AttemptId = "AttemptIdTag Identity"
type_synonym AttemptGeneration = "AttemptGenerationTag Identity"
type_synonym WorkerId = "WorkerIdTag Identity"
type_synonym WorkerBootId = "WorkerBootIdTag Identity"
type_synonym ResourceId = "ResourceIdTag Identity"
type_synonym ResourceGeneration = "ResourceGenerationTag Identity"
type_synonym DeviceId = "DeviceIdTag Identity"
type_synonym DeviceGeneration = "DeviceGenerationTag Identity"
type_synonym AllocationId = "AllocationIdTag Identity"
type_synonym AllocationGeneration = "AllocationGenerationTag Identity"
type_synonym ReservationId = "ReservationIdTag Identity"
type_synonym ReservationGeneration = "ReservationGenerationTag Identity"
type_synonym TransferId = "TransferIdTag Identity"
type_synonym TransferGeneration = "TransferGenerationTag Identity"
type_synonym RecoveryId = "RecoveryIdTag Identity"
type_synonym RecoveryGeneration = "RecoveryGenerationTag Identity"
type_synonym CacheObjectId = "CacheObjectIdTag Identity"
type_synonym CacheGeneration = "CacheGenerationTag Identity"
type_synonym EvidenceId = "EvidenceIdTag Identity"
type_synonym EvidenceGeneration = "EvidenceGenerationTag Identity"
type_synonym AccountingEntryId = "AccountingEntryIdTag Identity"
type_synonym AccountingGeneration = "AccountingGenerationTag Identity"
type_synonym CommitId = "CommitIdTag Identity"
type_synonym PublicationId = "PublicationIdTag Identity"

section \<open>Enumerations\<close>

datatype EfficiencyClass = EfficiencyClass (EfficiencyClass_code: u8)

abbreviation EfficiencyClass_kUseful :: EfficiencyClass where
  "EfficiencyClass_kUseful \<equiv> EfficiencyClass 0"
abbreviation EfficiencyClass_kNecessaryOverhead :: EfficiencyClass where
  "EfficiencyClass_kNecessaryOverhead \<equiv> EfficiencyClass 1"
abbreviation EfficiencyClass_kAvoidableWaste :: EfficiencyClass where
  "EfficiencyClass_kAvoidableWaste \<equiv> EfficiencyClass 2"
abbreviation EfficiencyClass_kAvoidedWork :: EfficiencyClass where
  "EfficiencyClass_kAvoidedWork \<equiv> EfficiencyClass 3"
abbreviation EfficiencyClass_kStrandedCapacity :: EfficiencyClass where
  "EfficiencyClass_kStrandedCapacity \<equiv> EfficiencyClass 4"
abbreviation EfficiencyClass_kUnknown :: EfficiencyClass where
  "EfficiencyClass_kUnknown \<equiv> EfficiencyClass 5"

definition to_string_EfficiencyClass :: "EfficiencyClass \<Rightarrow> string" where
  "to_string_EfficiencyClass x =
     (if x = EfficiencyClass_kUseful then ''USEFUL''
      else if x = EfficiencyClass_kNecessaryOverhead then ''NECESSARY_OVERHEAD''
      else if x = EfficiencyClass_kAvoidableWaste then ''AVOIDABLE_WASTE''
      else if x = EfficiencyClass_kAvoidedWork then ''AVOIDED_WORK''
      else if x = EfficiencyClass_kStrandedCapacity then ''STRANDED_CAPACITY''
      else if x = EfficiencyClass_kUnknown then ''UNKNOWN''
      else ''UNKNOWN'')"

datatype UsefulReason = UsefulReason (UsefulReason_code: u8)

abbreviation UsefulReason_kAuthoritativeExecution :: UsefulReason where
  "UsefulReason_kAuthoritativeExecution \<equiv> UsefulReason 0"
abbreviation UsefulReason_kAcceptedOutput :: UsefulReason where
  "UsefulReason_kAcceptedOutput \<equiv> UsefulReason 1"
abbreviation UsefulReason_kCommittedProgress :: UsefulReason where
  "UsefulReason_kCommittedProgress \<equiv> UsefulReason 2"
abbreviation UsefulReason_kReusedValidState :: UsefulReason where
  "UsefulReason_kReusedValidState \<equiv> UsefulReason 3"

datatype OverheadReason = OverheadReason (OverheadReason_code: u8)

abbreviation OverheadReason_kRequiredTransfer :: OverheadReason where
  "OverheadReason_kRequiredTransfer \<equiv> OverheadReason 0"
abbreviation OverheadReason_kRequiredCheckpoint :: OverheadReason where
  "OverheadReason_kRequiredCheckpoint \<equiv> OverheadReason 1"
abbreviation OverheadReason_kRequiredRecovery :: OverheadReason where
  "OverheadReason_kRequiredRecovery \<equiv> OverheadReason 2"
abbreviation OverheadReason_kRequiredReplication :: OverheadReason where
  "OverheadReason_kRequiredReplication \<equiv> OverheadReason 3"
abbreviation OverheadReason_kRequiredWarmup :: OverheadReason where
  "OverheadReason_kRequiredWarmup \<equiv> OverheadReason 4"
abbreviation OverheadReason_kRequiredCoordination :: OverheadReason where
  "OverheadReason_kRequiredCoordination \<equiv> OverheadReason 5"

datatype WasteReason = WasteReason (WasteReason_code: u8)

abbreviation WasteReason_kFailedAttempt :: WasteReason where
  "WasteReason_kFailedAttempt \<equiv> WasteReason 0"
abbreviation WasteReason_kDuplicateAttempt :: WasteReason where
  "WasteReason_kDuplicateAttempt \<equiv> WasteReason 1"
abbreviation WasteReason_kStaleAttempt :: WasteReason where
  "WasteReason_kStaleAttempt \<equiv> WasteReason 2"
abbreviation WasteReason_kRejectedCompletion :: WasteReason where
  "WasteReason_kRejectedCompletion \<equiv> WasteReason 3"
abbreviation WasteReason_kCancelledAfterWork :: WasteReason where
  "WasteReason_kCancelledAfterWork \<equiv> WasteReason 4"
abbreviation WasteReason_kRecomputation :: WasteReason where
  "WasteReason_kRecomputation \<equiv> WasteReason 5"
abbreviation WasteReason_kDuplicateTransfer :: WasteReason where
  "WasteReason_kDuplicateTransfer \<equiv> WasteReason 6"
abbreviation WasteReason_kUnusedPrefetch :: WasteReason where
  "WasteReason_kUnusedPrefetch \<equiv> WasteReason 7"
abbreviation WasteReason_kInvalidReuse :: WasteReason where
  "WasteReason_kInvalidReuse \<equiv> WasteReason 8"
abbreviation WasteReason_kExpiredResidency :: WasteReason where
  "WasteReason_kExpiredResidency \<equiv> WasteReason 9"
abbreviation WasteReason_kAbandonedRecovery :: WasteReason where
  "WasteReason_kAbandonedRecovery \<equiv> WasteReason 10"
abbreviation WasteReason_kRolledBackWork :: WasteReason where
  "WasteReason_kRolledBackWork \<equiv> WasteReason 11"
abbreviation WasteReason_kSpeculationRejected :: WasteReason where
  "WasteReason_kSpeculationRejected \<equiv> WasteReason 12"
abbreviation WasteReason_kPolicyMisprediction :: WasteReason where
  "WasteReason_kPolicyMisprediction \<equiv> WasteReason 13"
abbreviation WasteReason_kIdleReservedCapacity :: WasteReason where
  "WasteReason_kIdleReservedCapacity \<equiv> WasteReason 14"
abbreviation WasteReason_kFragmentationLoss :: WasteReason where
  "WasteReason_kFragmentationLoss \<equiv> WasteReason 15"

datatype AvoidedWorkReason = AvoidedWorkReason (AvoidedWorkReason_code: u8)

abbreviation AvoidedWorkReason_kCacheHit :: AvoidedWorkReason where
  "AvoidedWorkReason_kCacheHit \<equiv> AvoidedWorkReason 0"
abbreviation AvoidedWorkReason_kPrefixReuse :: AvoidedWorkReason where
  "AvoidedWorkReason_kPrefixReuse \<equiv> AvoidedWorkReason 1"
abbreviation AvoidedWorkReason_kTensorReuse :: AvoidedWorkReason where
  "AvoidedWorkReason_kTensorReuse \<equiv> AvoidedWorkReason 2"
abbreviation AvoidedWorkReason_kGraphReplay :: AvoidedWorkReason where
  "AvoidedWorkReason_kGraphReplay \<equiv> AvoidedWorkReason 3"
abbreviation AvoidedWorkReason_kKernelReuse :: AvoidedWorkReason where
  "AvoidedWorkReason_kKernelReuse \<equiv> AvoidedWorkReason 4"
abbreviation AvoidedWorkReason_kWarmResidency :: AvoidedWorkReason where
  "AvoidedWorkReason_kWarmResidency \<equiv> AvoidedWorkReason 5"
abbreviation AvoidedWorkReason_kCheckpointRestore :: AvoidedWorkReason where
  "AvoidedWorkReason_kCheckpointRestore \<equiv> AvoidedWorkReason 6"
abbreviation AvoidedWorkReason_kDeduplicatedTransfer :: AvoidedWorkReason where
  "AvoidedWorkReason_kDeduplicatedTransfer \<equiv> AvoidedWorkReason 7"
abbreviation AvoidedWorkReason_kSharedExecution :: AvoidedWorkReason where
  "AvoidedWorkReason_kSharedExecution \<equiv> AvoidedWorkReason 8"

datatype StrandedReason = StrandedReason (StrandedReason_code: u8)

abbreviation StrandedReason_kFragmentation :: StrandedReason where
  "StrandedReason_kFragmentation \<equiv> StrandedReason 0"
abbreviation StrandedReason_kReservationIdle :: StrandedReason where
  "StrandedReason_kReservationIdle \<equiv> StrandedReason 1"
abbreviation StrandedReason_kUnusableHeadroom :: StrandedReason where
  "StrandedReason_kUnusableHeadroom \<equiv> StrandedReason 2"
abbreviation StrandedReason_kTopologyMismatch :: StrandedReason where
  "StrandedReason_kTopologyMismatch \<equiv> StrandedReason 3"
abbreviation StrandedReason_kIncompatibleDevice :: StrandedReason where
  "StrandedReason_kIncompatibleDevice \<equiv> StrandedReason 4"
abbreviation StrandedReason_kPinnedButUnused :: StrandedReason where
  "StrandedReason_kPinnedButUnused \<equiv> StrandedReason 5"
abbreviation StrandedReason_kResidencyHold :: StrandedReason where
  "StrandedReason_kResidencyHold \<equiv> StrandedReason 6"
abbreviation StrandedReason_kCapacityFenced :: StrandedReason where
  "StrandedReason_kCapacityFenced \<equiv> StrandedReason 7"
abbreviation StrandedReason_kResourceUnavailableByAuthority :: StrandedReason where
  "StrandedReason_kResourceUnavailableByAuthority \<equiv> StrandedReason 8"
abbreviation StrandedReason_kMemoryHeadroom :: StrandedReason where
  "StrandedReason_kMemoryHeadroom \<equiv> StrandedReason 9"
abbreviation StrandedReason_kWarmStandbyIdle :: StrandedReason where
  "StrandedReason_kWarmStandbyIdle \<equiv> StrandedReason 10"
abbreviation StrandedReason_kCapacityWithoutDemand :: StrandedReason where
  "StrandedReason_kCapacityWithoutDemand \<equiv> StrandedReason 11"
abbreviation StrandedReason_kCapacityBlockedByConstraint :: StrandedReason where
  "StrandedReason_kCapacityBlockedByConstraint \<equiv> StrandedReason 12"

datatype Provenance = Provenance (Provenance_code: u8)

abbreviation Provenance_kMeasured :: Provenance where
  "Provenance_kMeasured \<equiv> Provenance 0"
abbreviation Provenance_kReported :: Provenance where
  "Provenance_kReported \<equiv> Provenance 1"
abbreviation Provenance_kDerived :: Provenance where
  "Provenance_kDerived \<equiv> Provenance 2"
abbreviation Provenance_kEstimated :: Provenance where
  "Provenance_kEstimated \<equiv> Provenance 3"
abbreviation Provenance_kReconstructed :: Provenance where
  "Provenance_kReconstructed \<equiv> Provenance 4"
abbreviation Provenance_kSynthetic :: Provenance where
  "Provenance_kSynthetic \<equiv> Provenance 5"
abbreviation Provenance_kPolicy :: Provenance where
  "Provenance_kPolicy \<equiv> Provenance 6"
abbreviation Provenance_kUnknown :: Provenance where
  "Provenance_kUnknown \<equiv> Provenance 7"

definition to_string_Provenance :: "Provenance \<Rightarrow> string" where
  "to_string_Provenance x =
     (if x = Provenance_kMeasured then ''MEASURED''
      else if x = Provenance_kReported then ''REPORTED''
      else if x = Provenance_kDerived then ''DERIVED''
      else if x = Provenance_kEstimated then ''ESTIMATED''
      else if x = Provenance_kReconstructed then ''RECONSTRUCTED''
      else if x = Provenance_kSynthetic then ''SYNTHETIC''
      else if x = Provenance_kPolicy then ''POLICY''
      else if x = Provenance_kUnknown then ''UNKNOWN''
      else ''UNKNOWN'')"

datatype Freshness = Freshness (Freshness_code: u8)

abbreviation Freshness_kCurrent :: Freshness where
  "Freshness_kCurrent \<equiv> Freshness 0"
abbreviation Freshness_kStale :: Freshness where
  "Freshness_kStale \<equiv> Freshness 1"
abbreviation Freshness_kExpired :: Freshness where
  "Freshness_kExpired \<equiv> Freshness 2"
abbreviation Freshness_kRevalidationRequired :: Freshness where
  "Freshness_kRevalidationRequired \<equiv> Freshness 3"
abbreviation Freshness_kHistorical :: Freshness where
  "Freshness_kHistorical \<equiv> Freshness 4"
abbreviation Freshness_kUnknown :: Freshness where
  "Freshness_kUnknown \<equiv> Freshness 5"

definition to_string_Freshness :: "Freshness \<Rightarrow> string" where
  "to_string_Freshness x =
     (if x = Freshness_kCurrent then ''CURRENT''
      else if x = Freshness_kStale then ''STALE''
      else if x = Freshness_kExpired then ''EXPIRED''
      else if x = Freshness_kRevalidationRequired then ''REVALIDATION_REQUIRED''
      else if x = Freshness_kHistorical then ''HISTORICAL''
      else if x = Freshness_kUnknown then ''UNKNOWN''
      else ''UNKNOWN'')"

datatype EventType = EventType (EventType_code: u8)

abbreviation EventType_kExecutionStarted :: EventType where
  "EventType_kExecutionStarted \<equiv> EventType 0"
abbreviation EventType_kExecutionProgress :: EventType where
  "EventType_kExecutionProgress \<equiv> EventType 1"
abbreviation EventType_kExecutionCompleted :: EventType where
  "EventType_kExecutionCompleted \<equiv> EventType 2"
abbreviation EventType_kOutputPublished :: EventType where
  "EventType_kOutputPublished \<equiv> EventType 3"
abbreviation EventType_kOutputRejected :: EventType where
  "EventType_kOutputRejected \<equiv> EventType 4"
abbreviation EventType_kAttemptFailed :: EventType where
  "EventType_kAttemptFailed \<equiv> EventType 5"
abbreviation EventType_kAttemptCancelled :: EventType where
  "EventType_kAttemptCancelled \<equiv> EventType 6"
abbreviation EventType_kAttemptSuperseded :: EventType where
  "EventType_kAttemptSuperseded \<equiv> EventType 7"
abbreviation EventType_kRetryStarted :: EventType where
  "EventType_kRetryStarted \<equiv> EventType 8"
abbreviation EventType_kTransferStarted :: EventType where
  "EventType_kTransferStarted \<equiv> EventType 9"
abbreviation EventType_kTransferCompleted :: EventType where
  "EventType_kTransferCompleted \<equiv> EventType 10"
abbreviation EventType_kTransferDiscarded :: EventType where
  "EventType_kTransferDiscarded \<equiv> EventType 11"
abbreviation EventType_kResidencyAcquired :: EventType where
  "EventType_kResidencyAcquired \<equiv> EventType 12"
abbreviation EventType_kResidencyReleased :: EventType where
  "EventType_kResidencyReleased \<equiv> EventType 13"
abbreviation EventType_kReservationAcquired :: EventType where
  "EventType_kReservationAcquired \<equiv> EventType 14"
abbreviation EventType_kReservationReleased :: EventType where
  "EventType_kReservationReleased \<equiv> EventType 15"
abbreviation EventType_kCacheHit :: EventType where
  "EventType_kCacheHit \<equiv> EventType 16"
abbreviation EventType_kCacheMiss :: EventType where
  "EventType_kCacheMiss \<equiv> EventType 17"
abbreviation EventType_kStateReused :: EventType where
  "EventType_kStateReused \<equiv> EventType 18"
abbreviation EventType_kStateRecomputed :: EventType where
  "EventType_kStateRecomputed \<equiv> EventType 19"
abbreviation EventType_kCheckpointWritten :: EventType where
  "EventType_kCheckpointWritten \<equiv> EventType 20"
abbreviation EventType_kCheckpointRestored :: EventType where
  "EventType_kCheckpointRestored \<equiv> EventType 21"
abbreviation EventType_kRecoveryStarted :: EventType where
  "EventType_kRecoveryStarted \<equiv> EventType 22"
abbreviation EventType_kRecoveryCompleted :: EventType where
  "EventType_kRecoveryCompleted \<equiv> EventType 23"
abbreviation EventType_kRecoveryFailed :: EventType where
  "EventType_kRecoveryFailed \<equiv> EventType 24"
abbreviation EventType_kAllocationAcquired :: EventType where
  "EventType_kAllocationAcquired \<equiv> EventType 25"
abbreviation EventType_kAllocationReleased :: EventType where
  "EventType_kAllocationReleased \<equiv> EventType 26"
abbreviation EventType_kFragmentationObserved :: EventType where
  "EventType_kFragmentationObserved \<equiv> EventType 27"
abbreviation EventType_kCapacityStranded :: EventType where
  "EventType_kCapacityStranded \<equiv> EventType 28"
abbreviation EventType_kCapacityRestored :: EventType where
  "EventType_kCapacityRestored \<equiv> EventType 29"
abbreviation EventType_kWorkAccepted :: EventType where
  "EventType_kWorkAccepted \<equiv> EventType 30"
abbreviation EventType_kWorkRejected :: EventType where
  "EventType_kWorkRejected \<equiv> EventType 31"
abbreviation EventType_kCommitAuthorized :: EventType where
  "EventType_kCommitAuthorized \<equiv> EventType 32"
abbreviation EventType_kCommitRejected :: EventType where
  "EventType_kCommitRejected \<equiv> EventType 33"
abbreviation EventType_kClassify :: EventType where
  "EventType_kClassify \<equiv> EventType 34"
abbreviation EventType_kReclassify :: EventType where
  "EventType_kReclassify \<equiv> EventType 35"

datatype AttemptOutcome = AttemptOutcome (AttemptOutcome_code: u8)

abbreviation AttemptOutcome_kPending :: AttemptOutcome where
  "AttemptOutcome_kPending \<equiv> AttemptOutcome 0"
abbreviation AttemptOutcome_kSucceeded :: AttemptOutcome where
  "AttemptOutcome_kSucceeded \<equiv> AttemptOutcome 1"
abbreviation AttemptOutcome_kFailed :: AttemptOutcome where
  "AttemptOutcome_kFailed \<equiv> AttemptOutcome 2"
abbreviation AttemptOutcome_kCancelled :: AttemptOutcome where
  "AttemptOutcome_kCancelled \<equiv> AttemptOutcome 3"
abbreviation AttemptOutcome_kSuperseded :: AttemptOutcome where
  "AttemptOutcome_kSuperseded \<equiv> AttemptOutcome 4"

definition to_string_AttemptOutcome :: "AttemptOutcome \<Rightarrow> string" where
  "to_string_AttemptOutcome x =
     (if x = AttemptOutcome_kPending then ''PENDING''
      else if x = AttemptOutcome_kSucceeded then ''SUCCEEDED''
      else if x = AttemptOutcome_kFailed then ''FAILED''
      else if x = AttemptOutcome_kCancelled then ''CANCELLED''
      else if x = AttemptOutcome_kSuperseded then ''SUPERSEDED''
      else ''UNKNOWN'')"

datatype AttributionPolicy = AttributionPolicy (AttributionPolicy_code: u8)

abbreviation AttributionPolicy_kDirectOwnership :: AttributionPolicy where
  "AttributionPolicy_kDirectOwnership \<equiv> AttributionPolicy 0"
abbreviation AttributionPolicy_kEqualShare :: AttributionPolicy where
  "AttributionPolicy_kEqualShare \<equiv> AttributionPolicy 1"
abbreviation AttributionPolicy_kByBytes :: AttributionPolicy where
  "AttributionPolicy_kByBytes \<equiv> AttributionPolicy 2"
abbreviation AttributionPolicy_kByTokens :: AttributionPolicy where
  "AttributionPolicy_kByTokens \<equiv> AttributionPolicy 3"
abbreviation AttributionPolicy_kByExecutionTime :: AttributionPolicy where
  "AttributionPolicy_kByExecutionTime \<equiv> AttributionPolicy 4"
abbreviation AttributionPolicy_kByReservedCapacity :: AttributionPolicy where
  "AttributionPolicy_kByReservedCapacity \<equiv> AttributionPolicy 5"
abbreviation AttributionPolicy_kByWeight :: AttributionPolicy where
  "AttributionPolicy_kByWeight \<equiv> AttributionPolicy 6"
abbreviation AttributionPolicy_kUnattributedShared :: AttributionPolicy where
  "AttributionPolicy_kUnattributedShared \<equiv> AttributionPolicy 7"

definition to_string_AttributionPolicy :: "AttributionPolicy \<Rightarrow> string" where
  "to_string_AttributionPolicy x =
     (if x = AttributionPolicy_kDirectOwnership then ''DIRECT_OWNERSHIP''
      else if x = AttributionPolicy_kEqualShare then ''EQUAL_SHARE''
      else if x = AttributionPolicy_kByBytes then ''BY_BYTES''
      else if x = AttributionPolicy_kByTokens then ''BY_TOKENS''
      else if x = AttributionPolicy_kByExecutionTime then ''BY_EXECUTION_TIME''
      else if x = AttributionPolicy_kByReservedCapacity then ''BY_RESERVED_CAPACITY''
      else if x = AttributionPolicy_kByWeight then ''BY_WEIGHT''
      else if x = AttributionPolicy_kUnattributedShared then ''UNATTRIBUTED_SHARED''
      else ''UNKNOWN'')"

section \<open>Status\<close>

datatype ErrorCode = ErrorCode (ErrorCode_code: u16)

abbreviation ErrorCode_kOk :: ErrorCode where
  "ErrorCode_kOk \<equiv> ErrorCode 0"
abbreviation ErrorCode_kInvalidInput :: ErrorCode where
  "ErrorCode_kInvalidInput \<equiv> ErrorCode 1"
abbreviation ErrorCode_kDuplicateEntry :: ErrorCode where
  "ErrorCode_kDuplicateEntry \<equiv> ErrorCode 2"
abbreviation ErrorCode_kStaleAuthority :: ErrorCode where
  "ErrorCode_kStaleAuthority \<equiv> ErrorCode 3"
abbreviation ErrorCode_kStaleEvidence :: ErrorCode where
  "ErrorCode_kStaleEvidence \<equiv> ErrorCode 4"
abbreviation ErrorCode_kUnknownClassification :: ErrorCode where
  "ErrorCode_kUnknownClassification \<equiv> ErrorCode 5"
abbreviation ErrorCode_kAccountNotFound :: ErrorCode where
  "ErrorCode_kAccountNotFound \<equiv> ErrorCode 6"
abbreviation ErrorCode_kAttemptNotFound :: ErrorCode where
  "ErrorCode_kAttemptNotFound \<equiv> ErrorCode 7"
abbreviation ErrorCode_kReconciliationFailure :: ErrorCode where
  "ErrorCode_kReconciliationFailure \<equiv> ErrorCode 8"
abbreviation ErrorCode_kOverflow :: ErrorCode where
  "ErrorCode_kOverflow \<equiv> ErrorCode 9"
abbreviation ErrorCode_kPersistenceCorrupt :: ErrorCode where
  "ErrorCode_kPersistenceCorrupt \<equiv> ErrorCode 10"
abbreviation ErrorCode_kProtocolError :: ErrorCode where
  "ErrorCode_kProtocolError \<equiv> ErrorCode 11"
abbreviation ErrorCode_kResourceExhausted :: ErrorCode where
  "ErrorCode_kResourceExhausted \<equiv> ErrorCode 12"
abbreviation ErrorCode_kOutcomeUnknown :: ErrorCode where
  "ErrorCode_kOutcomeUnknown \<equiv> ErrorCode 13"
abbreviation ErrorCode_kCancelled :: ErrorCode where
  "ErrorCode_kCancelled \<equiv> ErrorCode 14"
abbreviation ErrorCode_kShuttingDown :: ErrorCode where
  "ErrorCode_kShuttingDown \<equiv> ErrorCode 15"
abbreviation ErrorCode_kNotAuthoritative :: ErrorCode where
  "ErrorCode_kNotAuthoritative \<equiv> ErrorCode 16"

datatype Status = Status (status_code: ErrorCode) (status_message: string)

definition Status_success :: Status where
  "Status_success = Status ErrorCode_kOk []"

definition Status_ok :: "Status \<Rightarrow> bool" where
  "Status_ok st \<longleftrightarrow> status_code st = ErrorCode_kOk"

lemma Status_ok_success [simp]: "Status_ok Status_success"
  by (simp add: Status_ok_def Status_success_def)

lemma Status_ok_Status [simp]: "Status_ok (Status c m) \<longleftrightarrow> c = ErrorCode_kOk"
  by (simp add: Status_ok_def)

definition to_string_ErrorCode :: "ErrorCode \<Rightarrow> string" where
  "to_string_ErrorCode x =
     (if x = ErrorCode_kOk then ''OK''
      else if x = ErrorCode_kInvalidInput then ''INVALID_INPUT''
      else if x = ErrorCode_kDuplicateEntry then ''DUPLICATE_ENTRY''
      else if x = ErrorCode_kStaleAuthority then ''STALE_AUTHORITY''
      else if x = ErrorCode_kStaleEvidence then ''STALE_EVIDENCE''
      else if x = ErrorCode_kUnknownClassification then ''UNKNOWN_CLASSIFICATION''
      else if x = ErrorCode_kAccountNotFound then ''ACCOUNT_NOT_FOUND''
      else if x = ErrorCode_kAttemptNotFound then ''ATTEMPT_NOT_FOUND''
      else if x = ErrorCode_kReconciliationFailure then ''RECONCILIATION_FAILURE''
      else if x = ErrorCode_kOverflow then ''OVERFLOW''
      else if x = ErrorCode_kPersistenceCorrupt then ''PERSISTENCE_CORRUPT''
      else if x = ErrorCode_kProtocolError then ''PROTOCOL_ERROR''
      else if x = ErrorCode_kResourceExhausted then ''RESOURCE_EXHAUSTED''
      else if x = ErrorCode_kOutcomeUnknown then ''OUTCOME_UNKNOWN''
      else if x = ErrorCode_kCancelled then ''CANCELLED''
      else if x = ErrorCode_kShuttingDown then ''SHUTTING_DOWN''
      else if x = ErrorCode_kNotAuthoritative then ''NOT_AUTHORITATIVE''
      else ''UNKNOWN'')"

end
