(* ===== verification/EL_Resource.thy ===== *)
theory EL_Resource
  imports EL_Types
begin

text \<open>
  \<^verbatim>\<open>resource.hpp\<close>: the sixteen resource dimensions, checked 64-bit arithmetic, the 128-bit
  proportional split \<open>mul_div\<close>, and \<open>ResourceUsage\<close>, an array of one counter per dimension.
\<close>

section \<open>Dimensions\<close>

text \<open>
  The enumerators that index an array. The sentinel \<open>kDimensions_Count\<close> is the number of them,
  not a dimension: reading an array at it is out of bounds.
\<close>

datatype ResourceDimension =
    kAcceleratorNanoseconds
  | kCpuNanoseconds
  | kEnergyMicroJoules
  | kTransferBytes
  | kStorageBytes
  | kMemoryByteNanoseconds
  | kAcceleratorMemoryByteNanoseconds
  | kHostMemoryByteNanoseconds
  | kPinnedMemoryByteNanoseconds
  | kNetworkByteNanoseconds
  | kOperations
  | kTokens
  | kRequests
  | kWorkUnits
  | kCapacityByteNanoseconds
  | kDeviceNanoseconds

text \<open>The dimensions in the order in which a loop \<open>d = 0 .. kDimensionCount - 1\<close> visits them.\<close>

definition dims :: "ResourceDimension list" where
  "dims =
    [kAcceleratorNanoseconds, kCpuNanoseconds, kEnergyMicroJoules,
     kTransferBytes, kStorageBytes, kMemoryByteNanoseconds,
     kAcceleratorMemoryByteNanoseconds, kHostMemoryByteNanoseconds, kPinnedMemoryByteNanoseconds,
     kNetworkByteNanoseconds, kOperations, kTokens,
     kRequests, kWorkUnits, kCapacityByteNanoseconds,
     kDeviceNanoseconds]"

definition kDimensionCount :: nat where
  "kDimensionCount = 16"

primrec to_string_ResourceDimension :: "ResourceDimension \<Rightarrow> string" where
    "to_string_ResourceDimension kAcceleratorNanoseconds = ''AcceleratorNanoseconds''"
  | "to_string_ResourceDimension kCpuNanoseconds = ''CpuNanoseconds''"
  | "to_string_ResourceDimension kEnergyMicroJoules = ''EnergyMicroJoules''"
  | "to_string_ResourceDimension kTransferBytes = ''TransferBytes''"
  | "to_string_ResourceDimension kStorageBytes = ''StorageBytes''"
  | "to_string_ResourceDimension kMemoryByteNanoseconds = ''MemoryByteNanoseconds''"
  | "to_string_ResourceDimension kAcceleratorMemoryByteNanoseconds = ''AcceleratorMemoryByteNanoseconds''"
  | "to_string_ResourceDimension kHostMemoryByteNanoseconds = ''HostMemoryByteNanoseconds''"
  | "to_string_ResourceDimension kPinnedMemoryByteNanoseconds = ''PinnedMemoryByteNanoseconds''"
  | "to_string_ResourceDimension kNetworkByteNanoseconds = ''NetworkByteNanoseconds''"
  | "to_string_ResourceDimension kOperations = ''Operations''"
  | "to_string_ResourceDimension kTokens = ''Tokens''"
  | "to_string_ResourceDimension kRequests = ''Requests''"
  | "to_string_ResourceDimension kWorkUnits = ''WorkUnits''"
  | "to_string_ResourceDimension kCapacityByteNanoseconds = ''CapacityByteNanoseconds''"
  | "to_string_ResourceDimension kDeviceNanoseconds = ''DeviceNanoseconds''"

lemma UNIV_dims: "UNIV = set dims"
proof
  show "UNIV \<subseteq> set dims"
  proof
    fix d :: ResourceDimension
    show "d \<in> set dims"
      by (cases d) (simp_all add: dims_def)
  qed
qed simp

lemma in_dims [simp]: "d \<in> set dims"
  using UNIV_dims by blast

lemma distinct_dims [simp]: "distinct dims"
  by (simp add: dims_def)

lemma length_dims [simp]: "length dims = 16"
  by (simp add: dims_def)

lemma dims_not_Nil [simp]: "dims \<noteq> []"
  by (simp add: dims_def)

instantiation ResourceDimension :: enum
begin

definition enum_ResourceDimension :: "ResourceDimension list" where
  "enum_ResourceDimension = dims"

definition enum_all_ResourceDimension :: "(ResourceDimension \<Rightarrow> bool) \<Rightarrow> bool" where
  "enum_all_ResourceDimension P \<longleftrightarrow> list_all P dims"

definition enum_ex_ResourceDimension :: "(ResourceDimension \<Rightarrow> bool) \<Rightarrow> bool" where
  "enum_ex_ResourceDimension P \<longleftrightarrow> list_ex P dims"

instance
  by standard
    (auto simp: enum_ResourceDimension_def enum_all_ResourceDimension_def
      enum_ex_ResourceDimension_def list_all_iff list_ex_iff UNIV_dims [symmetric])

end

text \<open>
  \<open>static_cast<std::size_t>(d)\<close> of a raw enumeration value: the array cell it names, if it is
  in range.
\<close>

definition is_resource_dimension :: "nat \<Rightarrow> bool" where
  "is_resource_dimension d \<longleftrightarrow> d < kDimensionCount"

definition dimension_at :: "nat \<Rightarrow> ResourceDimension option" where
  "dimension_at d = (if is_resource_dimension d then Some (dims ! d) else None)"

type_synonym DimTotals = "ResourceDimension \<Rightarrow> u64"

abbreviation zero_totals :: DimTotals where
  "zero_totals \<equiv> (\<lambda>_. 0)"

section \<open>Checked arithmetic\<close>

definition checked_add :: "u64 \<Rightarrow> u64 \<Rightarrow> u64 option" where
  "checked_add a b = (if a > UINT64_MAX - b then None else Some (a + b))"

definition checked_sub :: "u64 \<Rightarrow> u64 \<Rightarrow> u64 option" where
  "checked_sub a b = (if b > a then None else Some (a - b))"

definition checked_mul :: "u64 \<Rightarrow> u64 \<Rightarrow> u64 option" where
  "checked_mul a b = (if a \<noteq> 0 \<and> b > UINT64_MAX div a then None else Some (a * b))"

text \<open>
  The product is formed in 128 bits; quotient and remainder are cut back to 64. The result is the
  pair of the returned quotient and the out-parameter \<open>rem\<close>.
\<close>

definition mul_div :: "u64 \<Rightarrow> u64 \<Rightarrow> u64 \<Rightarrow> u64 \<times> u64" where
  "mul_div a b d =
     (let p = (ucast a :: 128 word) * ucast b
      in (ucast (p div ucast d), ucast (p mod ucast d)))"

lemma checked_add_None_iff: "checked_add a b = None \<longleftrightarrow> 18446744073709551616 \<le> unat a + unat b"
  using unat_u64_less [of a] unat_u64_less [of b]
  unfolding checked_add_def word_less_nat_alt unat_UINT64_MAX_minus
  by (auto simp del: unat_u64_less)

lemma unat_add_u64:
  "unat a + unat b < 18446744073709551616 \<Longrightarrow> unat (a + b :: u64) = unat a + unat b"
  by (simp add: unat_word_ariths)

lemma checked_add_Some_iff:
  "checked_add a b = Some c \<longleftrightarrow> unat c = unat a + unat b"
proof
  assume some: "checked_add a b = Some c"
  then have "unat a + unat b < 18446744073709551616"
    by (metis checked_add_None_iff linorder_not_less option.distinct(1))
  moreover have "c = a + b"
    using some by (simp add: checked_add_def split: if_splits)
  ultimately show "unat c = unat a + unat b"
    by (simp add: unat_add_u64)
next
  assume eq: "unat c = unat a + unat b"
  then have "unat a + unat b < 18446744073709551616"
    using unat_u64_less [of c] by simp
  then have "checked_add a b \<noteq> None" and "unat (a + b) = unat c"
    using eq by (simp_all add: checked_add_None_iff unat_add_u64)
  then have "checked_add a b = Some (a + b)" and "unat (a + b) = unat c"
    by (auto simp: checked_add_def split: if_splits)
  then show "checked_add a b = Some c"
    by (metis word_unat_eq_iff)
qed

lemma checked_add_ok:
  "unat a + unat b < 18446744073709551616 \<Longrightarrow> checked_add a b = Some (a + b)"
  by (simp add: checked_add_Some_iff unat_add_u64)

lemma checked_add_zero [simp]: "checked_add a 0 = Some a" "checked_add 0 a = Some a"
  by (simp_all add: checked_add_Some_iff)

lemma checked_sub_Some_iff: "checked_sub a b = Some c \<longleftrightarrow> unat a = unat b + unat c"
proof
  assume "checked_sub a b = Some c"
  then have "b \<le> a" and "c = a - b"
    by (auto simp: checked_sub_def not_less split: if_splits)
  then show "unat a = unat b + unat c"
    by (simp add: unat_sub word_le_nat_alt)
next
  assume eq: "unat a = unat b + unat c"
  then have "b \<le> a"
    by (simp add: word_le_nat_alt)
  moreover from this eq have "unat (a - b) = unat c"
    by (simp add: unat_sub)
  ultimately show "checked_sub a b = Some c"
    by (simp add: checked_sub_def not_less word_unat_eq_iff)
qed

lemma checked_sub_None_iff: "checked_sub a b = None \<longleftrightarrow> unat a < unat b"
  by (auto simp: checked_sub_def word_less_nat_alt split: if_splits)

lemma checked_mul_Some_iff: "checked_mul a b = Some c \<longleftrightarrow> unat c = unat a * unat b"
proof -
  have guard: "(a \<noteq> 0 \<and> b > UINT64_MAX div a) \<longleftrightarrow> 18446744073709551616 \<le> unat a * unat b"
  proof (cases "a = 0")
    case False
    then have pos: "0 < unat a"
      by (simp add: unat_gt_0)
    have "b > UINT64_MAX div a \<longleftrightarrow> 18446744073709551615 div unat a < unat b"
      by (simp add: word_less_nat_alt unat_div)
    also have "\<dots> \<longleftrightarrow> 18446744073709551615 < unat b * unat a"
      using pos by (rule div_less_iff_less_mult)
    finally show ?thesis
      using False by (simp add: mult.commute Suc_le_eq [symmetric])
  qed simp
  show ?thesis
  proof (cases "18446744073709551616 \<le> unat a * unat b")
    case True
    then have "checked_mul a b = None"
      unfolding checked_mul_def using guard by simp
    moreover have "unat c \<noteq> unat a * unat b"
      using True unat_u64_less [of c] by linarith
    ultimately show ?thesis by simp
  next
    case False
    then have "checked_mul a b = Some (a * b)"
      unfolding checked_mul_def using guard by simp
    moreover have "unat (a * b) = unat a * unat b"
      using False by (simp add: unat_word_ariths)
    ultimately show ?thesis
      by (auto simp: word_unat_eq_iff)
  qed
qed

lemma unat_ucast_u128 [simp]: "unat (ucast (a :: u64) :: 128 word) = unat a"
  using unat_u64_less [of a] by (simp add: unsigned_ucast_eq take_bit_eq_mod del: unat_u64_less)

lemma unat_mul_u128: "unat ((ucast (a :: u64) :: 128 word) * ucast (b :: u64)) = unat a * unat b"
proof -
  have "unat a * unat b < 2 ^ 64 * 2 ^ 64"
    by (rule mult_strict_mono) simp_all
  then show ?thesis
    by (simp add: unat_word_ariths)
qed

lemma unat_ucast_u64_of_u128: "unat (ucast (p :: 128 word) :: u64) = unat p mod 18446744073709551616"
  by (simp add: unsigned_ucast_eq take_bit_eq_mod)

lemma mul_div_rem: "unat (snd (mul_div a b d)) = (if d = 0 then (unat a * unat b) mod 2 ^ 64 else (unat a * unat b) mod unat d)"
proof (cases "d = 0")
  case True
  then show ?thesis
    by (simp add: mul_div_def Let_def unat_ucast_u64_of_u128 unat_mod unat_mul_u128)
next
  case False
  then have "(unat a * unat b) mod unat d < unat d"
    by (simp add: unat_gt_0)
  also have "unat d < 18446744073709551616" by simp
  finally show ?thesis
    using False by (simp add: mul_div_def Let_def unat_ucast_u64_of_u128 unat_mod unat_mul_u128)
qed

lemma mul_div_quot:
  assumes "b \<le> d" and "d \<noteq> 0"
  shows "unat (fst (mul_div a b d)) = (unat a * unat b) div unat d"
proof -
  have "(unat a * unat b) div unat d \<le> unat a * unat d div unat d"
    using assms by (intro div_le_mono mult_le_mono2) (simp add: word_le_nat_alt)
  also have "\<dots> = unat a"
    using assms by (simp add: unat_gt_0)
  also have "\<dots> < 18446744073709551616" by simp
  finally show ?thesis
    by (simp add: mul_div_def Let_def unat_ucast_u64_of_u128 unat_div unat_mul_u128)
qed

section \<open>Resource usage\<close>

text \<open>
  \<open>ResourceUsage\<close> wraps one \<open>std::array<std::uint64_t, kDimensionCount>\<close>. The mutators
  that can fail return the new usage or \<open>None\<close> for \<open>false\<close>; \<open>get\<close>, \<open>add\<close>,
  \<open>sub\<close> and \<open>mul\<close> index the array without a range check, so they are given here for an
  index that is a dimension, while the constructor and \<open>set\<close> do check.
\<close>

type_synonym ResourceUsage = DimTotals

definition ResourceUsage_set :: "ResourceUsage \<Rightarrow> nat \<Rightarrow> u64 \<Rightarrow> ResourceUsage" where
  "ResourceUsage_set u d amount =
     (case dimension_at d of Some c \<Rightarrow> u(c := amount) | None \<Rightarrow> u)"

definition ResourceUsage_make :: "nat \<Rightarrow> u64 \<Rightarrow> ResourceUsage" where
  "ResourceUsage_make d amount =
     (case dimension_at d of Some c \<Rightarrow> zero_totals(c := amount) | None \<Rightarrow> zero_totals)"

definition ResourceUsage_get :: "ResourceUsage \<Rightarrow> ResourceDimension \<Rightarrow> u64" where
  "ResourceUsage_get u d = u d"

definition ResourceUsage_add_dim :: "ResourceUsage \<Rightarrow> ResourceDimension \<Rightarrow> u64 \<Rightarrow> ResourceUsage option" where
  "ResourceUsage_add_dim u d amount = map_option (\<lambda>out. u(d := out)) (checked_add (u d) amount)"

definition ResourceUsage_sub :: "ResourceUsage \<Rightarrow> ResourceDimension \<Rightarrow> u64 \<Rightarrow> ResourceUsage option" where
  "ResourceUsage_sub u d amount = map_option (\<lambda>out. u(d := out)) (checked_sub (u d) amount)"

definition ResourceUsage_mul :: "ResourceUsage \<Rightarrow> ResourceDimension \<Rightarrow> u64 \<Rightarrow> ResourceUsage option" where
  "ResourceUsage_mul u d factor = map_option (\<lambda>out. u(d := out)) (checked_mul (u d) factor)"

text \<open>
  Elementwise addition of another usage. The loop stores each sum before it computes the next, so
  the usage that \<open>false\<close> leaves behind is part of the result.
\<close>

definition ResourceUsage_add :: "ResourceUsage \<Rightarrow> ResourceUsage \<Rightarrow> bool \<times> ResourceUsage" where
  "ResourceUsage_add u other =
     (case for_each
             (\<lambda>i data. case checked_add (data i) (other i) of
                None \<Rightarrow> (Some False, data)
              | Some out \<Rightarrow> (None, data(i := out)))
             dims u
      of (Some r, data) \<Rightarrow> (r, data) | (None, data) \<Rightarrow> (True, data))"

definition ResourceUsage_is_zero :: "ResourceUsage \<Rightarrow> bool" where
  "ResourceUsage_is_zero u \<longleftrightarrow> list_all (\<lambda>d. u d = 0) dims"

definition ResourceUsage_valid :: "ResourceUsage \<Rightarrow> bool" where
  "ResourceUsage_valid u \<longleftrightarrow> True"

lemma ResourceUsage_is_zero_iff: "ResourceUsage_is_zero u \<longleftrightarrow> u = zero_totals"
  by (auto simp: ResourceUsage_is_zero_def list_all_iff fun_eq_iff)

lemma ResourceUsage_valid_True [simp]: "ResourceUsage_valid u"
  by (simp add: ResourceUsage_valid_def)

end
