(* ===== verification/EL_Entry.thy ===== *)
theory EL_Entry
  imports EL_Resource
begin

text \<open>
  \<^verbatim>\<open>attribution.hpp\<close> and \<^verbatim>\<open>entry.hpp\<close>: the shared-attribution descriptor and the
  accounting entry, with the validity checks that run before any accounting.
\<close>

section \<open>Shared attribution descriptors\<close>

definition kMaxSharedParticipants :: nat where
  "kMaxSharedParticipants = 4096"

record SharedParticipant =
  sp_account :: AccountId
  sp_weight :: u64

record SharedRef =
  sh_policy :: AttributionPolicy
  sh_participants :: "SharedParticipant list"

text \<open>
  The loop body of \<open>SharedRef::valid\<close> (\<open>Some False\<close> is its \<open>return false\<close>) and the
  whole check.
\<close>

definition SharedRef_weigh :: "SharedParticipant \<Rightarrow> u64 \<Rightarrow> bool option \<times> u64" where
  "SharedRef_weigh p t =
     (if \<not> id_valid (sp_account p) then (Some False, t)
      else if sp_weight p = 0 then (Some False, t)
      else case checked_add t (sp_weight p) of
        None \<Rightarrow> (Some False, t)
      | Some t' \<Rightarrow> (None, t'))"

definition SharedRef_valid :: "SharedRef \<Rightarrow> bool" where
  "SharedRef_valid s =
     (if sh_participants s = [] then True
      else if length (sh_participants s) > kMaxSharedParticipants then False
      else case for_each SharedRef_weigh (sh_participants s) 0 of
          (Some r, _) \<Rightarrow> r
        | (None, t) \<Rightarrow> if length (sh_participants s) = 1 then True else t \<noteq> 0)"

section \<open>The accounting entry\<close>

record Subcategory =
  sc_useful :: UsefulReason
  sc_overhead :: OverheadReason
  sc_waste :: WasteReason
  sc_avoided :: AvoidedWorkReason
  sc_stranded :: StrandedReason

record AuthorityFences =
  f_epoch :: CoordinatorEpoch
  f_worker_boot :: WorkerBootId
  f_ledger_generation :: LedgerGeneration
  f_account_generation :: AccountGeneration
  f_workload_generation :: WorkloadGeneration
  f_resource_generation :: ResourceGeneration
  f_reservation_generation :: ReservationGeneration
  f_allocation_generation :: AllocationGeneration
  f_transfer_generation :: TransferGeneration
  f_recovery_generation :: RecoveryGeneration
  f_cache_generation :: CacheGeneration
  f_evidence_generation :: EvidenceGeneration
  f_accounting_generation :: AccountingGeneration
  f_publication :: PublicationId

record Owners =
  o_resource :: ResourceId
  o_transfer :: TransferId
  o_reservation :: ReservationId
  o_allocation :: AllocationId
  o_recovery :: RecoveryId
  o_cache_object :: CacheObjectId
  o_device :: DeviceId
  o_request :: RequestId
  o_workload :: WorkloadId
  o_job :: JobId
  o_service :: ServiceId

record AttemptOptions =
  at_id :: AttemptId
  at_generation :: AttemptGeneration

record LedgerEntry =
  e_id :: AccountingEntryId
  e_event :: EventType
  e_classification :: EfficiencyClass
  e_subcategory :: Subcategory
  e_usage :: ResourceUsage
  e_avoided_work :: "ResourceUsage option"
  e_stranded_capacity :: "ResourceUsage option"
  e_provenance :: Provenance
  e_freshness :: Freshness
  e_account :: AccountId
  e_shared :: "SharedRef option"
  e_fences :: AuthorityFences
  e_owners :: Owners
  e_attempt :: AttemptOptions
  e_attempt_outcome :: AttemptOutcome
  e_revision_target :: "AccountingEntryId option"
  e_note :: bytes

text \<open>The default member initialisers.\<close>

definition Subcategory_default :: Subcategory where
  "Subcategory_default =
     \<lparr>sc_useful = UsefulReason_kAuthoritativeExecution,
      sc_overhead = OverheadReason_kRequiredTransfer,
      sc_waste = WasteReason_kFailedAttempt,
      sc_avoided = AvoidedWorkReason_kCacheHit,
      sc_stranded = StrandedReason_kFragmentation\<rparr>"

definition AuthorityFences_default :: AuthorityFences where
  "AuthorityFences_default =
     \<lparr>f_epoch = id_invalid, f_worker_boot = id_invalid, f_ledger_generation = id_invalid,
      f_account_generation = id_invalid, f_workload_generation = id_invalid,
      f_resource_generation = id_invalid, f_reservation_generation = id_invalid,
      f_allocation_generation = id_invalid, f_transfer_generation = id_invalid,
      f_recovery_generation = id_invalid, f_cache_generation = id_invalid,
      f_evidence_generation = id_invalid, f_accounting_generation = id_invalid,
      f_publication = id_invalid\<rparr>"

definition Owners_default :: Owners where
  "Owners_default =
     \<lparr>o_resource = id_invalid, o_transfer = id_invalid, o_reservation = id_invalid,
      o_allocation = id_invalid, o_recovery = id_invalid, o_cache_object = id_invalid,
      o_device = id_invalid, o_request = id_invalid, o_workload = id_invalid,
      o_job = id_invalid, o_service = id_invalid\<rparr>"

definition AttemptOptions_default :: AttemptOptions where
  "AttemptOptions_default = \<lparr>at_id = id_invalid, at_generation = id_invalid\<rparr>"

definition LedgerEntry_default :: LedgerEntry where
  "LedgerEntry_default =
     \<lparr>e_id = id_invalid, e_event = EventType_kExecutionCompleted,
      e_classification = EfficiencyClass_kUnknown, e_subcategory = Subcategory_default,
      e_usage = zero_totals, e_avoided_work = None, e_stranded_capacity = None,
      e_provenance = Provenance_kUnknown, e_freshness = Freshness_kCurrent,
      e_account = id_invalid, e_shared = None, e_fences = AuthorityFences_default,
      e_owners = Owners_default, e_attempt = AttemptOptions_default,
      e_attempt_outcome = AttemptOutcome_kPending, e_revision_target = None, e_note = []\<rparr>"

definition attached :: "AttemptOptions \<Rightarrow> bool" where
  "attached a \<longleftrightarrow> id_valid (at_id a)"

definition has_attempt :: "LedgerEntry \<Rightarrow> bool" where
  "has_attempt e \<longleftrightarrow> id_valid (at_id (e_attempt e))"

definition has_outcome :: "LedgerEntry \<Rightarrow> bool" where
  "has_outcome e \<longleftrightarrow> e_attempt_outcome e \<noteq> AttemptOutcome_kPending"

definition is_terminal_outcome :: "LedgerEntry \<Rightarrow> bool" where
  "is_terminal_outcome e \<longleftrightarrow> e_attempt_outcome e \<noteq> AttemptOutcome_kPending"

definition LedgerEntry_validate :: "LedgerEntry \<Rightarrow> bool" where
  "LedgerEntry_validate e =
     (if \<not> id_valid (e_id e) then False
      else if EventType_code (e_event e) > EventType_code EventType_kReclassify then False
      else if EfficiencyClass_code (e_classification e) > EfficiencyClass_code EfficiencyClass_kUnknown then False
      else if Provenance_code (e_provenance e) > Provenance_code Provenance_kUnknown then False
      else if Freshness_code (e_freshness e) > Freshness_code Freshness_kUnknown then False
      else if AttemptOutcome_code (e_attempt_outcome e) > AttemptOutcome_code AttemptOutcome_kSuperseded then False
      else if \<not> ResourceUsage_valid (e_usage e) then False
      else if (case e_avoided_work e of None \<Rightarrow> False | Some u \<Rightarrow> \<not> ResourceUsage_valid u) then False
      else if (case e_stranded_capacity e of None \<Rightarrow> False | Some u \<Rightarrow> \<not> ResourceUsage_valid u) then False
      else if (case e_shared e of None \<Rightarrow> False | Some s \<Rightarrow> \<not> SharedRef_valid s) then False
      else if has_outcome e \<and> \<not> id_valid (at_id (e_attempt e)) then False
      else if \<not> id_valid (e_account e) \<and> e_shared e = None then False
      else True)"

section \<open>What a valid descriptor guarantees\<close>

abbreviation participants_weight :: "SharedParticipant list \<Rightarrow> nat" where
  "participants_weight ps \<equiv> \<Sum>p \<leftarrow> ps. unat (sp_weight p)"

lemma SharedRef_weigh_loop:
  "for_each SharedRef_weigh ps t = (r, t') \<Longrightarrow>
     (if (\<forall>p \<in> set ps. id_valid (sp_account p) \<and> sp_weight p \<noteq> 0) \<and>
         unat t + participants_weight ps < 18446744073709551616
      then r = None \<and> unat t' = unat t + participants_weight ps else r = Some False)"
proof (induction ps arbitrary: t)
  case Nil
  then show ?case by auto
next
  case (Cons p ps)
  show ?case
  proof (cases "checked_add t (sp_weight p)")
    case None
    then have "18446744073709551616 \<le> unat t + unat (sp_weight p)"
      by (simp add: checked_add_None_iff)
    with None Cons.prems show ?thesis
      by (auto simp: SharedRef_weigh_def split: if_splits)
  next
    case (Some t1)
    then have "unat t1 = unat t + unat (sp_weight p)"
      by (simp add: checked_add_Some_iff)
    with Some Cons show ?thesis
      by (auto simp: SharedRef_weigh_def add.assoc split: if_splits)
  qed
qed

lemma SharedRef_valid_iff:
  "SharedRef_valid s \<longleftrightarrow>
     sh_participants s = [] \<or>
     (length (sh_participants s) \<le> kMaxSharedParticipants \<and>
      (\<forall>p \<in> set (sh_participants s). id_valid (sp_account p) \<and> sp_weight p \<noteq> 0) \<and>
      participants_weight (sh_participants s) < 18446744073709551616)"
proof (cases "sh_participants s = []")
  case True
  then show ?thesis by (simp add: SharedRef_valid_def)
next
  case False
  let ?ps = "sh_participants s"
  let ?good = "\<forall>p \<in> set ?ps. id_valid (sp_account p) \<and> sp_weight p \<noteq> 0"
  obtain r t where loop: "for_each SharedRef_weigh ?ps 0 = (r, t)"
    by fastforce
  have "?good \<Longrightarrow> 0 < participants_weight ?ps"
    using False by (cases ?ps) (auto simp: unat_gt_0)
  with SharedRef_weigh_loop [OF loop] have
    "if ?good \<and> participants_weight ?ps < 18446744073709551616 then r = None \<and> t \<noteq> 0 else r = Some False"
    by (auto simp del: sum_list_eq_0_iff split: if_splits)
  with False show ?thesis
    by (auto simp: SharedRef_valid_def loop split: if_splits)
qed

end
