(* ===== verification/EL_Attribution.thy ===== *)
theory EL_Attribution
  imports EL_Entry
begin

text \<open>
  Shared-work attribution (\<^verbatim>\<open>ledger.cpp\<close>, \<open>distribute_dim\<close> and
  \<open>compute_attribution\<close>): largest-remainder apportionment of one counter among weighted
  participants, and its extension to the usages an entry carries. The lemmas show that the split is
  exact, that every share is its proportional quota rounded down or up, and that the units left over
  by rounding go to the largest remainders.
\<close>

section \<open>Largest-remainder apportionment of one counter\<close>

text \<open>The two summation loops; \<open>None\<close> is the overflow that makes \<open>distribute_dim\<close> give up.\<close>

fun total_weight :: "u64 \<Rightarrow> u64 list \<Rightarrow> u64 option" where
  "total_weight totalw [] = Some totalw"
| "total_weight totalw (w # ws) =
     (case checked_add totalw w of None \<Rightarrow> None | Some tmp \<Rightarrow> total_weight tmp ws)"

text \<open>
  The quota loop stores quotient and remainder of each participant before it adds the quotient to
  \<open>allocated\<close>; the cells of later participants still hold zero if it gives up.
\<close>

fun quota_loop :: "u64 \<Rightarrow> u64 \<Rightarrow> u64 list \<Rightarrow> u64 list \<Rightarrow> u64 list \<Rightarrow> u64 \<Rightarrow> u64 list \<times> u64 list \<times> u64 option" where
  "quota_loop amount totalw [] out rems allocated = (out, rems, Some allocated)"
| "quota_loop amount totalw (w # ws) out rems allocated =
     (let (q, rem) = mul_div amount w totalw;
          out' = out @ [q];
          rems' = rems @ [rem]
      in case checked_add allocated q of
           None \<Rightarrow> (out' @ replicate (length ws) 0, rems' @ replicate (length ws) 0, None)
         | Some tmp \<Rightarrow> quota_loop amount totalw ws out' rems' tmp)"

text \<open>
  \<open>std::sort\<close> of the indices by decreasing remainder, ties by increasing index. The comparator
  is a strict total order, so the sorted sequence is unique; the stable sort by the negated
  remainder is that sequence (\<open>remainder_order_sorted\<close> below).
\<close>

definition remainder_order :: "u64 list \<Rightarrow> nat list" where
  "remainder_order rems = sort_key (\<lambda>i. - uint (rems ! i)) [0..<length rems]"

definition hand_out :: "nat list \<Rightarrow> u64 list \<Rightarrow> u64 list" where
  "hand_out is out = fold (\<lambda>i out. out[i := out ! i + 1]) is out"

definition distribute_dim :: "u64 \<Rightarrow> u64 list \<Rightarrow> u64 list \<times> u64" where
  "distribute_dim amount weights =
     (let zeros = replicate (length weights) 0
      in if weights = [] \<or> amount = 0 then (zeros, amount)
         else case total_weight 0 weights of
           None \<Rightarrow> (zeros, amount)
         | Some totalw \<Rightarrow>
             if totalw = 0 then (zeros, amount)
             else case quota_loop amount totalw weights [] [] 0 of
               (out, rems, None) \<Rightarrow> (out, amount)
             | (out, rems, Some allocated) \<Rightarrow>
                 if allocated < amount
                 then (hand_out (take (unat (amount - allocated)) (remainder_order rems)) out, 0)
                 else (out, 0))"

section \<open>Attribution of an entry\<close>

definition kResidualAccountValue :: u64 where
  "kResidualAccountValue = 18446744073709551615"

record AttributionShare =
  as_account :: AccountId
  as_physical :: DimTotals
  as_avoided :: DimTotals
  as_stranded :: DimTotals

record AttributionResult =
  ar_shares :: "AttributionShare list"
  ar_residual :: DimTotals
  ar_invalid :: bool

text \<open>The beneficiaries of an entry: its shared participants, else its own account, else nobody.\<close>

definition attribution_participants :: "LedgerEntry \<Rightarrow> (AccountId \<times> u64) list" where
  "attribution_participants e =
     (case e_shared e of
        Some s \<Rightarrow>
          if sh_participants s \<noteq> [] then map (\<lambda>p. (sp_account p, sp_weight p)) (sh_participants s)
          else if id_valid (e_account e) then [(e_account e, 1)] else []
      | None \<Rightarrow> if id_valid (e_account e) then [(e_account e, 1)] else [])"

text \<open>
  The local lambda \<open>distribute_into\<close> for one field of the shares: the field of every participant,
  and the residual of that field. Each field is distributed once, onto zero-initialised cells, so
  the result is given as a value instead of an update.
\<close>

definition distribute_into :: "u64 list \<Rightarrow> ResourceUsage option \<Rightarrow> DimTotals list \<times> DimTotals" where
  "distribute_into weights src =
     (case src of
        None \<Rightarrow> (replicate (length weights) zero_totals, zero_totals)
      | Some u \<Rightarrow>
          if weights = [] then ([], u)
          else (map (\<lambda>i d. fst (distribute_dim (u d) weights) ! i) [0..<length weights],
                \<lambda>d. snd (distribute_dim (u d) weights)))"

definition compute_attribution :: "LedgerEntry \<Rightarrow> AttributionResult" where
  "compute_attribution e =
     (let participants = attribution_participants e;
          weights = map snd participants;
          (physical, residual_physical) = distribute_into weights (Some (e_usage e));
          (avoided, residual_avoided) = distribute_into weights (e_avoided_work e);
          (stranded, residual_stranded) = distribute_into weights (e_stranded_capacity e);
          shares = map (\<lambda>i. \<lparr>as_account = fst (participants ! i), as_physical = physical ! i,
                             as_avoided = avoided ! i, as_stranded = stranded ! i\<rparr>)
                     [0..<length participants];
          any = list_ex (\<lambda>d. residual_physical d \<noteq> 0 \<or> residual_avoided d \<noteq> 0 \<or> residual_stranded d \<noteq> 0) dims
      in \<lparr>ar_shares =
            (if any
             then shares @ [\<lparr>as_account = Identity kResidualAccountValue,
                             as_physical = residual_physical, as_avoided = residual_avoided,
                             as_stranded = residual_stranded\<rparr>]
             else shares),
          ar_residual = residual_physical, ar_invalid = False\<rparr>)"

section \<open>Correctness of the apportionment\<close>

subsection \<open>The loops\<close>

lemma total_weight_spec:
  "total_weight t ws = (if unat t + (\<Sum>w \<leftarrow> ws. unat w) < 18446744073709551616
     then Some (t + sum_list ws) else None)"
proof (induction ws arbitrary: t)
  case Nil
  then show ?case by simp
next
  case (Cons w ws)
  show ?case
  proof (cases "checked_add t w")
    case None
    then have "\<not> unat t + unat w + (\<Sum>w \<leftarrow> ws. unat w) < 18446744073709551616"
      by (simp add: checked_add_None_iff)
    with None show ?thesis by (simp add: add.assoc)
  next
    case (Some t')
    then have "unat t' = unat t + unat w" by (simp add: checked_add_Some_iff)
    moreover from Some have "t' = t + w" by (simp add: checked_add_def split: if_splits)
    ultimately show ?thesis
      using Some Cons.IH [of t'] by (simp add: add.assoc)
  qed
qed

lemma unat_sum_list:
  "(\<Sum>w \<leftarrow> ws. unat w) < 18446744073709551616 \<Longrightarrow> unat (sum_list (ws :: u64 list)) = (\<Sum>w \<leftarrow> ws. unat w)"
  by (induction ws) (simp_all add: unat_add_u64)

text \<open>The exact proportional quota of a weight and its remainder, over the naturals.\<close>

abbreviation quota :: "u64 \<Rightarrow> u64 list \<Rightarrow> u64 \<Rightarrow> nat" where
  "quota amount ws w \<equiv> unat amount * unat w div (\<Sum>v \<leftarrow> ws. unat v)"

abbreviation quota_rem :: "u64 \<Rightarrow> u64 list \<Rightarrow> u64 \<Rightarrow> nat" where
  "quota_rem amount ws w \<equiv> unat amount * unat w mod (\<Sum>v \<leftarrow> ws. unat v)"

lemma quota_loop_spec:
  assumes "unat alloc + (\<Sum>w \<leftarrow> ws. unat (fst (mul_div amount w totalw))) < 18446744073709551616"
  shows "\<exists>a. quota_loop amount totalw ws out rems alloc =
           (out @ map (\<lambda>w. fst (mul_div amount w totalw)) ws,
            rems @ map (\<lambda>w. snd (mul_div amount w totalw)) ws, Some a) \<and>
           unat a = unat alloc + (\<Sum>w \<leftarrow> ws. unat (fst (mul_div amount w totalw)))"
  using assms
proof (induction ws arbitrary: out rems alloc)
  case Nil
  then show ?case by simp
next
  case (Cons w ws)
  let ?q = "fst (mul_div amount w totalw)"
  from Cons.prems have "checked_add alloc ?q \<noteq> None"
    by (simp add: checked_add_None_iff)
  then obtain a where a: "checked_add alloc ?q = Some a" by blast
  then have ua: "unat a = unat alloc + unat ?q" by (simp add: checked_add_Some_iff)
  with Cons.prems Cons.IH [of a "out @ [?q]" "rems @ [snd (mul_div amount w totalw)]"] a
  show ?case by (auto simp: split_beta Let_def add.assoc)
qed

subsection \<open>Handing out the rounding units\<close>

lemma length_hand_out [simp]: "length (hand_out is out) = length out"
  unfolding hand_out_def by (induction "is" arbitrary: out) simp_all

lemma hand_out_nth:
  assumes "distinct is" and "set is \<subseteq> {..<length out}" and "j < length out"
  shows "hand_out is out ! j = out ! j + (if j \<in> set is then 1 else 0)"
  using assms unfolding hand_out_def
proof (induction "is" arbitrary: out)
  case (Cons i "is")
  then show ?case
    using Cons.IH [of "out[i := out ! i + 1]"] by (auto simp: nth_list_update)
qed simp

lemma set_remainder_order [simp]: "set (remainder_order rems) = {..<length rems}"
  by (auto simp: remainder_order_def)

lemma distinct_remainder_order [simp]: "distinct (remainder_order rems)"
  by (simp add: remainder_order_def)

lemma length_remainder_order [simp]: "length (remainder_order rems) = length rems"
  by (simp add: remainder_order_def)

text \<open>The comparator of the source, and that the model's order is its unique sorted sequence.\<close>

definition remainder_before :: "u64 list \<Rightarrow> nat \<Rightarrow> nat \<Rightarrow> bool" where
  "remainder_before rems a b = (if rems ! a \<noteq> rems ! b then rems ! a > rems ! b else a < b)"

lemma sort_key_insort_before:
  "sorted_wrt (remainder_before rems) xs \<Longrightarrow> \<forall>x \<in> set xs. a < x \<Longrightarrow>
   sorted_wrt (remainder_before rems) (insort_key (\<lambda>i. - uint (rems ! i)) a xs)"
  by (induction xs)
    (auto simp: remainder_before_def set_insort_key word_less_def word_uint_eq_iff split: if_splits)

lemma remainder_order_sorted: "sorted_wrt (remainder_before rems) (remainder_order rems)"
proof -
  have "sorted_wrt (remainder_before rems) (sort_key (\<lambda>i. - uint (rems ! i)) [m..<n])" for m n
  proof (induction "n - m" arbitrary: m)
    case (Suc k)
    then have "[m..<n] = m # [Suc m..<n]"
      by (simp add: upt_rec)
    with Suc show ?case
      by (auto intro!: sort_key_insort_before)
  qed simp
  then show ?thesis by (simp add: remainder_order_def)
qed

subsection \<open>Rounding accounts for every unit\<close>

lemma sum_quota_rem:
  "(\<Sum>w \<leftarrow> ws. unat a * unat w div W) * W + (\<Sum>w \<leftarrow> ws. unat a * unat w mod W) =
   unat a * (\<Sum>w \<leftarrow> ws. unat w)"
proof (induction ws)
  case (Cons w ws)
  have "unat a * unat w div W * W + unat a * unat w mod W = unat a * unat w"
    by (rule div_mult_mod_eq)
  with Cons show ?case
    by (simp add: algebra_simps)
qed simp

lemma sum_quota_le:
  assumes "0 < (\<Sum>w \<leftarrow> ws. unat w)"
  shows "(\<Sum>w \<leftarrow> ws. quota a ws w) \<le> unat a"
proof -
  let ?W = "\<Sum>w \<leftarrow> ws. unat w"
  have "(\<Sum>w \<leftarrow> ws. quota a ws w) * ?W \<le> unat a * ?W"
    using sum_quota_rem [of a ?W ws] by linarith
  with assms show ?thesis by simp
qed

text \<open>
  The units left over are fewer than the participants with a nonzero remainder, so each goes to a
  different such participant.
\<close>

lemma leftover_less_nonzero:
  fixes a :: u64
  assumes pos: "0 < (\<Sum>w \<leftarrow> ws. unat w)" and left: "(\<Sum>w \<leftarrow> ws. quota a ws w) < unat a"
  shows "unat a - (\<Sum>w \<leftarrow> ws. quota a ws w) < length (filter (\<lambda>w. quota_rem a ws w \<noteq> 0) ws)"
proof -
  let ?W = "\<Sum>w \<leftarrow> ws. unat w"
  let ?L = "unat a - (\<Sum>w \<leftarrow> ws. quota a ws w)"
  let ?nz = "filter (\<lambda>w. quota_rem a ws w \<noteq> 0) ws"
  have rems: "(\<Sum>w \<leftarrow> ws. quota_rem a ws w) = ?L * ?W"
    using sum_quota_rem [of a ?W ws] left by (simp add: diff_mult_distrib)
  have "(\<Sum>w \<leftarrow> xs. unat a * unat w mod ?W) \<le> length (filter (\<lambda>w. unat a * unat w mod ?W \<noteq> 0) xs) * (?W - 1)" for xs
  proof (induction xs)
    case (Cons x xs)
    have "unat a * unat x mod ?W < ?W" using pos by simp
    with Cons show ?case by auto
  qed simp
  then have "?L * ?W \<le> length ?nz * (?W - 1)"
    using rems by metis
  moreover have "0 < ?L * ?W" using left pos by (intro mult_pos_pos) simp_all
  ultimately have "0 < length ?nz * (?W - 1)" by (rule less_le_trans [rotated])
  then have "0 < length ?nz" by (rule contrapos_pp) (simp add: not_less)
  with pos have "length ?nz * (?W - 1) < length ?nz * ?W" by simp
  with \<open>?L * ?W \<le> length ?nz * (?W - 1)\<close> have "?L * ?W < length ?nz * ?W" by linarith
  then show ?thesis using pos by simp
qed

text \<open>Sorted by decreasing remainder, the zero remainders come last.\<close>

lemma take_remainder_order_nonzero:
  assumes "k \<le> length (filter (\<lambda>r. r \<noteq> 0) rems)" and "i \<in> set (take k (remainder_order rems))"
  shows "rems ! i \<noteq> 0"
proof
  assume zero: "rems ! i = 0"
  let ?o = "remainder_order rems"
  from assms(2) obtain p where p: "p < k" "p < length ?o" "?o ! p = i"
    by (auto simp: in_set_conv_nth)
  have later: "rems ! j = 0" if "j \<in> set (drop p ?o)" for j
  proof -
    from that obtain q where q: "p \<le> q" "q < length ?o" "?o ! q = j"
      by (auto simp: in_set_conv_nth) (metis le_add1 length_drop less_diff_conv add.commute)
    show ?thesis
    proof (cases "p = q")
      case False
      with q p have "remainder_before rems i j"
        using sorted_wrt_nth_less [OF remainder_order_sorted, of p q rems] by simp
      with zero show ?thesis by (auto simp: remainder_before_def split: if_splits)
    qed (use p q zero in simp)
  qed
  have "filter (\<lambda>j. rems ! j \<noteq> 0) ?o =
        filter (\<lambda>j. rems ! j \<noteq> 0) (take p ?o) @ filter (\<lambda>j. rems ! j \<noteq> 0) (drop p ?o)"
    by (metis append_take_drop_id filter_append)
  also have "filter (\<lambda>j. rems ! j \<noteq> 0) (drop p ?o) = []"
    using later by (simp add: filter_empty_conv)
  finally have "length (filter (\<lambda>j. rems ! j \<noteq> 0) ?o) \<le> length (take p ?o)"
    by (simp del: length_take)
  then have "length (filter (\<lambda>j. rems ! j \<noteq> 0) ?o) \<le> p"
    by simp
  moreover have "length (filter (\<lambda>j. rems ! j \<noteq> 0) ?o) = length (filter (\<lambda>r. r \<noteq> 0) rems)"
  proof -
    have "mset ?o = mset [0..<length rems]" by (simp add: remainder_order_def)
    then have "mset (filter (\<lambda>j. rems ! j \<noteq> 0) ?o) = mset (filter (\<lambda>j. rems ! j \<noteq> 0) [0..<length rems])"
      by (simp only: mset_filter)
    then have "length (filter (\<lambda>j. rems ! j \<noteq> 0) ?o) = length (filter (\<lambda>j. rems ! j \<noteq> 0) [0..<length rems])"
      by (rule mset_eq_length)
    also have "\<dots> = length (filter (\<lambda>r. r \<noteq> 0) (map ((!) rems) [0..<length rems]))"
      by (simp add: filter_map o_def)
    finally show ?thesis by (simp add: map_nth)
  qed
  ultimately show False using assms(1) p(1) by linarith
qed

subsection \<open>The specification of \<open>distribute_dim\<close>\<close>

definition splittable :: "u64 \<Rightarrow> u64 list \<Rightarrow> bool" where
  "splittable amount ws \<longleftrightarrow> amount \<noteq> 0 \<and> 0 < (\<Sum>w \<leftarrow> ws. unat w) \<and> (\<Sum>w \<leftarrow> ws. unat w) < 18446744073709551616"

lemma distribute_dim_unsplittable:
  "\<not> splittable amount ws \<Longrightarrow> distribute_dim amount ws = (replicate (length ws) 0, amount)"
  unfolding splittable_def distribute_dim_def Let_def total_weight_spec
  by (auto simp: unat_sum_list unat_eq_zero [symmetric] simp del: unat_eq_zero)

text \<open>The participants that receive one rounding unit above their rounded-down quota.\<close>

definition rounded_up :: "u64 \<Rightarrow> u64 list \<Rightarrow> nat set" where
  "rounded_up amount ws =
     set (take (unat amount - (\<Sum>w \<leftarrow> ws. quota amount ws w))
       (remainder_order (map (\<lambda>w. snd (mul_div amount w (sum_list ws))) ws)))"

lemma unat_totalw: "splittable a ws \<Longrightarrow> unat (sum_list ws) = (\<Sum>w \<leftarrow> ws. unat w)"
  by (simp add: splittable_def unat_sum_list)

lemma totalw_nonzero: "splittable a ws \<Longrightarrow> sum_list ws \<noteq> 0"
  using unat_totalw by (metis splittable_def less_numeral_extra(3) unat_0)

lemma unat_quot:
  assumes "splittable a ws" and "w \<in> set ws"
  shows "unat (fst (mul_div a w (sum_list ws))) = quota a ws w"
proof -
  have "w \<le> sum_list ws"
    using assms by (simp add: word_le_nat_alt unat_totalw member_le_sum_list)
  with assms show ?thesis
    by (simp add: mul_div_quot totalw_nonzero unat_totalw)
qed

lemma unat_rem: "splittable a ws \<Longrightarrow> unat (snd (mul_div a w (sum_list ws))) = quota_rem a ws w"
  by (simp add: mul_div_rem totalw_nonzero unat_totalw)

lemma sum_unat_quot:
  "splittable a ws \<Longrightarrow>
   (\<Sum>w \<leftarrow> ws. unat (fst (mul_div a w (sum_list ws)))) = (\<Sum>w \<leftarrow> ws. quota a ws w)"
  by (intro arg_cong [of _ _ sum_list] map_cong refl unat_quot)

lemma sum_quota_le_amount: "splittable a ws \<Longrightarrow> (\<Sum>w \<leftarrow> ws. quota a ws w) \<le> unat a"
  by (intro sum_quota_le) (simp add: splittable_def)

lemma distribute_dim_eq:
  assumes split: "splittable amount ws"
  shows "distribute_dim amount ws =
     (hand_out (take (unat amount - (\<Sum>w \<leftarrow> ws. quota amount ws w))
        (remainder_order (map (\<lambda>w. snd (mul_div amount w (sum_list ws))) ws)))
        (map (\<lambda>w. fst (mul_div amount w (sum_list ws))) ws), 0)"
proof -
  have le: "(\<Sum>w \<leftarrow> ws. quota amount ws w) \<le> unat amount"
    using split by (rule sum_quota_le_amount)
  have "(\<Sum>w \<leftarrow> ws. unat (fst (mul_div amount w (sum_list ws)))) < 18446744073709551616"
    using sum_unat_quot [OF split] le unat_u64_less [of amount] by linarith
  then obtain a where loop: "quota_loop amount (sum_list ws) ws [] [] 0 =
      (map (\<lambda>w. fst (mul_div amount w (sum_list ws))) ws,
       map (\<lambda>w. snd (mul_div amount w (sum_list ws))) ws, Some a)"
    and a: "unat a = (\<Sum>w \<leftarrow> ws. quota amount ws w)"
    using quota_loop_spec [of 0 amount "sum_list ws" ws "[]" "[]"] sum_unat_quot [OF split] by auto
  have "a \<le> amount"
    using a le by (simp add: word_le_nat_alt)
  then have left: "unat (amount - a) = unat amount - (\<Sum>w \<leftarrow> ws. quota amount ws w)"
    using a by (simp only: unat_sub)
  have guards: "ws \<noteq> []" "amount \<noteq> 0" "total_weight 0 ws = Some (sum_list ws)"
    using split by (auto simp: splittable_def total_weight_spec)
  show ?thesis
  proof (cases "a < amount")
    case True
    with guards totalw_nonzero [OF split] show ?thesis
      by (simp only: distribute_dim_def Let_def loop left simp_thms if_True if_False option.case prod.case)
  next
    case False
    with \<open>a \<le> amount\<close> have "a = amount" by simp
    then have "unat amount - (\<Sum>w \<leftarrow> ws. quota amount ws w) = 0"
      using left by simp
    with False guards totalw_nonzero [OF split] show ?thesis
      by (simp only: distribute_dim_def Let_def loop simp_thms if_True if_False option.case prod.case
          take_0 hand_out_def fold_simps id_apply)
  qed
qed

lemma leftover_less_length:
  assumes "splittable a ws" and "(\<Sum>w \<leftarrow> ws. quota a ws w) < unat a"
  shows "unat a - (\<Sum>w \<leftarrow> ws. quota a ws w) < length ws"
  using leftover_less_nonzero [of ws a] assms length_filter_le [of "\<lambda>w. quota_rem a ws w \<noteq> 0" ws]
  unfolding splittable_def by linarith

lemma card_rounded_up:
  assumes "splittable a ws"
  shows "card (rounded_up a ws) = unat a - (\<Sum>w \<leftarrow> ws. quota a ws w)"
proof (cases "(\<Sum>w \<leftarrow> ws. quota a ws w) < unat a")
  case True
  then have "unat a - (\<Sum>w \<leftarrow> ws. quota a ws w) < length ws"
    by (rule leftover_less_length [OF assms])
  then show ?thesis
    unfolding rounded_up_def by (subst distinct_card) simp_all
qed (simp add: rounded_up_def)

lemma rounded_up_subset: "rounded_up a ws \<subseteq> {..<length ws}"
  unfolding rounded_up_def by (auto dest!: in_set_takeD)

lemma rounded_up_remainder:
  assumes split: "splittable a ws" and up: "i \<in> rounded_up a ws"
  shows "quota_rem a ws (ws ! i) \<noteq> 0"
proof -
  let ?rem = "\<lambda>w. snd (mul_div a w (sum_list ws))"
  have i: "i < length ws" using up rounded_up_subset by auto
  have nz: "?rem w \<noteq> 0 \<longleftrightarrow> quota_rem a ws w \<noteq> 0" for w
    using unat_rem [OF split, of w] by (simp flip: unat_eq_zero)
  have "unat a - (\<Sum>w \<leftarrow> ws. quota a ws w) \<le> length (filter (\<lambda>w. quota_rem a ws w \<noteq> 0) ws)"
  proof (cases "(\<Sum>w \<leftarrow> ws. quota a ws w) < unat a")
    case True
    then show ?thesis
      using leftover_less_nonzero [OF _ True] split unfolding splittable_def by linarith
  qed simp
  also have "\<dots> = length (filter (\<lambda>r. r \<noteq> 0) (map ?rem ws))"
    by (simp add: filter_map o_def nz)
  finally have "map ?rem ws ! i \<noteq> 0"
    using up unfolding rounded_up_def by (rule take_remainder_order_nonzero)
  then show ?thesis
    using i nz by simp
qed

lemma distribute_dim_nth:
  assumes split: "splittable a ws" and i: "i < length ws"
  shows "unat (fst (distribute_dim a ws) ! i) = quota a ws (ws ! i) + of_bool (i \<in> rounded_up a ws)"
proof -
  let ?q = "fst (mul_div a (ws ! i) (sum_list ws))"
  have q: "unat ?q = quota a ws (ws ! i)"
    using i by (intro unat_quot [OF split]) simp
  have nth: "fst (distribute_dim a ws) ! i = ?q + (if i \<in> rounded_up a ws then 1 else 0)"
    using i unfolding distribute_dim_eq [OF split] rounded_up_def fst_conv
    by (subst hand_out_nth) (auto dest!: in_set_takeD)
  show ?thesis
  proof (cases "i \<in> rounded_up a ws")
    case True
    then have "0 < card (rounded_up a ws)"
      using rounded_up_subset by (metis card_gt_0_iff empty_iff finite_lessThan finite_subset)
    then have "(\<Sum>w \<leftarrow> ws. quota a ws w) < unat a"
      by (simp add: card_rounded_up [OF split])
    moreover have "quota a ws (ws ! i) \<le> (\<Sum>w \<leftarrow> ws. quota a ws w)"
      using i by (intro member_le_sum_list) simp_all
    ultimately have "unat ?q + 1 < 18446744073709551616"
      using q unat_u64_less [of a] by linarith
    then have "unat (?q + 1) = unat ?q + 1"
      using unat_add_u64 [of ?q 1] by simp
    with True nth q show ?thesis by simp
  qed (use nth q in simp)
qed

lemma rounded_up_first:
  assumes split: "splittable a ws" and i: "i \<in> rounded_up a ws" and j: "j < length ws" "j \<notin> rounded_up a ws"
  shows "quota_rem a ws (ws ! j) < quota_rem a ws (ws ! i) \<or>
    quota_rem a ws (ws ! j) = quota_rem a ws (ws ! i) \<and> i < j"
proof -
  let ?rems = "map (\<lambda>w. snd (mul_div a w (sum_list ws))) ws"
  let ?n = "unat a - (\<Sum>w \<leftarrow> ws. quota a ws w)"
  let ?order = "remainder_order ?rems"
  have "j \<in> set ?order" using j by simp
  then have "j \<in> set (drop ?n ?order)"
    using j(2) unfolding rounded_up_def by (metis UnE append_take_drop_id set_append)
  moreover have "sorted_wrt (remainder_before ?rems) (take ?n ?order @ drop ?n ?order)"
    by (simp add: remainder_order_sorted)
  ultimately have "remainder_before ?rems i j"
    using i unfolding rounded_up_def sorted_wrt_append by blast
  moreover have "i < length ws" using i rounded_up_subset by blast
  ultimately show ?thesis
    using j(1) unat_rem [OF split]
    by (auto simp: remainder_before_def word_less_nat_alt word_unat_eq_iff split: if_splits)
qed

lemma length_distribute_dim [simp]: "length (fst (distribute_dim a ws)) = length ws"
  by (cases "splittable a ws") (simp_all add: distribute_dim_eq distribute_dim_unsplittable)

lemma distribute_dim_residual: "snd (distribute_dim a ws) = (if splittable a ws then 0 else a)"
  by (simp add: distribute_dim_eq distribute_dim_unsplittable)

lemma distribute_dim_sum:
  "(\<Sum>x \<leftarrow> fst (distribute_dim a ws). unat x) + unat (snd (distribute_dim a ws)) = unat a"
proof (cases "splittable a ws")
  case True
  let ?n = "length ws"
  let ?out = "fst (distribute_dim a ws)"
  have "(\<Sum>x \<leftarrow> ?out. unat x) = (\<Sum>i < ?n. unat (?out ! i))"
    by (simp add: sum_list_sum_nth atLeast0LessThan)
  also have "\<dots> = (\<Sum>i < ?n. quota a ws (ws ! i) + of_bool (i \<in> rounded_up a ws))"
    by (intro sum.cong refl distribute_dim_nth [OF True]) simp
  also have "\<dots> = (\<Sum>w \<leftarrow> ws. quota a ws w) + card (rounded_up a ws)"
    using rounded_up_subset [of a ws]
    by (simp add: sum.distrib sum_list_sum_nth atLeast0LessThan sum_of_bool_eq Int_absorb1)
  finally show ?thesis
    using sum_quota_le_amount [OF True] True
    by (simp add: card_rounded_up distribute_dim_residual)
qed (simp add: distribute_dim_unsplittable sum_list_replicate)

section \<open>Exactness of the attribution\<close>

text \<open>
  What the attribution of an entry needs from a way of splitting one counter: one cell per weight,
  and that cells and residual add up to the amount. Splitting every dimension this way then loses
  and invents nothing in any dimension.
\<close>

locale exact_split =
  fixes split_dim :: "u64 \<Rightarrow> u64 list \<Rightarrow> u64 list \<times> u64"
  assumes split_length: "length (fst (split_dim a ws)) = length ws"
    and split_exact: "(\<Sum>x \<leftarrow> fst (split_dim a ws). unat x) + unat (snd (split_dim a ws)) = unat a"
begin

lemma columns_exact:
  fixes u :: "ResourceDimension \<Rightarrow> u64"
  shows "(\<Sum>f \<leftarrow> map (\<lambda>i d. fst (split_dim (u d) ws) ! i) [0..<length ws]. unat (f d)) +
   unat (snd (split_dim (u d) ws)) = unat (u d)"
proof -
  have "map (\<lambda>i. unat (fst (split_dim (u d) ws) ! i)) [0..<length ws] = map unat (fst (split_dim (u d) ws))"
    by (rule nth_equalityI) (simp_all add: split_length)
  then show ?thesis
    using split_exact [of "u d" ws] by (simp add: o_def)
qed

lemma cell_le: "i < length ws \<Longrightarrow> unat (fst (split_dim a ws) ! i) \<le> unat a"
proof -
  assume "i < length ws"
  then have "unat (fst (split_dim a ws) ! i) \<in> set (map unat (fst (split_dim a ws)))"
    by (simp add: split_length)
  then have "unat (fst (split_dim a ws) ! i) \<le> (\<Sum>x \<leftarrow> fst (split_dim a ws). unat x)"
    by (rule member_le_sum_list) simp
  then show ?thesis
    using split_exact [of a ws] by linarith
qed

end

interpretation largest_remainder: exact_split distribute_dim
  by unfold_locales (simp_all add: distribute_dim_sum)

abbreviation usage_or_zero :: "ResourceUsage option \<Rightarrow> DimTotals" where
  "usage_or_zero src \<equiv> (case src of None \<Rightarrow> zero_totals | Some u \<Rightarrow> u)"

lemma length_distribute_into [simp]: "length (fst (distribute_into ws src)) = length ws"
  by (simp add: distribute_into_def split: option.splits)

lemma distribute_into_exact:
  "(\<Sum>f \<leftarrow> fst (distribute_into ws src). unat (f d)) + unat (snd (distribute_into ws src) d) =
   unat (usage_or_zero src d)"
proof (cases src)
  case (Some u)
  then show ?thesis
    using largest_remainder.columns_exact [where u = u and ws = ws and d = d] by (simp add: distribute_into_def)
qed (simp add: distribute_into_def sum_list_replicate)

text \<open>The shares of an entry as the sources build them, with the residual share kept optional.\<close>

lemma shares_sum:
  fixes fld :: "AttributionShare \<Rightarrow> DimTotals" and src :: "ResourceUsage option"
  assumes "length cols = length ps" and "\<And>i. i < length ps \<Longrightarrow> fld (mk i) = cols ! i"
  shows "(\<Sum>s \<leftarrow> map mk [0..<length ps]. unat (fld s d)) = (\<Sum>f \<leftarrow> cols. unat (f d))"
proof -
  have "map (\<lambda>i. unat (fld (mk i) d)) [0..<length ps] = map (\<lambda>f. unat (f d)) cols"
    using assms by (intro nth_equalityI) simp_all
  then show ?thesis by (simp add: o_def)
qed

lemma no_residual:
  "\<not> list_ex (\<lambda>d. r1 d \<noteq> 0 \<or> r2 d \<noteq> 0 \<or> r3 d \<noteq> 0) dims \<longleftrightarrow>
   r1 = zero_totals \<and> r2 = zero_totals \<and> r3 = (zero_totals :: DimTotals)"
  by (auto simp: list_ex_iff fun_eq_iff)

lemma compute_attribution_column:
  fixes fld :: "AttributionShare \<Rightarrow> DimTotals"
  assumes "distribute_into (map snd (attribution_participants e)) (Some (e_usage e)) = (p, rp)"
    and "distribute_into (map snd (attribution_participants e)) (e_avoided_work e) = (a, ra)"
    and "distribute_into (map snd (attribution_participants e)) (e_stranded_capacity e) = (s, rs)"
    and "\<And>acc p a s. fld \<lparr>as_account = acc, as_physical = p, as_avoided = a, as_stranded = s\<rparr> = pick p a s"
    and "pick \<in> {\<lambda>p a s. p, \<lambda>p a s. a, \<lambda>p a s. s}"
    and "distribute_into (map snd (attribution_participants e)) src = (c, r)"
    and "\<And>i. i < length (attribution_participants e) \<Longrightarrow> pick (p ! i) (a ! i) (s ! i) = c ! i"
    and "pick rp ra rs = r"
  shows "(\<Sum>sh \<leftarrow> ar_shares (compute_attribution e). unat (fld sh d)) = unat (usage_or_zero src d)"
proof -
  let ?ps = "attribution_participants e"
  let ?mk = "\<lambda>i. \<lparr>as_account = fst (?ps ! i), as_physical = p ! i, as_avoided = a ! i, as_stranded = s ! i\<rparr>"
  let ?any = "list_ex (\<lambda>d. rp d \<noteq> 0 \<or> ra d \<noteq> 0 \<or> rs d \<noteq> 0) dims"
  have "length c = length ?ps"
    using assms(6) length_distribute_into by (metis fst_conv length_map)
  then have cols: "(\<Sum>sh \<leftarrow> map ?mk [0..<length ?ps]. unat (fld sh d)) = (\<Sum>f \<leftarrow> c. unat (f d))"
    using assms(4,7) by (intro shares_sum) simp_all
  have "unat (r d) = (if ?any then unat (pick rp ra rs d) else 0)"
    using assms(5,8) no_residual [of rp ra rs] by auto
  moreover have "(\<Sum>f \<leftarrow> c. unat (f d)) + unat (r d) = unat (usage_or_zero src d)"
    using distribute_into_exact [where ws = "map snd ?ps" and src = src and d = d] assms(6) by simp
  ultimately show ?thesis
    using cols assms(1-4) by (cases ?any) (simp_all add: compute_attribution_def Let_def del: map_map)
qed

lemma compute_attribution_sum:
  "(\<Sum>s \<leftarrow> ar_shares (compute_attribution e). unat (as_physical s d)) = unat (e_usage e d)"
  "(\<Sum>s \<leftarrow> ar_shares (compute_attribution e). unat (as_avoided s d)) = unat (usage_or_zero (e_avoided_work e) d)"
  "(\<Sum>s \<leftarrow> ar_shares (compute_attribution e). unat (as_stranded s d)) = unat (usage_or_zero (e_stranded_capacity e) d)"
proof -
  obtain p rp a ra s rs where
    eqs: "distribute_into (map snd (attribution_participants e)) (Some (e_usage e)) = (p, rp)"
      "distribute_into (map snd (attribution_participants e)) (e_avoided_work e) = (a, ra)"
      "distribute_into (map snd (attribution_participants e)) (e_stranded_capacity e) = (s, rs)"
    by (metis surj_pair)
  show "(\<Sum>s \<leftarrow> ar_shares (compute_attribution e). unat (as_physical s d)) = unat (e_usage e d)"
    using compute_attribution_column [OF eqs, of as_physical "\<lambda>p a s. p" "Some (e_usage e)" p rp] eqs
    by simp
  show "(\<Sum>s \<leftarrow> ar_shares (compute_attribution e). unat (as_avoided s d)) = unat (usage_or_zero (e_avoided_work e) d)"
    using compute_attribution_column [OF eqs, of as_avoided "\<lambda>p a s. a" "e_avoided_work e" a ra] eqs
    by simp
  show "(\<Sum>s \<leftarrow> ar_shares (compute_attribution e). unat (as_stranded s d)) = unat (usage_or_zero (e_stranded_capacity e) d)"
    using compute_attribution_column [OF eqs, of as_stranded "\<lambda>p a s. s" "e_stranded_capacity e" s rs] eqs
    by simp
qed

text \<open>An entry with one account and no sharing is attributed to it as it is.\<close>

lemma single_account_shares:
  assumes "e_shared e = None" and "id_valid (e_account e)"
  obtains sh where "ar_shares (compute_attribution e) = [sh]" and "as_account sh = e_account e"
    and "as_physical sh = e_usage e" and "as_avoided sh = usage_or_zero (e_avoided_work e)"
    and "as_stranded sh = usage_or_zero (e_stranded_capacity e)"
proof -
  have one: "distribute_dim x [1] = ([x], 0)" for x
  proof -
    have "x \<noteq> 0 \<Longrightarrow> splittable x [1]" by (simp add: splittable_def)
    then have "snd (distribute_dim x [1]) = 0"
      by (auto simp: distribute_dim_residual)
    moreover obtain y where "fst (distribute_dim x [1]) = [y]"
      using length_distribute_dim [of x "[1]"] by (cases "fst (distribute_dim x [1])") simp_all
    ultimately show ?thesis
      using distribute_dim_sum [of x "[1]"] by (cases "distribute_dim x [1]") (simp add: word_unat_eq_iff)
  qed
  have into: "distribute_into [1] src = ([usage_or_zero src], zero_totals)" for src
    by (simp add: distribute_into_def one split: option.splits)
  have ps: "attribution_participants e = [(e_account e, 1)]"
    using assms by (simp add: attribution_participants_def)
  show ?thesis
    by (rule that) (auto simp: compute_attribution_def ps into list_ex_iff)
qed

end
