(* ===== verification/EL_Ledger.thy ===== *)
theory EL_Ledger
  imports EL_Attribution
begin

text \<open>
  The class \<open>EfficiencyLedger\<close> of \<^verbatim>\<open>ledger.hpp\<close> and \<^verbatim>\<open>ledger.cpp\<close>: its state, the
  authority setters, the fences and gates of \<open>append\<close>, the accounting of shares, reclassification,
  the queries and \<open>reconcile\<close>. Every public method takes the ledger's mutex for its whole body, so
  a method is one function from state to state; the two places where the sources read or write
  without the lock are described in the header of the root theory.
\<close>

section \<open>State\<close>

record AccountAggregate =
  ag_physical :: DimTotals
  ag_useful :: DimTotals
  ag_overhead :: DimTotals
  ag_waste :: DimTotals
  ag_unknown :: DimTotals
  ag_avoided :: DimTotals
  ag_stranded :: DimTotals

definition AccountAggregate_zero :: AccountAggregate where
  "AccountAggregate_zero =
     \<lparr>ag_physical = zero_totals, ag_useful = zero_totals, ag_overhead = zero_totals,
      ag_waste = zero_totals, ag_unknown = zero_totals, ag_avoided = zero_totals,
      ag_stranded = zero_totals\<rparr>"

record AttemptState =
  st_outcome :: AttemptOutcome
  st_generation :: AttemptGeneration
  st_last_publication :: PublicationId
  st_authoritative :: bool

definition AttemptState_default :: AttemptState where
  "AttemptState_default =
     \<lparr>st_outcome = AttemptOutcome_kPending, st_generation = id_invalid,
      st_last_publication = id_invalid, st_authoritative = False\<rparr>"

text \<open>
  \<open>accounts_\<close> is an association list in insertion order; what the C++ program sees of it is
  \<open>map_of\<close> (lookups) and its traversal in some \<open>hash_order\<close>. The containers that are never
  traversed are a map and sets.
\<close>

type_synonym Accounts = "(AccountId \<times> AccountAggregate) list"

record EfficiencyLedger =
  l_epoch :: CoordinatorEpoch
  l_ledger_id :: LedgerId
  l_ledger_generation :: LedgerGeneration
  l_account_generation :: AccountGeneration
  l_shutting_down :: bool
  l_epoch_advanced :: bool
  l_replaying :: bool
  l_live_workers :: "WorkerBootId set"
  l_history :: "LedgerEntry list"
  l_index :: "AccountingEntryId \<rightharpoonup> nat"
  l_attempts :: "AttemptId \<rightharpoonup> AttemptState"
  l_transfer_completed :: "TransferId set"
  l_reservation_released :: "ReservationId set"
  l_allocation_released :: "AllocationId set"
  l_recovery_completed :: "RecoveryId set"
  l_accounts :: Accounts

definition kDefaultLedgerId :: LedgerId where
  "kDefaultLedgerId = Identity 1"

definition EfficiencyLedger_new :: "LedgerId \<Rightarrow> EfficiencyLedger" where
  "EfficiencyLedger_new lid =
     \<lparr>l_epoch = Identity 1, l_ledger_id = lid, l_ledger_generation = Identity 1,
      l_account_generation = Identity 1, l_shutting_down = False, l_epoch_advanced = False,
      l_replaying = False, l_live_workers = {}, l_history = [], l_index = Map.empty,
      l_attempts = Map.empty, l_transfer_completed = {}, l_reservation_released = {},
      l_allocation_released = {}, l_recovery_completed = {}, l_accounts = []\<rparr>"

section \<open>Authority state\<close>

definition advance_epoch :: "EfficiencyLedger \<Rightarrow> EfficiencyLedger" where
  "advance_epoch l = l\<lparr>l_epoch := Identity (id_value (l_epoch l) + 1), l_epoch_advanced := True\<rparr>"

definition set_epoch :: "CoordinatorEpoch \<Rightarrow> EfficiencyLedger \<Rightarrow> EfficiencyLedger" where
  "set_epoch epoch l = l\<lparr>l_epoch := epoch\<rparr>"

definition set_ledger_generation :: "LedgerGeneration \<Rightarrow> EfficiencyLedger \<Rightarrow> EfficiencyLedger" where
  "set_ledger_generation gen l = l\<lparr>l_ledger_generation := gen\<rparr>"

definition set_account_generation :: "AccountGeneration \<Rightarrow> EfficiencyLedger \<Rightarrow> EfficiencyLedger" where
  "set_account_generation gen l = l\<lparr>l_account_generation := gen\<rparr>"

definition set_system_generation ::
    "LedgerGeneration \<Rightarrow> AccountGeneration \<Rightarrow> EfficiencyLedger \<Rightarrow> EfficiencyLedger" where
  "set_system_generation ledger_gen account_gen l =
     l\<lparr>l_ledger_generation := ledger_gen, l_account_generation := account_gen\<rparr>"

definition register_worker :: "WorkerBootId \<Rightarrow> EfficiencyLedger \<Rightarrow> EfficiencyLedger" where
  "register_worker boot l =
     (if id_valid boot then l\<lparr>l_live_workers := insert boot (l_live_workers l)\<rparr> else l)"

definition unregister_worker :: "WorkerBootId \<Rightarrow> EfficiencyLedger \<Rightarrow> EfficiencyLedger" where
  "unregister_worker boot l = l\<lparr>l_live_workers := l_live_workers l - {boot}\<rparr>"

definition has_worker :: "WorkerBootId \<Rightarrow> EfficiencyLedger \<Rightarrow> bool" where
  "has_worker boot l \<longleftrightarrow> boot \<in> l_live_workers l"

definition set_shutting_down :: "EfficiencyLedger \<Rightarrow> EfficiencyLedger" where
  "set_shutting_down l = l\<lparr>l_shutting_down := True\<rparr>"

section \<open>Fences and gates\<close>

definition is_consumption_class :: "EfficiencyClass \<Rightarrow> bool" where
  "is_consumption_class c \<longleftrightarrow>
     c = EfficiencyClass_kUseful \<or> c = EfficiencyClass_kNecessaryOverhead \<or>
     c = EfficiencyClass_kAvoidableWaste \<or> c = EfficiencyClass_kUnknown"

definition is_authoritative_use :: "LedgerEntry \<Rightarrow> bool" where
  "is_authoritative_use e \<longleftrightarrow>
     id_valid (f_publication (e_fences e)) \<or>
     e_event e \<in> {EventType_kCacheHit, EventType_kStateReused, EventType_kCheckpointRestored}"

definition is_lifecycle_completion :: "LedgerEntry \<Rightarrow> bool" where
  "is_lifecycle_completion e \<longleftrightarrow>
     e_event e \<in> {EventType_kTransferCompleted, EventType_kReservationReleased,
                  EventType_kAllocationReleased, EventType_kRecoveryCompleted,
                  EventType_kRecoveryFailed}"

text \<open>The completion signals that a terminal attempt refuses.\<close>

definition is_completion_signal :: "LedgerEntry \<Rightarrow> bool" where
  "is_completion_signal e \<longleftrightarrow>
     e_event e \<in> {EventType_kExecutionCompleted, EventType_kOutputPublished,
                  EventType_kOutputRejected, EventType_kWorkAccepted, EventType_kWorkRejected,
                  EventType_kCommitAuthorized, EventType_kCommitRejected}"

definition check_attempt_authority :: "AttemptState \<Rightarrow> LedgerEntry \<Rightarrow> Status" where
  "check_attempt_authority st e =
     (if id_valid (st_generation st) \<and> id_valid (at_generation (e_attempt e)) \<and>
         st_generation st \<noteq> at_generation (e_attempt e)
      then Status ErrorCode_kStaleAuthority ''stale attempt generation''
      else if st_outcome st \<noteq> AttemptOutcome_kPending \<and> has_outcome e
      then Status ErrorCode_kStaleAuthority ''attempt already terminal''
      else if st_outcome st \<noteq> AttemptOutcome_kPending \<and> is_completion_signal e
      then Status ErrorCode_kStaleAuthority ''stale completion after terminal attempt''
      else if id_valid (f_publication (e_fences e)) \<and> id_valid (st_last_publication st) \<and>
         f_publication (e_fences e) \<le> st_last_publication st
      then Status ErrorCode_kStaleAuthority ''stale/duplicate publication''
      else Status_success)"

definition check_authority :: "EfficiencyLedger \<Rightarrow> LedgerEntry \<Rightarrow> Status" where
  "check_authority l e =
     (if id_valid (f_epoch (e_fences e)) \<and> f_epoch (e_fences e) \<noteq> l_epoch l
      then Status ErrorCode_kStaleAuthority ''stale coordinator epoch''
      else if id_valid (f_ledger_generation (e_fences e)) \<and>
              f_ledger_generation (e_fences e) \<noteq> l_ledger_generation l
      then Status ErrorCode_kStaleAuthority ''stale ledger generation''
      else if id_valid (f_account_generation (e_fences e)) \<and>
              f_account_generation (e_fences e) \<noteq> l_account_generation l
      then Status ErrorCode_kStaleAuthority ''stale account generation''
      else if \<not> l_replaying l \<and> id_valid (f_worker_boot (e_fences e)) \<and>
              f_worker_boot (e_fences e) \<notin> l_live_workers l
      then Status ErrorCode_kStaleAuthority ''stale worker boot id''
      else if has_attempt e
      then case l_attempts l (at_id (e_attempt e)) of
             None \<Rightarrow> Status_success
           | Some st \<Rightarrow> check_attempt_authority st e
      else Status_success)"

definition check_classification_consistency :: "LedgerEntry \<Rightarrow> Status" where
  "check_classification_consistency e =
     (let c = e_classification e
      in if c = EfficiencyClass_kAvoidedWork then
           if \<not> ResourceUsage_is_zero (e_usage e)
           then Status ErrorCode_kInvalidInput ''avoided work must not consume physical''
           else if e_avoided_work e = None
           then Status ErrorCode_kInvalidInput ''avoided work requires avoided-work usage evidence''
           else Status_success
         else if c = EfficiencyClass_kStrandedCapacity then
           if \<not> ResourceUsage_is_zero (e_usage e)
           then Status ErrorCode_kInvalidInput ''stranded capacity must not consume physical''
           else if e_stranded_capacity e = None
           then Status ErrorCode_kInvalidInput ''stranded capacity requires capacity evidence''
           else Status_success
         else if is_consumption_class c then
           if e_avoided_work e \<noteq> None \<or> e_stranded_capacity e \<noteq> None
           then Status ErrorCode_kInvalidInput ''consumption class entries must not carry avoided/stranded usage''
           else if c = EfficiencyClass_kUseful \<and> \<not> is_authoritative_use e
           then Status ErrorCode_kNotAuthoritative ''USEFUL classification requires authoritative publication or valid reuse''
           else Status_success
         else Status_success)"

section \<open>Accounting the shares of an entry\<close>

text \<open>One checked addition to one cell of an aggregate, with the source's error on overflow.\<close>

definition bump ::
    "(AccountAggregate \<Rightarrow> DimTotals) \<Rightarrow> ((DimTotals \<Rightarrow> DimTotals) \<Rightarrow> AccountAggregate \<Rightarrow> AccountAggregate) \<Rightarrow>
     string \<Rightarrow> ResourceDimension \<Rightarrow> u64 \<Rightarrow> AccountAggregate \<Rightarrow> Status option \<times> AccountAggregate" where
  "bump get upd msg d v agg =
     (case checked_add (get agg d) v of
        None \<Rightarrow> (Some (Status ErrorCode_kOverflow msg), agg)
      | Some nv \<Rightarrow> (None, upd (\<lambda>t. t(d := nv)) agg))"

text \<open>
  The switch over consumption classes: the bucket a class is accounted in, with the message of its
  overflow. The classes without a bucket fall through the switch.
\<close>

definition class_bucket ::
    "EfficiencyClass \<Rightarrow>
     ((AccountAggregate \<Rightarrow> DimTotals) \<times> ((DimTotals \<Rightarrow> DimTotals) \<Rightarrow> AccountAggregate \<Rightarrow> AccountAggregate) \<times> string) option" where
  "class_bucket c =
     (if c = EfficiencyClass_kUseful then Some (ag_useful, ag_useful_update, ''useful overflow'')
      else if c = EfficiencyClass_kNecessaryOverhead then Some (ag_overhead, ag_overhead_update, ''overhead overflow'')
      else if c = EfficiencyClass_kAvoidableWaste then Some (ag_waste, ag_waste_update, ''waste overflow'')
      else if c = EfficiencyClass_kUnknown then Some (ag_unknown, ag_unknown_update, ''unknown overflow'')
      else None)"

definition add_share :: "EfficiencyClass \<Rightarrow> AttributionShare \<Rightarrow> AccountAggregate \<Rightarrow> Status option \<times> AccountAggregate" where
  "add_share c sh =
     stmts
       [for_each (\<lambda>d. stmts
          [bump ag_physical ag_physical_update ''physical overflow'' d (as_physical sh d),
           bump ag_avoided ag_avoided_update ''avoided overflow'' d (as_avoided sh d),
           bump ag_stranded ag_stranded_update ''stranded overflow'' d (as_stranded sh d)]) dims,
        (case class_bucket c of
           None \<Rightarrow> \<lambda>agg. (None, agg)
         | Some (get, upd, msg) \<Rightarrow> for_each (\<lambda>d. bump get upd msg d (as_physical sh d)) dims)]"

definition pending_share :: "EfficiencyClass \<Rightarrow> AttributionShare \<Rightarrow> Accounts \<Rightarrow> Status option \<times> Accounts" where
  "pending_share c sh pending =
     (let agg = (case map_of pending (as_account sh) of None \<Rightarrow> AccountAggregate_zero | Some a \<Rightarrow> a)
      in case add_share c sh agg of (r, agg') \<Rightarrow> (r, AList.update (as_account sh) agg' pending))"

definition merge_aggregate :: "AccountAggregate \<Rightarrow> AccountAggregate \<Rightarrow> Status option \<times> AccountAggregate" where
  "merge_aggregate agg =
     for_each (\<lambda>d. stmts
       [bump ag_physical ag_physical_update ''physical overflow'' d (ag_physical agg d),
        bump ag_avoided ag_avoided_update ''avoided overflow'' d (ag_avoided agg d),
        bump ag_stranded ag_stranded_update ''stranded overflow'' d (ag_stranded agg d),
        bump ag_useful ag_useful_update ''useful overflow'' d (ag_useful agg d),
        bump ag_overhead ag_overhead_update ''overhead overflow'' d (ag_overhead agg d),
        bump ag_waste ag_waste_update ''waste overflow'' d (ag_waste agg d),
        bump ag_unknown ag_unknown_update ''unknown overflow'' d (ag_unknown agg d)]) dims"

definition merge_account :: "AccountId \<times> AccountAggregate \<Rightarrow> Accounts \<Rightarrow> Status option \<times> Accounts" where
  "merge_account p accounts =
     (case map_of accounts (fst p) of
        None \<Rightarrow> (None, AList.update (fst p) (snd p) accounts)
      | Some dst \<Rightarrow> (case merge_aggregate (snd p) dst of (r, dst') \<Rightarrow> (r, AList.update (fst p) dst' accounts)))"

text \<open>The traversal of an unordered map from account to aggregate.\<close>

definition in_order :: "AccountId hash_order \<Rightarrow> Accounts \<Rightarrow> Accounts" where
  "in_order ho m = map (\<lambda>k. (k, the (map_of m k))) (traverse ho (map fst m))"

definition apply_attribution ::
    "AccountId hash_order \<Rightarrow> LedgerEntry \<Rightarrow> AttributionResult \<Rightarrow> EfficiencyLedger \<Rightarrow> Status \<times> EfficiencyLedger" where
  "apply_attribution ho e attr l =
     (case for_each (pending_share (e_classification e)) (ar_shares attr) [] of
        (Some st, _) \<Rightarrow> (st, l)
      | (None, pending) \<Rightarrow>
          (case for_each merge_account (in_order ho pending) (l_accounts l) of
             (Some st, accounts) \<Rightarrow> (st, l\<lparr>l_accounts := accounts\<rparr>)
           | (None, accounts) \<Rightarrow> (Status_success, l\<lparr>l_accounts := accounts\<rparr>)))"

section \<open>Reclassification\<close>

text \<open>
  \<open>move_out\<close> and \<open>move_in\<close>: a loop over the cells of one bucket that stops at the first
  cell that would under- or overflow, leaving the cells before it changed.
\<close>

definition move_cells ::
    "(u64 \<Rightarrow> u64 \<Rightarrow> u64 option) \<Rightarrow> (AccountAggregate \<Rightarrow> DimTotals) \<Rightarrow>
     ((DimTotals \<Rightarrow> DimTotals) \<Rightarrow> AccountAggregate \<Rightarrow> AccountAggregate) \<Rightarrow> string \<Rightarrow> DimTotals \<Rightarrow>
     AccountAggregate \<Rightarrow> Status option \<times> AccountAggregate" where
  "move_cells step get upd msg amounts =
     for_each (\<lambda>d agg. case step (get agg d) (amounts d) of
         None \<Rightarrow> (Some (Status ErrorCode_kReconciliationFailure msg), agg)
       | Some nv \<Rightarrow> (None, upd (\<lambda>t. t(d := nv)) agg)) dims"

definition move_bucket ::
    "(u64 \<Rightarrow> u64 \<Rightarrow> u64 option) \<Rightarrow> EfficiencyClass \<Rightarrow> string \<Rightarrow> DimTotals \<Rightarrow> AccountAggregate \<Rightarrow>
     Status option \<times> AccountAggregate" where
  "move_bucket step c msg amounts agg =
     (case class_bucket c of
        None \<Rightarrow> (Some (Status ErrorCode_kReconciliationFailure msg), agg)
      | Some (get, upd, _) \<Rightarrow> move_cells step get upd msg amounts agg)"

definition reclassify_share ::
    "EfficiencyClass \<Rightarrow> EfficiencyClass \<Rightarrow> AttributionShare \<Rightarrow> Accounts \<Rightarrow> Status option \<times> Accounts" where
  "reclassify_share old_cls new_cls sh accounts =
     (case map_of accounts (as_account sh) of
        None \<Rightarrow> (None, accounts)
      | Some agg \<Rightarrow>
          (case stmts [move_bucket checked_sub old_cls ''reclassify underflow'' (as_physical sh),
                       move_bucket checked_add new_cls ''reclassify overflow'' (as_physical sh)] agg of
             (r, agg') \<Rightarrow> (r, AList.update (as_account sh) agg' accounts)))"

definition push_history :: "LedgerEntry \<Rightarrow> EfficiencyLedger \<Rightarrow> EfficiencyLedger" where
  "push_history e l =
     l\<lparr>l_history := l_history l @ [e], l_index := (l_index l)(e_id e \<mapsto> length (l_history l))\<rparr>"

definition apply_reclassify_locked :: "LedgerEntry \<Rightarrow> EfficiencyLedger \<Rightarrow> Status \<times> EfficiencyLedger" where
  "apply_reclassify_locked revision l =
     (case e_revision_target revision of
        None \<Rightarrow> (Status ErrorCode_kInvalidInput ''revision event missing target'', l)
      | Some tid \<Rightarrow>
          (case l_index l tid of
             None \<Rightarrow> (Status ErrorCode_kInvalidInput ''revision target entry does not exist'', l)
           | Some pos \<Rightarrow>
               (let target = l_history l ! pos;
                    old_cls = e_classification target;
                    new_cls = e_classification revision
                in if is_consumption_class old_cls \<noteq> is_consumption_class new_cls
                   then (Status ErrorCode_kInvalidInput ''cannot reclassify across consumption / non-consumption classes'', l)
                   else if is_consumption_class old_cls
                   then (case for_each (reclassify_share old_cls new_cls)
                                (ar_shares (compute_attribution target)) (l_accounts l) of
                           (Some st, accounts) \<Rightarrow> (st, l\<lparr>l_accounts := accounts\<rparr>)
                         | (None, accounts) \<Rightarrow> (Status_success, push_history revision (l\<lparr>l_accounts := accounts\<rparr>)))
                   else (Status_success, push_history revision l))))"

section \<open>Append\<close>

text \<open>The at-most-once gates: \<open>Some\<close> is the early return.\<close>

definition lifecycle_gate :: "LedgerEntry \<Rightarrow> EfficiencyLedger \<Rightarrow> Status option" where
  "lifecycle_gate e l =
     (if is_lifecycle_completion e then
        if e_event e = EventType_kTransferCompleted \<and> id_valid (o_transfer (e_owners e)) \<and>
           o_transfer (e_owners e) \<in> l_transfer_completed l
        then Some (Status ErrorCode_kDuplicateEntry ''duplicate transfer completion'')
        else if e_event e = EventType_kReservationReleased \<and> id_valid (o_reservation (e_owners e)) \<and>
           o_reservation (e_owners e) \<in> l_reservation_released l
        then Some (Status ErrorCode_kDuplicateEntry ''duplicate reservation release'')
        else if e_event e = EventType_kAllocationReleased \<and> id_valid (o_allocation (e_owners e)) \<and>
           o_allocation (e_owners e) \<in> l_allocation_released l
        then Some (Status ErrorCode_kDuplicateEntry ''duplicate allocation release'')
        else if (e_event e = EventType_kRecoveryCompleted \<or> e_event e = EventType_kRecoveryFailed) \<and>
           id_valid (o_recovery (e_owners e)) \<and> o_recovery (e_owners e) \<in> l_recovery_completed l
        then Some (Status ErrorCode_kDuplicateEntry ''duplicate recovery completion'')
        else None
      else None)"

definition record_lifecycle :: "LedgerEntry \<Rightarrow> EfficiencyLedger \<Rightarrow> EfficiencyLedger" where
  "record_lifecycle e l =
     (if is_lifecycle_completion e then
        l\<lparr>l_transfer_completed :=
             (if e_event e = EventType_kTransferCompleted \<and> id_valid (o_transfer (e_owners e))
              then insert (o_transfer (e_owners e)) (l_transfer_completed l) else l_transfer_completed l),
           l_reservation_released :=
             (if e_event e = EventType_kReservationReleased \<and> id_valid (o_reservation (e_owners e))
              then insert (o_reservation (e_owners e)) (l_reservation_released l) else l_reservation_released l),
           l_allocation_released :=
             (if e_event e = EventType_kAllocationReleased \<and> id_valid (o_allocation (e_owners e))
              then insert (o_allocation (e_owners e)) (l_allocation_released l) else l_allocation_released l),
           l_recovery_completed :=
             (if (e_event e = EventType_kRecoveryCompleted \<or> e_event e = EventType_kRecoveryFailed) \<and>
                 id_valid (o_recovery (e_owners e))
              then insert (o_recovery (e_owners e)) (l_recovery_completed l) else l_recovery_completed l)\<rparr>
      else l)"

definition update_attempt :: "LedgerEntry \<Rightarrow> AttemptState \<Rightarrow> AttemptState" where
  "update_attempt e as =
     (let as1 = (if has_outcome e
                 then as\<lparr>st_outcome := e_attempt_outcome e, st_generation := at_generation (e_attempt e),
                         st_authoritative := True\<rparr>
                 else as)
      in if id_valid (f_publication (e_fences e)) \<and>
            (\<not> id_valid (st_last_publication as1) \<or> f_publication (e_fences e) > st_last_publication as1)
         then as1\<lparr>st_last_publication := f_publication (e_fences e)\<rparr>
         else as1)"

definition record_attempt :: "LedgerEntry \<Rightarrow> EfficiencyLedger \<Rightarrow> EfficiencyLedger" where
  "record_attempt e l =
     (if has_attempt e then
        l\<lparr>l_attempts := (l_attempts l)(at_id (e_attempt e) \<mapsto>
            update_attempt e (case l_attempts l (at_id (e_attempt e)) of
                                None \<Rightarrow> AttemptState_default | Some as \<Rightarrow> as))\<rparr>
      else l)"

definition append_locked ::
    "AccountId hash_order \<Rightarrow> LedgerEntry \<Rightarrow> EfficiencyLedger \<Rightarrow> Status \<times> EfficiencyLedger" where
  "append_locked ho e l =
     (if l_shutting_down l then (Status ErrorCode_kShuttingDown ''ledger is shutting down'', l)
      else if \<not> LedgerEntry_validate e then (Status ErrorCode_kInvalidInput ''invalid accounting entry'', l)
      else if e_event e = EventType_kReclassify then
        if l_index l (e_id e) \<noteq> None
        then (Status ErrorCode_kDuplicateEntry ''duplicate revision entry'', l)
        else if \<not> ResourceUsage_is_zero (e_usage e)
        then (Status ErrorCode_kInvalidInput ''revision event must not consume'', l)
        else if \<not> Status_ok (check_authority l e) then (check_authority l e, l)
        else apply_reclassify_locked e l
      else if l_index l (e_id e) \<noteq> None
      then (Status ErrorCode_kDuplicateEntry ''duplicate entry id'', l)
      else if \<not> Status_ok (check_classification_consistency e)
      then (check_classification_consistency e, l)
      else if \<not> Status_ok (check_authority l e) then (check_authority l e, l)
      else case lifecycle_gate e l of
        Some st \<Rightarrow> (st, l)
      | None \<Rightarrow>
          (let attr = compute_attribution e
           in if ar_invalid attr then (Status ErrorCode_kInvalidInput ''unable to attribute entry'', l)
              else case apply_attribution ho e attr l of (st, l1) \<Rightarrow>
                if \<not> Status_ok st then (st, l1)
                else (Status_success, push_history e (record_attempt e (record_lifecycle e l1)))))"

fun append_all ::
    "AccountId hash_order \<Rightarrow> LedgerEntry list \<Rightarrow> EfficiencyLedger \<Rightarrow> Status \<times> EfficiencyLedger" where
  "append_all ho [] l = (Status_success, l)"
| "append_all ho (e # es) l =
     (case append_locked ho e l of (st, l') \<Rightarrow>
        if \<not> Status_ok st then (st, l') else append_all ho es l')"

record ReclassifyRequest =
  rq_revision_id :: AccountingEntryId
  rq_target :: AccountingEntryId
  rq_new_classification :: EfficiencyClass
  rq_new_subcategory :: Subcategory
  rq_fences :: AuthorityFences
  rq_provenance :: Provenance
  rq_note :: bytes

text \<open>The revision entry that \<open>reclassify\<close> builds from the request and the target it finds.\<close>

definition revision_entry :: "ReclassifyRequest \<Rightarrow> EfficiencyLedger \<Rightarrow> LedgerEntry" where
  "revision_entry req l =
     (let rev = LedgerEntry_default
           \<lparr>e_id := rq_revision_id req, e_event := EventType_kReclassify,
            e_classification := rq_new_classification req, e_subcategory := rq_new_subcategory req,
            e_provenance := rq_provenance req, e_fences := rq_fences req,
            e_revision_target := Some (rq_target req), e_note := rq_note req\<rparr>
      in case l_index l (rq_target req) of
           None \<Rightarrow> rev
         | Some pos \<Rightarrow>
             (let t = l_history l ! pos
              in rev\<lparr>e_account := (if id_valid (e_account t) then e_account t
                                   else Identity kResidualAccountValue),
                     e_attempt := e_attempt t\<rparr>))"

definition reclassify ::
    "AccountId hash_order \<Rightarrow> ReclassifyRequest \<Rightarrow> EfficiencyLedger \<Rightarrow> Status \<times> EfficiencyLedger" where
  "reclassify ho req l = append_locked ho (revision_entry req l) l"

section \<open>Replay\<close>

text \<open>
  What \<open>load_history\<close> and \<open>load_from_string\<close> clear: everything that is derived from the stream of
  entries, and nothing of the authority state.
\<close>

definition clear_books :: "EfficiencyLedger \<Rightarrow> EfficiencyLedger" where
  "clear_books l =
     l\<lparr>l_history := [], l_index := Map.empty, l_accounts := [], l_attempts := Map.empty,
       l_transfer_completed := {}, l_reservation_released := {}, l_allocation_released := {},
       l_recovery_completed := {}\<rparr>"

definition load_history ::
    "AccountId hash_order \<Rightarrow> LedgerEntry list \<Rightarrow> EfficiencyLedger \<Rightarrow> Status \<times> EfficiencyLedger" where
  "load_history ho entries l =
     (case append_all ho entries ((clear_books l)\<lparr>l_replaying := True\<rparr>) of (st, l1) \<Rightarrow>
        if \<not> Status_ok st
        then (Status (status_code st) (''replay failed: '' @ status_message st), l1\<lparr>l_replaying := False\<rparr>)
        else (Status_success, l1\<lparr>l_replaying := False\<rparr>))"

text \<open>The first critical section of \<open>load_from_string\<close>.\<close>

definition adopt_header ::
    "LedgerId \<Rightarrow> CoordinatorEpoch \<Rightarrow> LedgerGeneration \<Rightarrow> AccountGeneration \<Rightarrow> EfficiencyLedger \<Rightarrow> EfficiencyLedger" where
  "adopt_header lid epoch ledger_gen account_gen l =
     clear_books (l\<lparr>l_ledger_id := lid, l_epoch := epoch, l_ledger_generation := ledger_gen,
                    l_account_generation := account_gen, l_shutting_down := False, l_epoch_advanced := False\<rparr>)"

end
