(* ===== verification/EL_Accounting.thy ===== *)
theory EL_Accounting
  imports EL_Ledger
begin

text \<open>
  What the accounting loops of \<open>apply_attribution\<close> and of reclassification do to the totals.
  The loops are first seen as one walk over the cells of an aggregate (field and dimension), which
  stops at the first cell that does not fit; from that follow when the accounting of an entry
  succeeds, what it adds to every account, that the result does not depend on the order in which
  the unordered map of pending aggregates is traversed, and what a failing run leaves behind.
\<close>

section \<open>Aggregates as a matrix of cells\<close>

datatype agg_field = FPhysical | FUseful | FOverhead | FWaste | FUnknown | FAvoided | FStranded

primrec fget :: "agg_field \<Rightarrow> AccountAggregate \<Rightarrow> DimTotals" where
  "fget FPhysical = ag_physical"
| "fget FUseful = ag_useful"
| "fget FOverhead = ag_overhead"
| "fget FWaste = ag_waste"
| "fget FUnknown = ag_unknown"
| "fget FAvoided = ag_avoided"
| "fget FStranded = ag_stranded"

primrec fupd :: "agg_field \<Rightarrow> (DimTotals \<Rightarrow> DimTotals) \<Rightarrow> AccountAggregate \<Rightarrow> AccountAggregate" where
  "fupd FPhysical = ag_physical_update"
| "fupd FUseful = ag_useful_update"
| "fupd FOverhead = ag_overhead_update"
| "fupd FWaste = ag_waste_update"
| "fupd FUnknown = ag_unknown_update"
| "fupd FAvoided = ag_avoided_update"
| "fupd FStranded = ag_stranded_update"

lemma fget_fupd [simp]: "fget f (fupd g h a) = (if f = g then h (fget g a) else fget f a)"
  by (cases f; cases g) simp_all

lemma aggregate_eqI: "(\<And>f. fget f a = fget f b) \<Longrightarrow> a = b"
proof -
  assume eq: "\<And>f. fget f a = fget f b"
  show "a = b"
    using eq [of FPhysical] eq [of FUseful] eq [of FOverhead] eq [of FWaste] eq [of FUnknown]
      eq [of FAvoided] eq [of FStranded]
    by (simp add: AccountAggregate.equality)
qed

lemma fget_zero [simp]: "fget f AccountAggregate_zero = zero_totals"
  by (cases f) (simp_all add: AccountAggregate_zero_def)

section \<open>Walking over cells\<close>

type_synonym cell = "agg_field \<times> Status \<times> ResourceDimension"

fun cell_key :: "cell \<Rightarrow> agg_field \<times> ResourceDimension" where
  "cell_key (f, err, d) = (f, d)"

fun cell_step ::
    "(u64 \<Rightarrow> u64 \<Rightarrow> u64 option) \<Rightarrow> (agg_field \<Rightarrow> DimTotals) \<Rightarrow> cell \<Rightarrow> AccountAggregate \<Rightarrow> Status option \<times> AccountAggregate" where
  "cell_step op v (f, err, d) agg =
     (case op (fget f agg d) (v f d) of
        None \<Rightarrow> (Some err, agg)
      | Some nv \<Rightarrow> (None, fupd f (\<lambda>t. t(d := nv)) agg))"

abbreviation run_cells ::
    "(u64 \<Rightarrow> u64 \<Rightarrow> u64 option) \<Rightarrow> (agg_field \<Rightarrow> DimTotals) \<Rightarrow> cell list \<Rightarrow> AccountAggregate \<Rightarrow> Status option \<times> AccountAggregate" where
  "run_cells op v cells \<equiv> for_each (cell_step op v) cells"

text \<open>
  The walk changes a prefix of the cells, each by one successful step; it returns normally exactly
  if that prefix is everything, and otherwise the first cell after it is one whose step fails.
\<close>

definition cells_done ::
    "(u64 \<Rightarrow> u64 \<Rightarrow> u64 option) \<Rightarrow> (agg_field \<Rightarrow> DimTotals) \<Rightarrow> cell list \<Rightarrow> nat \<Rightarrow> AccountAggregate \<Rightarrow> AccountAggregate \<Rightarrow> bool" where
  "cells_done op v cells k a a' \<longleftrightarrow>
     (\<forall>f d. fget f a' d =
        (if (f, d) \<in> cell_key ` set (take k cells) then the (op (fget f a d) (v f d)) else fget f a d)) \<and>
     (\<forall>(f, err, d) \<in> set (take k cells). op (fget f a d) (v f d) \<noteq> None)"

lemma cells_done_Cons:
  assumes some: "op (fget f a d) (v f d) = Some nv"
    and notin: "(f, d) \<notin> cell_key ` set cells"
    and rest: "cells_done op v cells k (fupd f (\<lambda>t. t(d := nv)) a) a'"
  shows "cells_done op v ((f, err, d) # cells) (Suc k) a a'"
proof -
  let ?a = "fupd f (\<lambda>t. t(d := nv)) a"
  have notin_take: "(f, d) \<notin> cell_key ` set (take k cells)"
    using notin set_take_subset [of k cells] by blast
  have old: "fget g ?a e = fget g a e" if "(g, e) \<noteq> (f, d)" for g e
    using that by auto
  have "fget g a' e =
      (if (g, e) \<in> cell_key ` set (take (Suc k) ((f, err, d) # cells)) then the (op (fget g a e) (v g e)) else fget g a e)" for g e
    using rest notin_take some unfolding cells_done_def
    by (cases "(g, e) = (f, d)") (simp_all add: old)
  moreover have "op (fget g a e) (v g e) \<noteq> None" if "(g, r, e) \<in> set (take k cells)" for g r e
  proof -
    have "(g, e) \<noteq> (f, d)"
      using notin_take that by (metis cell_key.simps imageI)
    with that rest show ?thesis
      using old unfolding cells_done_def by fastforce
  qed
  ultimately show ?thesis
    unfolding cells_done_def using some by auto
qed

lemma run_cells_spec:
  assumes "distinct (map cell_key cells)"
  shows "\<exists>k \<le> length cells. cells_done op v cells k a (snd (run_cells op v cells a)) \<and>
     (case fst (run_cells op v cells a) of
        None \<Rightarrow> k = length cells
      | Some err \<Rightarrow> k < length cells \<and> (\<exists>f d. cells ! k = (f, err, d) \<and> op (fget f a d) (v f d) = None))"
  using assms
proof (induction cells arbitrary: a)
  case Nil
  then show ?case by (auto simp: cells_done_def)
next
  case (Cons c cells)
  obtain f err d where c: "c = (f, err, d)" by (metis prod_cases3)
  show ?case
  proof (cases "op (fget f a d) (v f d)")
    case None
    with c show ?thesis
      by (intro exI [of _ 0]) (auto simp: cells_done_def)
  next
    case (Some nv)
    let ?a = "fupd f (\<lambda>t. t(d := nv)) a"
    have "distinct (map cell_key cells)" using Cons.prems by simp
    from Cons.IH [OF this, of ?a] obtain k where k: "k \<le> length cells"
      and res: "cells_done op v cells k ?a (snd (run_cells op v cells ?a))"
      and ret: "case fst (run_cells op v cells ?a) of
          None \<Rightarrow> k = length cells
        | Some err \<Rightarrow> k < length cells \<and> (\<exists>g e. cells ! k = (g, err, e) \<and> op (fget g ?a e) (v g e) = None)"
      by blast
    have notin: "(f, d) \<notin> cell_key ` set cells"
      using Cons.prems c by simp
    have step: "run_cells op v (c # cells) a = run_cells op v cells ?a"
      using Some c by simp
    have "\<exists>g e. (c # cells) ! Suc k = (g, r, e) \<and> op (fget g a e) (v g e) = None"
      if "k < length cells" and "cells ! k = (g, r, e)" and "op (fget g ?a e) (v g e) = None" for g r e
    proof -
      have "(g, e) \<in> cell_key ` set cells"
        using that(1,2) by (metis cell_key.simps imageI nth_mem)
      with notin have "(g, e) \<noteq> (f, d)" by blast
      with that(2,3) show ?thesis by (auto split: if_splits)
    qed
    with k ret cells_done_Cons [OF Some notin res, of err] show ?thesis
      unfolding step by (intro exI [of _ "Suc k"]) (auto simp: c split: option.splits)
  qed
qed

text \<open>The two consequences used below: a walk that returns normally, and any walk at all.\<close>

lemma run_cells_None_iff:
  assumes "distinct (map cell_key cells)"
  shows "fst (run_cells op v cells a) = None \<longleftrightarrow> (\<forall>(f, err, d) \<in> set cells. op (fget f a d) (v f d) \<noteq> None)"
proof -
  from run_cells_spec [OF assms, of op v a] obtain k where
    fin: "cells_done op v cells k a (snd (run_cells op v cells a))" and
    ret: "case fst (run_cells op v cells a) of
        None \<Rightarrow> k = length cells
      | Some err \<Rightarrow> k < length cells \<and> (\<exists>f d. cells ! k = (f, err, d) \<and> op (fget f a d) (v f d) = None)"
    by blast
  show ?thesis
  proof (cases "fst (run_cells op v cells a)")
    case None
    with fin ret show ?thesis by (simp add: cells_done_def)
  next
    case (Some err)
    with ret obtain f d where at: "cells ! k = (f, err, d)" and fail: "op (fget f a d) (v f d) = None"
      and "k < length cells"
      by auto
    then have "(f, err, d) \<in> set cells"
      by (metis nth_mem)
    with Some fail show ?thesis by (auto intro!: bexI [of _ "(f, err, d)"])
  qed
qed

lemma run_cells_None:
  assumes "distinct (map cell_key cells)" and "fst (run_cells op v cells a) = None"
  shows "fget f (snd (run_cells op v cells a)) d =
     (if (f, d) \<in> cell_key ` set cells then the (op (fget f a d) (v f d)) else fget f a d)"
  using run_cells_spec [OF assms(1), of op v a] assms(2) by (auto simp: cells_done_def)

section \<open>The accounting loops as walks\<close>

lemma for_each_for_each:
  "for_each (\<lambda>x. for_each (g x) ys) xs s = for_each (\<lambda>p. g (fst p) (snd p)) (List.product xs ys) s"
proof (induction xs arbitrary: s)
  case (Cons x xs)
  have "for_each (\<lambda>p. g (fst p) (snd p)) (map (Pair x) zs) t = for_each (g x) zs t" for zs t
    by (induction zs arbitrary: t) (simp_all split: prod.splits option.splits)
  with Cons show ?case
    by (simp add: for_each_append split: prod.splits option.splits)
qed simp

lemma for_each_map: "for_each f (map g xs) s = for_each (\<lambda>x. f (g x)) xs s"
  by (induction xs arbitrary: s) (simp_all split: prod.splits option.splits)

lemma for_each_stmts: "for_each g xs = stmts (map g xs)"
  by (simp add: stmts_def for_each_map fun_eq_iff)

definition overflow_cell :: "agg_field \<Rightarrow> string \<Rightarrow> ResourceDimension \<Rightarrow> cell" where
  "overflow_cell f msg d = (f, Status ErrorCode_kOverflow msg, d)"

lemma bump_cell:
  "bump (fget f) (fupd f) msg d (v f d) = cell_step checked_add v (overflow_cell f msg d)"
  by (simp add: bump_def overflow_cell_def fun_eq_iff)

definition merge_cells :: "cell list" where
  "merge_cells = concat (map (\<lambda>d.
     [overflow_cell FPhysical ''physical overflow'' d, overflow_cell FAvoided ''avoided overflow'' d,
      overflow_cell FStranded ''stranded overflow'' d, overflow_cell FUseful ''useful overflow'' d,
      overflow_cell FOverhead ''overhead overflow'' d, overflow_cell FWaste ''waste overflow'' d,
      overflow_cell FUnknown ''unknown overflow'' d]) dims)"

lemma for_each_concat: "for_each f (concat (map h xs)) s = for_each (\<lambda>x. for_each f (h x)) xs s"
  by (induction xs arbitrary: s) (simp_all add: for_each_append split: prod.splits option.splits)

lemmas bump_cells =
  bump_cell [of FPhysical, unfolded fget.simps fupd.simps]
  bump_cell [of FUseful, unfolded fget.simps fupd.simps]
  bump_cell [of FOverhead, unfolded fget.simps fupd.simps]
  bump_cell [of FWaste, unfolded fget.simps fupd.simps]
  bump_cell [of FUnknown, unfolded fget.simps fupd.simps]
  bump_cell [of FAvoided, unfolded fget.simps fupd.simps]
  bump_cell [of FStranded, unfolded fget.simps fupd.simps]

lemma merge_aggregate_walk: "merge_aggregate agg = run_cells checked_add (\<lambda>f. fget f agg) merge_cells"
proof -
  note b = bump_cells [where v = "\<lambda>f. fget f agg", unfolded fget.simps]
  have "run_cells checked_add (\<lambda>f. fget f agg) merge_cells =
    for_each (\<lambda>d. run_cells checked_add (\<lambda>f. fget f agg)
     [overflow_cell FPhysical ''physical overflow'' d, overflow_cell FAvoided ''avoided overflow'' d,
      overflow_cell FStranded ''stranded overflow'' d, overflow_cell FUseful ''useful overflow'' d,
      overflow_cell FOverhead ''overhead overflow'' d, overflow_cell FWaste ''waste overflow'' d,
      overflow_cell FUnknown ''unknown overflow'' d]) dims"
    unfolding merge_cells_def by (rule ext) (rule for_each_concat)
  also have "\<dots> = merge_aggregate agg"
    unfolding merge_aggregate_def
    by (simp only: for_each_stmts [where g = "cell_step _ _"] list.map b [symmetric])
  finally show ?thesis by (rule sym)
qed

definition bucket_field :: "EfficiencyClass \<Rightarrow> agg_field option" where
  "bucket_field c =
     (if c = EfficiencyClass_kUseful then Some FUseful
      else if c = EfficiencyClass_kNecessaryOverhead then Some FOverhead
      else if c = EfficiencyClass_kAvoidableWaste then Some FWaste
      else if c = EfficiencyClass_kUnknown then Some FUnknown else None)"

lemma class_bucket_cases:
  obtains "class_bucket c = None" and "bucket_field c = None" and "\<not> is_consumption_class c"
  | f msg where "class_bucket c = Some (fget f, fupd f, msg)" and "bucket_field c = Some f"
      and "f \<in> {FUseful, FOverhead, FWaste, FUnknown}" and "is_consumption_class c"
proof -
  have "(class_bucket c = None \<and> bucket_field c = None \<and> \<not> is_consumption_class c) \<or>
    (\<exists>f msg. class_bucket c = Some (fget f, fupd f, msg) \<and> bucket_field c = Some f \<and>
       f \<in> {FUseful, FOverhead, FWaste, FUnknown} \<and> is_consumption_class c)"
    unfolding class_bucket_def bucket_field_def is_consumption_class_def
    by (auto intro: exI [of _ FUseful] exI [of _ FOverhead] exI [of _ FWaste] exI [of _ FUnknown])
  then show ?thesis using that by blast
qed

text \<open>What one share adds to each field of its account.\<close>

definition share_value :: "EfficiencyClass \<Rightarrow> AttributionShare \<Rightarrow> agg_field \<Rightarrow> DimTotals" where
  "share_value c sh f =
     (case f of
        FPhysical \<Rightarrow> as_physical sh
      | FAvoided \<Rightarrow> as_avoided sh
      | FStranded \<Rightarrow> as_stranded sh
      | _ \<Rightarrow> if bucket_field c = Some f then as_physical sh else zero_totals)"

definition fixed_cells :: "cell list" where
  "fixed_cells = concat (map (\<lambda>d.
     [overflow_cell FPhysical ''physical overflow'' d, overflow_cell FAvoided ''avoided overflow'' d,
      overflow_cell FStranded ''stranded overflow'' d]) dims)"

lemma add_share_walk:
  "\<exists>cells. add_share c sh = run_cells checked_add (share_value c sh) cells \<and>
     distinct (map cell_key cells) \<and>
     (\<forall>f d. (f, d) \<notin> cell_key ` set cells \<longrightarrow> share_value c sh f d = 0)"
proof -
  let ?v = "share_value c sh"
  note b = bump_cells [where v = ?v]
  have v: "?v FPhysical = as_physical sh" "?v FAvoided = as_avoided sh" "?v FStranded = as_stranded sh"
    by (simp_all add: share_value_def)
  have fixed: "run_cells checked_add ?v fixed_cells = for_each (\<lambda>d. stmts
      [bump ag_physical ag_physical_update ''physical overflow'' d (as_physical sh d),
       bump ag_avoided ag_avoided_update ''avoided overflow'' d (as_avoided sh d),
       bump ag_stranded ag_stranded_update ''stranded overflow'' d (as_stranded sh d)]) dims"
    unfolding fixed_cells_def
    by (rule ext, subst for_each_concat)
      (simp only: for_each_stmts [where g = "cell_step _ _"] list.map b [symmetric] v)
  have key_fixed: "cell_key ` set fixed_cells = {FPhysical, FAvoided, FStranded} \<times> UNIV"
    and dist_fixed: "distinct (map cell_key fixed_cells)"
    by (auto simp: fixed_cells_def overflow_cell_def dims_def UNIV_dims)
  show ?thesis
  proof (cases c rule: class_bucket_cases)
    case 1
    then have "add_share c sh = run_cells checked_add ?v fixed_cells"
      unfolding add_share_def fixed by (simp add: fun_eq_iff split: prod.splits option.splits)
    moreover have "?v f d = 0" if "(f, d) \<notin> cell_key ` set fixed_cells" for f d
      using that 1 unfolding key_fixed by (cases f) (auto simp: share_value_def)
    ultimately show ?thesis using dist_fixed by blast
  next
    case (2 f msg)
    let ?cells = "fixed_cells @ map (overflow_cell f msg) dims"
    have bucket: "?v f = as_physical sh"
      using 2 by (auto simp: share_value_def)
    have "for_each (\<lambda>d. bump (fget f) (fupd f) msg d (as_physical sh d)) dims = run_cells checked_add ?v (map (overflow_cell f msg) dims)"
      by (rule ext) (simp only: for_each_map bump_cell [where v = ?v, symmetric] bucket)
    then have "add_share c sh = run_cells checked_add ?v ?cells"
      using 2 unfolding add_share_def fixed [symmetric]
      by (intro ext) (simp add: for_each_append split: prod.splits option.splits)
    moreover have "distinct (map cell_key ?cells)"
      using 2 dist_fixed key_fixed
      by (auto simp: distinct_map inj_on_def overflow_cell_def)
    moreover have "?v g d = 0" if "(g, d) \<notin> cell_key ` set ?cells" for g d
    proof -
      have "g \<notin> {FPhysical, FAvoided, FStranded}" and "g \<noteq> f"
        using that by (auto simp: key_fixed image_Un image_image overflow_cell_def)
      with 2 show ?thesis by (cases g) (auto simp: share_value_def)
    qed
    ultimately show ?thesis by blast
  qed
qed

text \<open>Adding cell by cell: it succeeds if every sum fits, and then every cell holds the exact sum.\<close>

definition adds :: "AccountAggregate \<Rightarrow> (agg_field \<Rightarrow> DimTotals) \<Rightarrow> AccountAggregate \<Rightarrow> bool" where
  "adds a v a' \<longleftrightarrow> (\<forall>f d. unat (fget f a' d) = unat (fget f a d) + unat (v f d))"

definition fits :: "AccountAggregate \<Rightarrow> (agg_field \<Rightarrow> DimTotals) \<Rightarrow> bool" where
  "fits a v \<longleftrightarrow> (\<forall>f d. unat (fget f a d) + unat (v f d) < 18446744073709551616)"

lemma walk_add:
  assumes walk: "g = run_cells checked_add v cells" and dist: "distinct (map cell_key cells)"
    and rest: "\<forall>f d. (f, d) \<notin> cell_key ` set cells \<longrightarrow> v f d = 0"
  shows "fst (g a) = None \<longleftrightarrow> fits a v" and "fst (g a) = None \<Longrightarrow> adds a v (snd (g a))"
proof -
  have cover: "v f d = 0 \<or> (\<exists>err. (f, err, d) \<in> set cells)" for f d
  proof (cases "(f, d) \<in> cell_key ` set cells")
    case True
    then obtain g err e where "(g, err, e) \<in> set cells" and "(f, d) = (g, e)" by force
    then show ?thesis by blast
  qed (use rest in simp)
  show iff: "fst (g a) = None \<longleftrightarrow> fits a v"
    unfolding walk run_cells_None_iff [OF dist] fits_def checked_add_None_iff not_le
  proof safe
    fix f d
    assume "\<forall>(f, err, d) \<in> set cells. unat (fget f a d) + unat (v f d) < 18446744073709551616"
    with cover [of f d] show "unat (fget f a d) + unat (v f d) < 18446744073709551616" by auto
  qed simp
  assume none: "fst (g a) = None"
  then have "checked_add (fget f a d) (v f d) \<noteq> None" for f d
    using iff by (auto simp: fits_def checked_add_None_iff not_le)
  then have sum: "unat (the (checked_add (fget f a d) (v f d))) = unat (fget f a d) + unat (v f d)" for f d
    using checked_add_Some_iff by (metis option.collapse)
  show "adds a v (snd (g a))"
    unfolding adds_def
  proof (intro allI)
    fix f d
    show "unat (fget f (snd (g a)) d) = unat (fget f a d) + unat (v f d)"
      using run_cells_None [OF dist none [unfolded walk], of f d] sum [of f d] rest
      unfolding walk by (auto split: if_splits)
  qed
qed

lemma add_share_ok_iff: "fst (add_share c sh a) = None \<longleftrightarrow> fits a (share_value c sh)"
  and add_share_adds: "fst (add_share c sh a) = None \<Longrightarrow> adds a (share_value c sh) (snd (add_share c sh a))"
  using add_share_walk [of c sh] walk_add by metis+

lemma merge_cells_cover: "cell_key ` set merge_cells = UNIV" "distinct (map cell_key merge_cells)"
proof -
  show "cell_key ` set merge_cells = UNIV"
  proof (rule sym, rule UNIV_eq_I)
    fix x :: "agg_field \<times> ResourceDimension"
    obtain f d where x: "x = (f, d)" by fastforce
    show "x \<in> cell_key ` set merge_cells"
      unfolding merge_cells_def x overflow_cell_def
      by (cases f) (auto intro!: bexI [of _ d] simp: image_UN)
  qed
  show "distinct (map cell_key merge_cells)"
    by (simp add: merge_cells_def overflow_cell_def dims_def)
qed

lemma merge_aggregate_ok_iff: "fst (merge_aggregate agg a) = None \<longleftrightarrow> fits a (\<lambda>f. fget f agg)"
  and merge_aggregate_adds:
    "fst (merge_aggregate agg a) = None \<Longrightarrow> adds a (\<lambda>f. fget f agg) (snd (merge_aggregate agg a))"
  using walk_add [OF merge_aggregate_walk merge_cells_cover(2)] merge_cells_cover(1) by auto

section \<open>Totals per account\<close>

definition agg_of :: "Accounts \<Rightarrow> AccountId \<Rightarrow> AccountAggregate" where
  "agg_of accounts k = (case map_of accounts k of None \<Rightarrow> AccountAggregate_zero | Some a \<Rightarrow> a)"

definition cell_of :: "Accounts \<Rightarrow> AccountId \<Rightarrow> agg_field \<Rightarrow> ResourceDimension \<Rightarrow> nat" where
  "cell_of accounts k f d = unat (fget f (agg_of accounts k) d)"

definition share_sum :: "EfficiencyClass \<Rightarrow> AttributionShare list \<Rightarrow> AccountId \<Rightarrow> agg_field \<Rightarrow> ResourceDimension \<Rightarrow> nat" where
  "share_sum c shares k f d = (\<Sum>sh \<leftarrow> shares. if as_account sh = k then unat (share_value c sh f d) else 0)"

lemma agg_of_Nil [simp]: "agg_of [] k = AccountAggregate_zero"
  by (simp add: agg_of_def)

lemma agg_of_update [simp]: "agg_of (AList.update k a m) k' = (if k' = k then a else agg_of m k')"
  by (simp add: agg_of_def)

lemma share_sum_Nil [simp]: "share_sum c [] k f d = 0"
  and share_sum_Cons [simp]: "share_sum c (sh # shares) k f d =
    (if as_account sh = k then unat (share_value c sh f d) else 0) + share_sum c shares k f d"
  by (simp_all add: share_sum_def)

lemma pending_loop:
  assumes "\<And>k f d. cell_of pend k f d + share_sum c shares k f d < 18446744073709551616"
    and "distinct (map fst pend)"
  shows "\<exists>pend'. for_each (pending_share c) shares pend = (None, pend') \<and> distinct (map fst pend') \<and>
     fst ` set pend' = fst ` set pend \<union> as_account ` set shares \<and>
     (\<forall>k f d. cell_of pend' k f d = cell_of pend k f d + share_sum c shares k f d)"
  using assms
proof (induction shares arbitrary: pend)
  case Nil
  then show ?case by simp
next
  case (Cons sh shares)
  let ?k = "as_account sh"
  let ?a = "agg_of pend ?k"
  obtain a' where a': "add_share c sh ?a = (fst (add_share c sh ?a), a')"
    by (metis prod.collapse)
  have fit: "fits ?a (share_value c sh)"
    unfolding fits_def
  proof (intro allI)
    fix f d
    show "unat (fget f ?a d) + unat (share_value c sh f d) < 18446744073709551616"
      using Cons.prems(1) [of ?k f d] by (simp add: cell_of_def)
  qed
  then have ok: "fst (add_share c sh ?a) = None"
    by (simp add: add_share_ok_iff)
  then have "adds ?a (share_value c sh) a'"
    using add_share_adds a' by (metis snd_conv)
  then have cells: "cell_of (AList.update ?k a' pend) k f d =
      cell_of pend k f d + (if ?k = k then unat (share_value c sh f d) else 0)" for k f d
    by (simp add: cell_of_def adds_def)
  have step: "pending_share c sh pend = (None, AList.update ?k a' pend)"
    using a' ok by (simp add: pending_share_def Let_def agg_of_def)
  have "\<exists>pend'. for_each (pending_share c) shares (AList.update ?k a' pend) = (None, pend') \<and>
     distinct (map fst pend') \<and>
     fst ` set pend' = fst ` set (AList.update ?k a' pend) \<union> as_account ` set shares \<and>
     (\<forall>k f d. cell_of pend' k f d = cell_of (AList.update ?k a' pend) k f d + share_sum c shares k f d)"
    using Cons.prems by (intro Cons.IH) (simp_all add: cells add.assoc)
  then show ?case
    using step cells by (auto simp: dom_update add.assoc)
qed

text \<open>The pending aggregates added onto the accounts, each account once.\<close>

definition merged :: "Accounts \<Rightarrow> Accounts \<Rightarrow> Accounts \<Rightarrow> bool" where
  "merged accs ps accs' \<longleftrightarrow>
     distinct (map fst accs') \<and> fst ` set accs' = fst ` set accs \<union> fst ` set ps \<and>
     (\<forall>k f d. cell_of accs' k f d = cell_of accs k f d + cell_of ps k f d)"

definition all_fit :: "Accounts \<Rightarrow> Accounts \<Rightarrow> bool" where
  "all_fit accs ps \<longleftrightarrow> (\<forall>(k, agg) \<in> set ps. fits (agg_of accs k) (\<lambda>f. fget f agg))"

lemma merge_account_step:
  "\<exists>a'. snd (merge_account (k, agg) accs) = AList.update k a' accs \<and>
     (fst (merge_account (k, agg) accs) = None \<longleftrightarrow> fits (agg_of accs k) (\<lambda>f. fget f agg)) \<and>
     (fst (merge_account (k, agg) accs) = None \<longrightarrow> adds (agg_of accs k) (\<lambda>f. fget f agg) a')"
proof (cases "map_of accs k")
  case None
  then show ?thesis
    by (auto simp: merge_account_def agg_of_def fits_def adds_def)
next
  case (Some dst)
  then show ?thesis
    using merge_aggregate_ok_iff [of agg dst] merge_aggregate_adds [of agg dst]
    by (auto simp: merge_account_def agg_of_def split: prod.splits)
qed

lemma merge_loop:
  assumes "distinct (map fst ps)" and "distinct (map fst accs)"
  shows "(fst (for_each merge_account ps accs) = None \<longleftrightarrow> all_fit accs ps) \<and>
    (fst (for_each merge_account ps accs) = None \<longrightarrow> merged accs ps (snd (for_each merge_account ps accs)))"
  using assms
proof (induction ps arbitrary: accs)
  case Nil
  then show ?case by (simp add: cell_of_def all_fit_def merged_def)
next
  case (Cons p ps)
  obtain k agg where p: "p = (k, agg)" by fastforce
  obtain a' where step: "snd (merge_account p accs) = AList.update k a' accs"
    and fit: "fst (merge_account p accs) = None \<longleftrightarrow> fits (agg_of accs k) (\<lambda>f. fget f agg)"
    and sum: "fst (merge_account p accs) = None \<longrightarrow> adds (agg_of accs k) (\<lambda>f. fget f agg) a'"
    using merge_account_step [of k agg accs] unfolding p by (elim exE conjE)
  let ?accs = "AList.update k a' accs"
  have fresh: "(k, b) \<notin> set ps" for b
    using Cons.prems(1) p by force
  show ?case
  proof (cases "fst (merge_account p accs)")
    case None
    have run: "for_each merge_account (p # ps) accs = for_each merge_account ps ?accs"
      using step None by (cases "merge_account p accs") simp
    have "(\<forall>(k', b) \<in> set ps. fits (agg_of ?accs k') (\<lambda>f. fget f b)) \<longleftrightarrow>
        (\<forall>(k', b) \<in> set ps. fits (agg_of accs k') (\<lambda>f. fget f b))"
      using fresh by (intro ball_cong refl) (auto split: if_splits)
    then have "all_fit ?accs ps \<longleftrightarrow> all_fit accs (p # ps)"
      using fit None p unfolding all_fit_def by simp
    moreover have "cell_of ps k f d = 0" for f d
      using Cons.prems(1) p by (simp add: cell_of_def agg_of_def map_of_eq_None_iff [THEN iffD2])
    then have "merged ?accs ps x \<Longrightarrow> merged accs (p # ps) x" for x
      using sum None p by (auto simp: merged_def cell_of_def adds_def agg_of_def dom_update)
    ultimately show ?thesis
      unfolding run using Cons.IH [of ?accs] Cons.prems by simp
  next
    case (Some st)
    then show ?thesis using fit p by (auto simp: all_fit_def split: prod.splits)
  qed
qed

text \<open>Every failure of these loops is an overflow error, never a success status.\<close>

lemma for_each_error:
  assumes "\<And>x s r s'. x \<in> set xs \<Longrightarrow> f x s = (Some r, s') \<Longrightarrow> P r"
    and "for_each f xs s = (Some r, s')"
  shows "P r"
  using assms by (induction xs arbitrary: s) (fastforce split: prod.splits option.splits)+

lemma merge_aggregate_error: "merge_aggregate agg a = (Some st, a') \<Longrightarrow> status_code st = ErrorCode_kOverflow"
  unfolding merge_aggregate_walk
  by (rule for_each_error [where xs = merge_cells and f = "cell_step checked_add (\<lambda>f. fget f agg)"])
    (auto simp: merge_cells_def overflow_cell_def split: option.splits)

lemma merge_error:
  "for_each merge_account ps accs = (Some st, accs') \<Longrightarrow> status_code st = ErrorCode_kOverflow"
  by (rule for_each_error [where f = merge_account])
    (auto simp: merge_account_def split: option.splits prod.splits dest: merge_aggregate_error)

section \<open>Traversal order does not matter\<close>

lemma map_fst_in_order: "map fst (in_order ho m) = traverse ho (map fst m)"
  by (simp add: in_order_def o_def)

lemma map_of_in_order: "map_of (in_order ho m) = map_of m"
proof
  fix k
  show "map_of (in_order ho m) k = map_of m k"
  proof (cases "k \<in> fst ` set m")
    case True
    then have "k \<in> set (traverse ho (map fst m))" by simp
    then have "map_of (in_order ho m) k = Some (the (map_of m k))"
      unfolding in_order_def by (induction "traverse ho (map fst m)" arbitrary: ) (auto simp: map_of_map_restrict)
    then show ?thesis
      using True by (metis domIff dom_map_of_conv_image_fst option.collapse)
  next
    case False
    then have "k \<notin> fst ` set (in_order ho m)"
      by (simp add: in_order_def image_image)
    with False show ?thesis by (simp add: map_of_eq_None_iff [THEN iffD2])
  qed
qed

lemma agg_of_in_order [simp]: "agg_of (in_order ho m) = agg_of m"
  by (simp add: agg_of_def map_of_in_order fun_eq_iff)

lemma cell_of_in_order [simp]: "cell_of (in_order ho m) = cell_of m"
  by (simp add: cell_of_def fun_eq_iff)

lemma keys_in_order [simp]: "fst ` set (in_order ho m) = fst ` set m"
  by (simp add: in_order_def image_image)

lemma set_in_order:
  assumes "distinct (map fst m)"
  shows "set (in_order ho m) = set m"
proof -
  have "(\<lambda>p. (fst p, the (map_of m (fst p)))) ` set m = (\<lambda>p. p) ` set m"
    using assms by (intro image_cong) (auto simp: map_of_is_SomeI)
  then show ?thesis by (simp add: in_order_def image_image)
qed

section \<open>Accounting one entry\<close>

text \<open>What an entry adds to one cell of one account.\<close>

definition attributed :: "LedgerEntry \<Rightarrow> AccountId \<Rightarrow> agg_field \<Rightarrow> ResourceDimension \<Rightarrow> nat" where
  "attributed e = share_sum (e_classification e) (ar_shares (compute_attribution e))"

text \<open>The accounts an entry touches.\<close>

definition touched :: "LedgerEntry \<Rightarrow> AccountId set" where
  "touched e = as_account ` set (ar_shares (compute_attribution e))"

lemma finite_touched [simp]: "finite (touched e)"
  by (simp add: touched_def)

lemma share_sum_le: "share_sum c shares k f d \<le> (\<Sum>sh \<leftarrow> shares. unat (share_value c sh f d))"
  unfolding share_sum_def by (rule sum_list_mono) simp

lemma attributed_less: "attributed e k f d < 18446744073709551616"
proof -
  let ?shares = "ar_shares (compute_attribution e)"
  let ?c = "e_classification e"
  have "(\<Sum>sh \<leftarrow> ?shares. unat (share_value ?c sh f d)) \<le>
    (case f of
       FAvoided \<Rightarrow> \<Sum>sh \<leftarrow> ?shares. unat (as_avoided sh d)
     | FStranded \<Rightarrow> \<Sum>sh \<leftarrow> ?shares. unat (as_stranded sh d)
     | _ \<Rightarrow> \<Sum>sh \<leftarrow> ?shares. unat (as_physical sh d))"
    by (cases f) (auto simp: share_value_def intro!: sum_list_mono)
  also have "\<dots> < 18446744073709551616"
    by (cases f) (simp_all add: compute_attribution_sum)
  finally show ?thesis
    using share_sum_le [of ?c ?shares k f d] by (simp add: attributed_def)
qed

lemma attributed_untouched: "k \<notin> touched e \<Longrightarrow> attributed e k f d = 0"
  unfolding attributed_def touched_def share_sum_def by (auto simp: image_iff)

definition entry_fits :: "Accounts \<Rightarrow> LedgerEntry \<Rightarrow> bool" where
  "entry_fits accs e \<longleftrightarrow> (\<forall>k f d. cell_of accs k f d + attributed e k f d < 18446744073709551616)"

definition accounted :: "Accounts \<Rightarrow> LedgerEntry \<Rightarrow> Accounts \<Rightarrow> bool" where
  "accounted accs e accs' \<longleftrightarrow>
     distinct (map fst accs') \<and> fst ` set accs' = fst ` set accs \<union> touched e \<and>
     (\<forall>k f d. cell_of accs' k f d = cell_of accs k f d + attributed e k f d)"

lemma pending_of_entry:
  obtains pending where
    "for_each (pending_share (e_classification e)) (ar_shares (compute_attribution e)) [] = (None, pending)"
    and "distinct (map fst pending)" and "fst ` set pending = touched e"
    and "\<And>k f d. cell_of pending k f d = attributed e k f d"
proof -
  have "cell_of [] k f d + share_sum (e_classification e) (ar_shares (compute_attribution e)) k f d < 18446744073709551616" for k f d
    using attributed_less [of e k f d] by (simp add: cell_of_def attributed_def)
  from pending_loop [OF this] that show ?thesis
    by (auto simp: cell_of_def touched_def attributed_def)
qed

lemma apply_attribution_spec:
  assumes "distinct (map fst (l_accounts l))"
  shows "Status_ok (fst (apply_attribution ho e (compute_attribution e) l)) \<longleftrightarrow> entry_fits (l_accounts l) e"
    and "entry_fits (l_accounts l) e \<Longrightarrow>
      \<exists>accs. apply_attribution ho e (compute_attribution e) l = (Status_success, l\<lparr>l_accounts := accs\<rparr>) \<and>
        accounted (l_accounts l) e accs"
proof -
  obtain pending where pend:
    "for_each (pending_share (e_classification e)) (ar_shares (compute_attribution e)) [] = (None, pending)"
    and dist: "distinct (map fst pending)" and keys: "fst ` set pending = touched e"
    and cells: "\<And>k f d. cell_of pending k f d = attributed e k f d"
    by (rule pending_of_entry) blast
  let ?ps = "in_order ho pending"
  have dist': "distinct (map fst ?ps)"
    using dist by (simp add: map_fst_in_order)
  note loop = merge_loop [OF dist' assms]
  have "fits (agg_of (l_accounts l) k) (\<lambda>f. fget f agg) \<longleftrightarrow>
      (\<forall>f d. cell_of (l_accounts l) k f d + attributed e k f d < 18446744073709551616)"
    if "(k, agg) \<in> set pending" for k agg
    using that dist cells [of k] by (simp add: fits_def cell_of_def agg_of_def)
  moreover have "cell_of (l_accounts l) k f d + attributed e k f d < 18446744073709551616"
    if "k \<notin> fst ` set pending" for k f d
    using that keys by (simp add: attributed_untouched cell_of_def)
  ultimately have fit: "all_fit (l_accounts l) ?ps \<longleftrightarrow> entry_fits (l_accounts l) e"
    unfolding all_fit_def entry_fits_def set_in_order [OF dist] by (fastforce simp: image_iff)
  have err: "\<not> Status_ok st" if "for_each merge_account qs accs = (Some st, accs')" for qs accs st accs'
    using merge_error [OF that] by (simp add: Status_ok_def)
  show "Status_ok (fst (apply_attribution ho e (compute_attribution e) l)) \<longleftrightarrow> entry_fits (l_accounts l) e"
    using loop fit pend err
    by (auto simp: apply_attribution_def split: prod.splits option.splits)
  assume "entry_fits (l_accounts l) e"
  with loop fit obtain accs where "for_each merge_account ?ps (l_accounts l) = (None, accs)"
    and "merged (l_accounts l) ?ps accs"
    by (metis prod.collapse)
  then show "\<exists>accs. apply_attribution ho e (compute_attribution e) l = (Status_success, l\<lparr>l_accounts := accs\<rparr>) \<and>
      accounted (l_accounts l) e accs"
    by (auto simp: apply_attribution_def pend merged_def accounted_def keys cells)
qed

text \<open>The attribution of an entry with one account.\<close>

lemma attributed_single:
  assumes "e_shared e = None" and "id_valid (e_account e)"
  shows "attributed e k f d =
    (if k = e_account e then
       case f of
         FPhysical \<Rightarrow> unat (e_usage e d)
       | FAvoided \<Rightarrow> unat (usage_or_zero (e_avoided_work e) d)
       | FStranded \<Rightarrow> unat (usage_or_zero (e_stranded_capacity e) d)
       | _ \<Rightarrow> if bucket_field (e_classification e) = Some f then unat (e_usage e d) else 0
     else 0)"
proof -
  obtain sh where "ar_shares (compute_attribution e) = [sh]" "as_account sh = e_account e" "as_physical sh = e_usage e"
    "as_avoided sh = usage_or_zero (e_avoided_work e)" "as_stranded sh = usage_or_zero (e_stranded_capacity e)"
    by (rule single_account_shares [OF assms])
  then show ?thesis
    by (cases f) (auto simp: attributed_def share_sum_def share_value_def)
qed

end
