(* ===== verification/EL_Reconcile.thy ===== *)
theory EL_Reconcile
  imports EL_Accounting
begin

text \<open>
  The read-only half of \<open>EfficiencyLedger\<close>: lookups, account summaries and \<open>reconcile\<close>, and
  what closure of an account means. \<open>reconcile\<close> adds with wrapping 64-bit arithmetic across
  accounts; the lemmas show when its answer is the one over the naturals.
\<close>

section \<open>Queries\<close>

definition contains :: "AccountingEntryId \<Rightarrow> EfficiencyLedger \<Rightarrow> bool" where
  "contains eid l \<longleftrightarrow> l_index l eid \<noteq> None"

definition get :: "AccountingEntryId \<Rightarrow> EfficiencyLedger \<Rightarrow> LedgerEntry option" where
  "get eid l = (case l_index l eid of None \<Rightarrow> None | Some i \<Rightarrow> Some (l_history l ! i))"

definition entry_count :: "EfficiencyLedger \<Rightarrow> nat" where
  "entry_count l = length (l_history l)"

record AccountSummary =
  sm_account :: AccountId
  sm_physical :: DimTotals
  sm_useful :: DimTotals
  sm_overhead :: DimTotals
  sm_waste :: DimTotals
  sm_unknown :: DimTotals
  sm_avoided :: DimTotals
  sm_stranded :: DimTotals

definition summary_of :: "AccountId \<Rightarrow> AccountAggregate \<Rightarrow> AccountSummary" where
  "summary_of acc agg =
     \<lparr>sm_account = acc, sm_physical = ag_physical agg, sm_useful = ag_useful agg,
      sm_overhead = ag_overhead agg, sm_waste = ag_waste agg, sm_unknown = ag_unknown agg,
      sm_avoided = ag_avoided agg, sm_stranded = ag_stranded agg\<rparr>"

text \<open>The accounts are distinct, so the sort by account value has one result.\<close>

definition account_summaries :: "AccountId hash_order \<Rightarrow> EfficiencyLedger \<Rightarrow> AccountSummary list" where
  "account_summaries ho l =
     sort_key (\<lambda>s. id_value (sm_account s)) (map (\<lambda>(acc, agg). summary_of acc agg) (in_order ho (l_accounts l)))"

definition account_summary :: "AccountId \<Rightarrow> EfficiencyLedger \<Rightarrow> AccountSummary" where
  "account_summary acc l =
     (case map_of (l_accounts l) acc of
        None \<Rightarrow> summary_of acc AccountAggregate_zero
      | Some agg \<Rightarrow> summary_of acc agg)"

definition has_account :: "AccountId \<Rightarrow> EfficiencyLedger \<Rightarrow> bool" where
  "has_account acc l \<longleftrightarrow> map_of (l_accounts l) acc \<noteq> None"

section \<open>Reconciliation\<close>

record Reconciliation =
  rc_closed :: bool
  rc_per_dimension_closed :: "ResourceDimension \<Rightarrow> bool"
  rc_physical :: DimTotals
  rc_classified :: DimTotals
  rc_unclassified :: DimTotals
  rc_avoided :: DimTotals
  rc_stranded :: DimTotals
  rc_entry_count :: nat
  rc_messages :: "string list"

text \<open>\<open>useful + overhead + waste + unknown\<close> of one account, in wrapping arithmetic.\<close>

definition classified_sum :: "AccountAggregate \<Rightarrow> ResourceDimension \<Rightarrow> u64" where
  "classified_sum agg d = ag_useful agg d + ag_overhead agg d + ag_waste agg d + ag_unknown agg d"

definition account_messages :: "AccountAggregate \<Rightarrow> string list" where
  "account_messages agg =
     map (\<lambda>d. ''dimension '' @ to_string_ResourceDimension d @ '' does not close for an account'')
       (filter (\<lambda>d. classified_sum agg d \<noteq> ag_physical agg d) dims)"

definition reconcile :: "AccountId hash_order \<Rightarrow> EfficiencyLedger \<Rightarrow> Reconciliation" where
  "reconcile ho l =
     (let aggs = map snd (in_order ho (l_accounts l));
          physical = (\<lambda>d. \<Sum>agg \<leftarrow> aggs. ag_physical agg d);
          classified = (\<lambda>d. \<Sum>agg \<leftarrow> aggs. classified_sum agg d);
          per_dimension = (\<lambda>d. physical d = classified d \<and>
             list_all (\<lambda>agg. classified_sum agg d = ag_physical agg d) aggs);
          closed = list_all per_dimension dims;
          messages = concat (map account_messages aggs)
      in \<lparr>rc_closed = closed, rc_per_dimension_closed = per_dimension,
          rc_physical = physical, rc_classified = classified,
          rc_unclassified = (\<lambda>d. physical d - classified d),
          rc_avoided = (\<lambda>d. \<Sum>agg \<leftarrow> aggs. ag_avoided agg d),
          rc_stranded = (\<lambda>d. \<Sum>agg \<leftarrow> aggs. ag_stranded agg d),
          rc_entry_count = length (l_history l),
          rc_messages = (if closed \<and> messages = [] then [''reconciliation closed''] else messages)\<rparr>)"

section \<open>Closed accounts\<close>

text \<open>
  An account is closed when its four buckets add up to its physical total as natural numbers, in
  every dimension.
\<close>

definition closed_aggregate :: "AccountAggregate \<Rightarrow> bool" where
  "closed_aggregate a \<longleftrightarrow>
     (\<forall>d. unat (ag_useful a d) + unat (ag_overhead a d) + unat (ag_waste a d) + unat (ag_unknown a d) =
          unat (ag_physical a d))"

definition closed_accounts :: "Accounts \<Rightarrow> bool" where
  "closed_accounts accs \<longleftrightarrow> (\<forall>(k, a) \<in> set accs. closed_aggregate a)"

lemma closed_aggregate_zero [simp]: "closed_aggregate AccountAggregate_zero"
  by (simp add: closed_aggregate_def AccountAggregate_zero_def)

lemma closed_accounts_Nil [simp]: "closed_accounts []"
  by (simp add: closed_accounts_def)

lemma closed_accounts_update:
  "closed_accounts accs \<Longrightarrow> closed_aggregate a \<Longrightarrow> closed_accounts (AList.update k a accs)"
  unfolding closed_accounts_def by (induction accs) auto

lemma closed_agg_of:
  "closed_accounts accs \<Longrightarrow> closed_aggregate (agg_of accs k)"
  by (auto simp: closed_accounts_def agg_of_def split: option.splits dest: map_of_SomeD)

lemma classified_sum_eq: "closed_aggregate a \<Longrightarrow> classified_sum a d = ag_physical a d"
proof -
  assume "closed_aggregate a"
  then have sum: "unat (ag_useful a d) + unat (ag_overhead a d) + unat (ag_waste a d) + unat (ag_unknown a d) =
      unat (ag_physical a d)"
    by (simp add: closed_aggregate_def)
  moreover have "unat (classified_sum a d) =
      unat (ag_useful a d) + unat (ag_overhead a d) + unat (ag_waste a d) + unat (ag_unknown a d)"
    using unat_u64_less [of "ag_physical a d"] sum
    by (simp add: classified_sum_def unat_add_u64 del: unat_u64_less)
  ultimately show ?thesis by (simp add: word_unat_eq_iff)
qed

lemma set_snd_in_order: "distinct (map fst m) \<Longrightarrow> set (map snd (in_order ho m)) = snd ` set m"
  by (simp add: set_in_order)

lemma reconcile_closed:
  assumes "distinct (map fst (l_accounts l))" and "closed_accounts (l_accounts l)"
  shows "rc_closed (reconcile ho l)" and "rc_messages (reconcile ho l) = [''reconciliation closed'']"
proof -
  have eq: "classified_sum agg d = ag_physical agg d" if "agg \<in> set (map snd (in_order ho (l_accounts l)))" for agg d
    using that assms unfolding set_snd_in_order [OF assms(1)]
    by (auto simp: closed_accounts_def intro!: classified_sum_eq)
  have sums: "(\<Sum>agg \<leftarrow> map snd (in_order ho (l_accounts l)). classified_sum agg d) =
      (\<Sum>agg \<leftarrow> map snd (in_order ho (l_accounts l)). ag_physical agg d)" for d
    using eq by (intro arg_cong [of _ _ sum_list] map_cong refl)
  have closed: "list_all (\<lambda>agg. classified_sum agg d = ag_physical agg d) (map snd (in_order ho (l_accounts l)))" for d
    using eq by (simp only: list_all_iff) blast
  have "account_messages agg = []" if "agg \<in> set (map snd (in_order ho (l_accounts l)))" for agg
    using eq [OF that] by (simp add: account_messages_def)
  then have "concat (map account_messages (map snd (in_order ho (l_accounts l)))) = []"
    by (simp only: concat_eq_Nil_conv set_map) blast
  with sums closed show "rc_closed (reconcile ho l)" "rc_messages (reconcile ho l) = [''reconciliation closed'']"
    by (simp_all add: reconcile_def Let_def list_all_iff del: map_map concat_eq_Nil_conv)
qed

end
