(* ===== verification/EL_Append.thy ===== *)
theory EL_Append
  imports EL_Reconcile
begin

text \<open>
  \<open>append\<close> branch by branch: what a refused entry leaves behind, which gates an accepted one has
  passed and which state it reaches, and that accounting an entry keeps every account closed, also
  where an overflow stops it half way.
\<close>

section \<open>What append does\<close>

lemma Status_ok_check: "Status_ok st \<Longrightarrow> status_code st = ErrorCode_kOk"
  by (simp add: Status_ok_def)

text \<open>A refused entry, as long as no arithmetic failed, leaves the ledger as it was.\<close>

lemma apply_attribution_accounts_only:
  "\<exists>accs. snd (apply_attribution ho e attr l) = l\<lparr>l_accounts := accs\<rparr>"
proof (cases "for_each (pending_share (e_classification e)) (ar_shares attr) []")
  case (Pair r pending)
  show ?thesis
  proof (cases r)
    case None
    with Pair show ?thesis
      by (cases "for_each merge_account (in_order ho pending) (l_accounts l)")
        (auto simp: apply_attribution_def split: option.splits)
  next
    case (Some st)
    with Pair show ?thesis
      by (intro exI [of _ "l_accounts l"]) (simp add: apply_attribution_def)
  qed
qed

lemma check_authority_code:
  "status_code (check_authority l e) \<in> {ErrorCode_kOk, ErrorCode_kStaleAuthority}"
  by (auto simp: check_authority_def check_attempt_authority_def Status_success_def split: option.splits)

lemma check_classification_code:
  "status_code (check_classification_consistency e) \<in>
     {ErrorCode_kOk, ErrorCode_kInvalidInput, ErrorCode_kNotAuthoritative}"
  by (simp add: check_classification_consistency_def Let_def Status_success_def)

lemma lifecycle_gate_code: "lifecycle_gate e l = Some st \<Longrightarrow> status_code st = ErrorCode_kDuplicateEntry"
  by (auto simp: lifecycle_gate_def split: if_splits)

lemma pending_phase_ok:
  "apply_attribution ho e (compute_attribution e) l = (st, l') \<Longrightarrow> \<not> Status_ok st \<Longrightarrow>
   status_code st = ErrorCode_kOverflow"
proof -
  assume run: "apply_attribution ho e (compute_attribution e) l = (st, l')" and bad: "\<not> Status_ok st"
  obtain pending where
    "for_each (pending_share (e_classification e)) (ar_shares (compute_attribution e)) [] = (None, pending)"
    by (rule pending_of_entry) blast
  with run bad show ?thesis
    by (auto simp: apply_attribution_def split: prod.splits option.splits dest: merge_error)
qed

lemma apply_attribution_ok:
  assumes "apply_attribution ho e (compute_attribution e) l = (st, l')" and "Status_ok st"
  shows "st = Status_success"
proof -
  obtain pending where pend:
    "for_each (pending_share (e_classification e)) (ar_shares (compute_attribution e)) [] = (None, pending)"
    by (rule pending_of_entry) blast
  show ?thesis
    using assms by (auto simp: apply_attribution_def pend Status_ok_def split: prod.splits option.splits dest: merge_error)
qed

lemma reclassify_share_error:
  "reclassify_share a b sh accs = (Some st, accs') \<Longrightarrow> status_code st = ErrorCode_kReconciliationFailure"
proof -
  have move: "move_bucket step c msg v agg = (Some st, agg') \<Longrightarrow> status_code st = ErrorCode_kReconciliationFailure"
    for step c msg v agg agg'
    unfolding move_bucket_def move_cells_def
    by (auto split: option.splits dest!: for_each_error [where P = "\<lambda>st. status_code st = ErrorCode_kReconciliationFailure", rotated])
  assume "reclassify_share a b sh accs = (Some st, accs')"
  then show ?thesis
    by (auto simp: reclassify_share_def split: option.splits prod.splits dest!: move)
qed

lemma reclassify_loop_error:
  "for_each (reclassify_share a b) shs accs = (Some st, accs') \<Longrightarrow> status_code st = ErrorCode_kReconciliationFailure"
  by (rule for_each_error [where f = "reclassify_share a b"]) (rule reclassify_share_error)

lemma apply_reclassify_code:
  assumes run: "apply_reclassify_locked r l = (st, l')"
  shows "(\<not> Status_ok st \<and> l' = l) \<or> st = Status_success \<or>
    (status_code st = ErrorCode_kReconciliationFailure \<and> (\<exists>accs. l' = l\<lparr>l_accounts := accs\<rparr>))"
proof (cases "e_revision_target r")
  case None
  with run show ?thesis by (auto simp: apply_reclassify_locked_def)
next
  case (Some tid)
  show ?thesis
  proof (cases "l_index l tid")
    case None
    with Some run show ?thesis by (auto simp: apply_reclassify_locked_def)
  next
    case (Some pos)
    let ?t = "l_history l ! pos"
    obtain res accs where loop:
      "for_each (reclassify_share (e_classification ?t) (e_classification r)) (ar_shares (compute_attribution ?t)) (l_accounts l) = (res, accs)"
      by fastforce
    note eqs = apply_reclassify_locked_def Let_def loop Some \<open>e_revision_target r = Some tid\<close>
    consider (across) "is_consumption_class (e_classification ?t) \<noteq> is_consumption_class (e_classification r)"
      | (outside) "\<not> is_consumption_class (e_classification ?t)" "\<not> is_consumption_class (e_classification r)"
      | (inside) "is_consumption_class (e_classification ?t)" "is_consumption_class (e_classification r)"
      by blast
    then show ?thesis
    proof cases
      case across
      then have "st = Status ErrorCode_kInvalidInput ''cannot reclassify across consumption / non-consumption classes'' \<and> l' = l"
        using run by (simp add: eqs)
      then show ?thesis by simp
    next
      case outside
      with run show ?thesis by (simp add: eqs)
    next
      case inside
      have "status_code st' = ErrorCode_kReconciliationFailure" if "res = Some st'" for st'
        using loop that by (metis reclassify_loop_error)
      with inside run show ?thesis
        by (cases res) (auto simp: eqs)
    qed
  qed
qed

lemma append_rejected:
  assumes "append_locked ho e l = (st, l')" and "\<not> Status_ok st"
    and "status_code st \<noteq> ErrorCode_kOverflow" and "status_code st \<noteq> ErrorCode_kReconciliationFailure"
  shows "l' = l"
proof (cases "e_event e = EventType_kReclassify")
  case True
  with assms show ?thesis
    by (auto simp: append_locked_def split: if_splits dest!: apply_reclassify_code)
next
  case False
  with assms show ?thesis
    by (auto simp: append_locked_def Let_def split: if_splits option.splits prod.splits dest: pending_phase_ok)
qed

text \<open>The gates an entry has passed when \<open>append\<close> accepts it, and the state it leaves.\<close>

lemma append_accepted:
  assumes "append_locked ho e l = (st, l')" and "Status_ok st" and "e_event e \<noteq> EventType_kReclassify"
  shows "LedgerEntry_validate e" and "l_index l (e_id e) = None" and "\<not> l_shutting_down l"
    and "Status_ok (check_classification_consistency e)" and "Status_ok (check_authority l e)"
    and "lifecycle_gate e l = None"
    and "\<exists>accs. apply_attribution ho e (compute_attribution e) l = (Status_success, l\<lparr>l_accounts := accs\<rparr>) \<and>
           l' = push_history e (record_attempt e (record_lifecycle e (l\<lparr>l_accounts := accs\<rparr>)))"
proof -
  obtain st1 l1 where app: "apply_attribution ho e (compute_attribution e) l = (st1, l1)"
    by fastforce
  have gates: "LedgerEntry_validate e \<and> l_index l (e_id e) = None \<and> \<not> l_shutting_down l \<and>
      Status_ok (check_classification_consistency e) \<and> Status_ok (check_authority l e) \<and>
      lifecycle_gate e l = None \<and> Status_ok st1 \<and>
      l' = push_history e (record_attempt e (record_lifecycle e l1))"
    using assms lifecycle_gate_code [of e l]
    by (auto simp: append_locked_def Let_def app Status_ok_def split: if_splits option.splits)
  then show "LedgerEntry_validate e" "l_index l (e_id e) = None" "\<not> l_shutting_down l"
    "Status_ok (check_classification_consistency e)" "Status_ok (check_authority l e)"
    "lifecycle_gate e l = None"
    by blast+
  obtain accs where "l1 = l\<lparr>l_accounts := accs\<rparr>"
    using apply_attribution_accounts_only [of ho e "compute_attribution e" l] app by auto
  moreover have "st1 = Status_success"
    using app gates apply_attribution_ok [OF app] by blast
  ultimately show "\<exists>accs. apply_attribution ho e (compute_attribution e) l = (Status_success, l\<lparr>l_accounts := accs\<rparr>) \<and>
      l' = push_history e (record_attempt e (record_lifecycle e (l\<lparr>l_accounts := accs\<rparr>)))"
    using app gates by blast
qed

lemma revision_accepted:
  assumes "append_locked ho r l = (st, l')" and "Status_ok st" and "e_event r = EventType_kReclassify"
  shows "LedgerEntry_validate r" and "l_index l (e_id r) = None" and "\<not> l_shutting_down l"
    and "ResourceUsage_is_zero (e_usage r)" and "Status_ok (check_authority l r)"
    and "apply_reclassify_locked r l = (st, l')"
  using assms by (auto simp: append_locked_def split: if_splits)

section \<open>Closure survives accounting\<close>

text \<open>An entry that passed the consistency check adds a closed row to every account.\<close>

definition closed_values :: "(agg_field \<Rightarrow> DimTotals) \<Rightarrow> bool" where
  "closed_values v \<longleftrightarrow> (\<forall>d.
     unat (v FUseful d) + unat (v FOverhead d) + unat (v FWaste d) + unat (v FUnknown d) = unat (v FPhysical d) \<and>
     (v FPhysical d = 0 \<or> v FAvoided d = 0 \<and> v FStranded d = 0))"

lemma attributed_bucket:
  assumes "bucket_field (e_classification e) = Some g"
  shows "f \<in> {FUseful, FOverhead, FWaste, FUnknown} \<Longrightarrow>
    attributed e k f d = (if f = g then attributed e k FPhysical d else 0)"
  using assms unfolding attributed_def share_sum_def
  by (auto simp: share_value_def intro!: arg_cong [of _ _ sum_list])

lemma attributed_le:
  "attributed e k FPhysical d \<le> unat (e_usage e d)"
  "attributed e k FAvoided d \<le> unat (usage_or_zero (e_avoided_work e) d)"
  "attributed e k FStranded d \<le> unat (usage_or_zero (e_stranded_capacity e) d)"
proof -
  note le = share_sum_le [of "e_classification e" "ar_shares (compute_attribution e)" k _ d]
  note sums = compute_attribution_sum [where e = e and d = d]
  show "attributed e k FPhysical d \<le> unat (e_usage e d)"
    using le [of FPhysical] sums by (simp add: attributed_def share_value_def)
  show "attributed e k FAvoided d \<le> unat (usage_or_zero (e_avoided_work e) d)"
    using le [of FAvoided] sums by (simp add: attributed_def share_value_def)
  show "attributed e k FStranded d \<le> unat (usage_or_zero (e_stranded_capacity e) d)"
    using le [of FStranded] sums by (simp add: attributed_def share_value_def)
qed

lemma valid_class:
  assumes "LedgerEntry_validate e"
  shows "is_consumption_class (e_classification e) \<or>
    e_classification e \<in> {EfficiencyClass_kAvoidedWork, EfficiencyClass_kStrandedCapacity}"
proof -
  obtain c where c: "e_classification e = EfficiencyClass c" by (cases "e_classification e")
  have "c \<le> 5"
    using assms c by (auto simp: LedgerEntry_validate_def not_less split: if_splits)
  then have "unat c \<in> {0, 1, 2, 3, 4, 5}"
    by (auto simp: word_le_nat_alt)
  then have "c \<in> {0, 1, 2, 3, 4, 5}"
    by (auto simp: word_unat_eq_iff)
  with c show ?thesis
    by (auto simp: is_consumption_class_def)
qed

lemma consistent_consumption:
  assumes "Status_ok (check_classification_consistency e)" and "is_consumption_class (e_classification e)"
  shows "e_avoided_work e = None" and "e_stranded_capacity e = None"
  using assms
  by (auto simp: check_classification_consistency_def Let_def is_consumption_class_def split: if_splits)

lemma consistent_nonconsumption:
  assumes "LedgerEntry_validate e" and "Status_ok (check_classification_consistency e)"
    and "\<not> is_consumption_class (e_classification e)"
  shows "e_usage e = zero_totals"
  using assms valid_class [of e]
  by (auto simp: check_classification_consistency_def Let_def ResourceUsage_is_zero_iff split: if_splits)

lemma attributed_closed:
  assumes "LedgerEntry_validate e" and "Status_ok (check_classification_consistency e)"
  shows "attributed e k FUseful d + attributed e k FOverhead d + attributed e k FWaste d + attributed e k FUnknown d =
      attributed e k FPhysical d"
    and "attributed e k FPhysical d = 0 \<or> attributed e k FAvoided d = 0 \<and> attributed e k FStranded d = 0"
proof -
  show "attributed e k FUseful d + attributed e k FOverhead d + attributed e k FWaste d + attributed e k FUnknown d =
      attributed e k FPhysical d"
  proof (cases "e_classification e" rule: class_bucket_cases)
    case 1
    then have "e_usage e = zero_totals"
      using assms by (intro consistent_nonconsumption)
    then have "attributed e k FPhysical d = 0"
      using attributed_le(1) [of e k d] by simp
    moreover have "attributed e k f d = 0" if "f \<in> {FUseful, FOverhead, FWaste, FUnknown}" for f
      using that 1 by (auto simp: attributed_def share_sum_def share_value_def)
    ultimately show ?thesis by simp
  next
    case (2 f msg)
    with attributed_bucket [OF 2(2), of _ k d] show ?thesis by auto
  qed
  show "attributed e k FPhysical d = 0 \<or> attributed e k FAvoided d = 0 \<and> attributed e k FStranded d = 0"
  proof (cases "is_consumption_class (e_classification e)")
    case True
    then have "e_avoided_work e = None" "e_stranded_capacity e = None"
      using assms(2) consistent_consumption by blast+
    then show ?thesis
      using attributed_le(2,3) [of e k d] by simp
  next
    case False
    then have "e_usage e = zero_totals"
      using assms by (intro consistent_nonconsumption)
    then show ?thesis
      using attributed_le(1) [of e k d] by simp
  qed
qed

text \<open>
  The merge keeps an account closed even where it stops half way: within a dimension the physical
  counter is the first that can overflow, and a dimension is completed before the next begins.
\<close>

lemma merge_dimension_closed:
  assumes "closed_aggregate dst" and "closed_values (\<lambda>f. fget f agg)"
  shows "closed_aggregate (snd (stmts
       [bump ag_physical ag_physical_update ''physical overflow'' d (ag_physical agg d),
        bump ag_avoided ag_avoided_update ''avoided overflow'' d (ag_avoided agg d),
        bump ag_stranded ag_stranded_update ''stranded overflow'' d (ag_stranded agg d),
        bump ag_useful ag_useful_update ''useful overflow'' d (ag_useful agg d),
        bump ag_overhead ag_overhead_update ''overhead overflow'' d (ag_overhead agg d),
        bump ag_waste ag_waste_update ''waste overflow'' d (ag_waste agg d),
        bump ag_unknown ag_unknown_update ''unknown overflow'' d (ag_unknown agg d)] dst))"
proof -
  have row: "unat (ag_useful dst d) + unat (ag_overhead dst d) + unat (ag_waste dst d) + unat (ag_unknown dst d) =
      unat (ag_physical dst d)"
    using assms(1) by (simp add: closed_aggregate_def)
  have add: "unat (ag_useful agg d) + unat (ag_overhead agg d) + unat (ag_waste agg d) + unat (ag_unknown agg d) =
      unat (ag_physical agg d)"
    and one: "ag_physical agg d = 0 \<or> ag_avoided agg d = 0 \<and> ag_stranded agg d = 0"
    using assms(2) by (auto simp: closed_values_def)
  show ?thesis
  proof (cases "checked_add (ag_physical dst d) (ag_physical agg d)")
    case None
    with assms(1) show ?thesis by (simp add: bump_def)
  next
    case (Some p)
    then have p: "unat p = unat (ag_physical dst d) + unat (ag_physical agg d)"
      by (simp add: checked_add_Some_iff)
    have fit: "checked_add x y = Some (x + y) \<and> unat (x + y) = unat x + unat y"
      if "unat x + unat y \<le> unat p" for x y
    proof -
      have "unat x + unat y < 18446744073709551616"
        using that unat_u64_less [of p] by linarith
      then show ?thesis by (simp add: checked_add_ok unat_add_u64)
    qed
    have fits: "checked_add (ag_useful dst d) (ag_useful agg d) = Some (ag_useful dst d + ag_useful agg d)"
        "checked_add (ag_overhead dst d) (ag_overhead agg d) = Some (ag_overhead dst d + ag_overhead agg d)"
        "checked_add (ag_waste dst d) (ag_waste agg d) = Some (ag_waste dst d + ag_waste agg d)"
        "checked_add (ag_unknown dst d) (ag_unknown agg d) = Some (ag_unknown dst d + ag_unknown agg d)"
        "unat (ag_useful dst d + ag_useful agg d) = unat (ag_useful dst d) + unat (ag_useful agg d)"
        "unat (ag_overhead dst d + ag_overhead agg d) = unat (ag_overhead dst d) + unat (ag_overhead agg d)"
        "unat (ag_waste dst d + ag_waste agg d) = unat (ag_waste dst d) + unat (ag_waste agg d)"
        "unat (ag_unknown dst d + ag_unknown agg d) = unat (ag_unknown dst d) + unat (ag_unknown agg d)"
      using row add p by (intro fit [THEN conjunct1] fit [THEN conjunct2], linarith)+
    show ?thesis
    proof (cases "ag_physical agg d = 0")
      case True
      with add have "ag_useful agg d = 0" "ag_overhead agg d = 0" "ag_waste agg d = 0" "ag_unknown agg d = 0"
        by (simp_all add: unat_eq_zero)
      with True assms(1) show ?thesis
        by (auto simp: bump_def closed_aggregate_def split: option.splits)
    next
      case False
      have both: "unat (ag_useful dst d) + unat (ag_useful agg d) + (unat (ag_overhead dst d) + unat (ag_overhead agg d)) +
          (unat (ag_waste dst d) + unat (ag_waste agg d)) + (unat (ag_unknown dst d) + unat (ag_unknown agg d)) = unat p"
        using row add p by linarith
      with False one assms(1) Some fits show ?thesis
        by (simp add: bump_def closed_aggregate_def)
    qed
  qed
qed

lemma merge_aggregate_closed:
  assumes "closed_aggregate dst" and "closed_values (\<lambda>f. fget f agg)"
  shows "closed_aggregate (snd (merge_aggregate agg dst))"
  unfolding merge_aggregate_def
  by (rule for_each_invariant [where P = closed_aggregate]) (use assms merge_dimension_closed in blast)+


lemma merge_account_closed:
  assumes "closed_accounts accs" and "closed_values (\<lambda>f. fget f (snd p))"
  shows "closed_accounts (snd (merge_account p accs))"
proof (cases "map_of accs (fst p)")
  case None
  have "closed_aggregate (snd p)"
    using assms(2) by (auto simp: closed_values_def closed_aggregate_def)
  with None assms(1) show ?thesis
    by (simp add: merge_account_def closed_accounts_update)
next
  case (Some dst)
  then have "closed_aggregate dst"
    using closed_agg_of [OF assms(1), of "fst p"] by (simp add: agg_of_def)
  then have "closed_aggregate (snd (merge_aggregate (snd p) dst))"
    using assms(2) by (rule merge_aggregate_closed)
  with Some assms(1) show ?thesis
    by (auto simp: merge_account_def closed_accounts_update split: prod.splits)
qed

lemma apply_attribution_keys:
  assumes "distinct (map fst (l_accounts l))"
  shows "distinct (map fst (l_accounts (snd (apply_attribution ho e attr l))))"
proof -
  have "distinct (map fst (snd (for_each merge_account ps (l_accounts l))))" for ps
    by (rule for_each_invariant [where P = "\<lambda>m. distinct (map fst m)"])
      (use assms in \<open>auto simp: merge_account_def split: option.splits prod.splits\<close>)
  then show ?thesis
    using assms by (auto simp: apply_attribution_def split: option.splits prod.splits) (metis snd_conv)+
qed

lemma apply_attribution_closed:
  assumes "closed_accounts (l_accounts l)" and "LedgerEntry_validate e"
    and "Status_ok (check_classification_consistency e)"
  shows "closed_accounts (l_accounts (snd (apply_attribution ho e (compute_attribution e) l)))"
proof -
  obtain pending where pend:
    "for_each (pending_share (e_classification e)) (ar_shares (compute_attribution e)) [] = (None, pending)"
    and dist: "distinct (map fst pending)"
    and cells: "\<And>k f d. cell_of pending k f d = attributed e k f d"
    by (rule pending_of_entry) blast
  have rows: "closed_values (\<lambda>f. fget f (snd p))" if "p \<in> set (in_order ho pending)" for p
  proof -
    have "map_of pending (fst p) = Some (snd p)"
      using that unfolding set_in_order [OF dist] by (intro map_of_is_SomeI dist) simp
    then have "agg_of pending (fst p) = snd p" by (simp add: agg_of_def)
    then have "unat (fget f (snd p) d) = attributed e (fst p) f d" for f d
      using cells [of "fst p" f d] by (simp add: cell_of_def)
    then show ?thesis
      using attributed_closed [OF assms(2,3), of "fst p"] 
      by (simp add: closed_values_def del: fget.simps flip: unat_eq_zero)
  qed
  have "closed_accounts (snd (for_each merge_account (in_order ho pending) (l_accounts l)))"
    by (rule for_each_invariant [where P = closed_accounts]) (use assms(1) rows merge_account_closed in blast)+
  then show ?thesis
    by (auto simp: apply_attribution_def pend split: option.splits prod.splits)
qed

end
