(* ===== verification/EL_Reclassify.thy ===== *)
theory EL_Reclassify
  imports EL_Append
begin

text \<open>
  Reclassification: what a revision moves between the buckets of an account, when the move
  succeeds, and that a move that succeeds keeps accounts closed and every other counter as it was.
\<close>

section \<open>One bucket\<close>

lemma move_cells_walk:
  "move_cells step (fget f) (fupd f) msg v =
     run_cells step (\<lambda>_. v) (map (\<lambda>d. (f, Status ErrorCode_kReconciliationFailure msg, d)) dims)"
proof -
  have "(\<lambda>d agg. case step (fget f agg d) (v d) of
        None \<Rightarrow> (Some (Status ErrorCode_kReconciliationFailure msg), agg)
      | Some nv \<Rightarrow> (None, fupd f (\<lambda>t. t(d := nv)) agg)) =
    (\<lambda>d. cell_step step (\<lambda>_. v) (f, Status ErrorCode_kReconciliationFailure msg, d))"
    by (simp add: fun_eq_iff)
  then show ?thesis
    unfolding move_cells_def by (simp only:) (rule ext, simp add: for_each_map)
qed

lemma move_cells_ok_iff:
  "fst (move_cells step (fget f) (fupd f) msg v a) = None \<longleftrightarrow> (\<forall>d. step (fget f a d) (v d) \<noteq> None)"
proof -
  let ?cells = "map (\<lambda>d. (f, Status ErrorCode_kReconciliationFailure msg, d)) dims"
  have "distinct (map cell_key ?cells)"
    by (simp add: dims_def)
  then show ?thesis
    unfolding move_cells_walk by (simp add: run_cells_None_iff UNIV_dims [symmetric])
qed

lemma move_cells_ok:
  assumes "fst (move_cells step (fget f) (fupd f) msg v a) = None"
  shows "fget g (snd (move_cells step (fget f) (fupd f) msg v a)) d =
    (if g = f then the (step (fget f a d) (v d)) else fget g a d)"
proof -
  let ?cells = "map (\<lambda>d. (f, Status ErrorCode_kReconciliationFailure msg, d)) dims"
  have dist: "distinct (map cell_key ?cells)"
    by (simp add: dims_def)
  have "(g, d) \<in> cell_key ` set ?cells \<longleftrightarrow> g = f"
    by (force simp: image_iff)
  then show ?thesis
    using run_cells_None [OF dist assms [unfolded move_cells_walk], of g d] unfolding move_cells_walk by auto
qed

section \<open>One share\<close>

text \<open>
  \<open>transferred a b m x x'\<close>: the amounts \<open>m\<close> left the field \<open>a\<close> and entered the field \<open>b\<close>; nothing
  else changed. Written with sums so that it is exact over the naturals.
\<close>

definition transferred ::
    "agg_field \<Rightarrow> agg_field \<Rightarrow> (ResourceDimension \<Rightarrow> nat) \<Rightarrow> AccountAggregate \<Rightarrow> AccountAggregate \<Rightarrow> bool" where
  "transferred a b m x x' \<longleftrightarrow>
     (\<forall>f d. unat (fget f x' d) + (if f = a then m d else 0) = unat (fget f x d) + (if f = b then m d else 0))"

lemma transfer_buckets:
  assumes old: "class_bucket c = Some (fget a, fupd a, m1)" and new: "class_bucket c' = Some (fget b, fupd b, m2)"
    and ok: "fst (stmts [move_bucket checked_sub c u v, move_bucket checked_add c' w v] x) = None"
  shows "transferred a b (\<lambda>d. unat (v d)) x
    (snd (stmts [move_bucket checked_sub c u v, move_bucket checked_add c' w v] x))"
proof -
  let ?sub = "move_cells checked_sub (fget a) (fupd a) u v"
  let ?add = "move_cells checked_add (fget b) (fupd b) w v"
  have sub: "fst (?sub x) = None" and add: "fst (?add (snd (?sub x))) = None"
    and res: "snd (stmts [move_bucket checked_sub c u v, move_bucket checked_add c' w v] x) = snd (?add (snd (?sub x)))"
    using ok by (auto simp: move_bucket_def old new split: prod.splits option.splits)
  note out = move_cells_ok [OF sub] and into = move_cells_ok [OF add]
  have le: "unat (v d) \<le> unat (fget a x d)" for d
    using sub by (simp add: move_cells_ok_iff checked_sub_None_iff not_less)
  have left: "unat (fget a (snd (?sub x)) d) + unat (v d) = unat (fget a x d)" for d
    using sub [unfolded move_cells_ok_iff, rule_format, of d] out [of a d]
    by (auto simp: checked_sub_Some_iff [THEN iffD1])
  have entered: "unat (fget b (snd (?add (snd (?sub x)))) d) = unat (fget b (snd (?sub x)) d) + unat (v d)" for d
    using add [unfolded move_cells_ok_iff, rule_format, of d] into [of b d]
    by (auto dest: checked_add_Some_iff [THEN iffD1])
  show ?thesis
    unfolding transferred_def res
  proof (intro allI)
    fix f d
    show "unat (fget f (snd (?add (snd (?sub x)))) d) + (if f = a then unat (v d) else 0) =
        unat (fget f x d) + (if f = b then unat (v d) else 0)"
      using left [of d] entered [of d] out [of f d] into [of f d] by auto
  qed
qed

lemma transferred_closed:
  assumes "transferred a b m x x'" and "closed_aggregate x"
    and "a \<in> {FUseful, FOverhead, FWaste, FUnknown}" and "b \<in> {FUseful, FOverhead, FWaste, FUnknown}"
  shows "closed_aggregate x'"
proof -
  note eq = assms(1) [unfolded transferred_def, rule_format]
  have "unat (ag_useful x' d) + unat (ag_overhead x' d) + unat (ag_waste x' d) + unat (ag_unknown x' d) =
      unat (ag_physical x' d)" for d
    using assms(2-) eq [of FUseful d] eq [of FOverhead d] eq [of FWaste d] eq [of FUnknown d] eq [of FPhysical d]
    by (auto simp: closed_aggregate_def dest!: spec [of _ d])
  then show ?thesis by (simp add: closed_aggregate_def)
qed

section \<open>All the shares of the target\<close>

definition moved ::
    "agg_field \<Rightarrow> agg_field \<Rightarrow> (AccountId \<Rightarrow> ResourceDimension \<Rightarrow> nat) \<Rightarrow> Accounts \<Rightarrow> Accounts \<Rightarrow> bool" where
  "moved a b m accs accs' \<longleftrightarrow>
     map fst accs' = map fst accs \<and>
     (\<forall>k f d. cell_of accs' k f d + (if f = a then m k d else 0) = cell_of accs k f d + (if f = b then m k d else 0))"

lemma moved_cell:
  "moved a b m accs accs' \<Longrightarrow>
   cell_of accs' k f d + (if f = a then m k d else 0) = cell_of accs k f d + (if f = b then m k d else 0)"
  unfolding moved_def by blast

lemma reclassify_share_ok:
  assumes old: "class_bucket c = Some (fget a, fupd a, m1)" and new: "class_bucket c' = Some (fget b, fupd b, m2)"
    and known: "as_account sh \<in> fst ` set accs \<or> as_physical sh = zero_totals"
    and run: "reclassify_share c c' sh accs = (None, accs')"
  shows "moved a b (\<lambda>k d. if as_account sh = k then unat (as_physical sh d) else 0) accs accs'"
proof (cases "as_account sh \<in> fst ` set accs")
  case False
  then have "map_of accs (as_account sh) = None"
    by (simp add: map_of_eq_None_iff)
  with False known run show ?thesis
    by (simp add: reclassify_share_def moved_def)
next
  case key: True
  let ?k = "as_account sh"
  obtain agg where agg: "map_of accs ?k = Some agg"
    using key by (metis domIff dom_map_of_conv_image_fst option.exhaust)
  let ?run = "stmts [move_bucket checked_sub c ''reclassify underflow'' (as_physical sh),
      move_bucket checked_add c' ''reclassify overflow'' (as_physical sh)] agg"
  have ok: "fst ?run = None" and accs': "accs' = AList.update ?k (snd ?run) accs"
    using run agg by (auto simp: reclassify_share_def split: prod.splits)
  have "transferred a b (\<lambda>d. unat (as_physical sh d)) (agg_of accs ?k) (snd ?run)"
    using transfer_buckets [OF old new ok] agg by (simp add: agg_of_def)
  note eq = this [unfolded transferred_def, rule_format]
  show ?thesis
    unfolding accs' moved_def cell_of_def agg_of_update keys_update
  proof (intro conjI allI)
    fix k f d
    show "unat (fget f (if k = ?k then snd ?run else agg_of accs k) d) +
        (if f = a then if ?k = k then unat (as_physical sh d) else 0 else 0) =
      unat (fget f (agg_of accs k) d) + (if f = b then if ?k = k then unat (as_physical sh d) else 0 else 0)"
      using eq [of f d] by (cases "k = ?k") (simp_all del: stmts_Cons split: if_splits)
  qed (use key in simp)
qed

lemma reclassify_loop_ok:
  assumes old: "class_bucket c = Some (fget a, fupd a, m1)" and new: "class_bucket c' = Some (fget b, fupd b, m2)"
    and "\<And>sh. sh \<in> set shs \<Longrightarrow> as_account sh \<in> fst ` set accs \<or> as_physical sh = zero_totals"
    and "for_each (reclassify_share c c') shs accs = (None, accs')"
  shows "moved a b (\<lambda>k d. share_sum c shs k FPhysical d) accs accs'"
  using assms(3,4)
proof (induction shs arbitrary: accs)
  case Nil
  then show ?case by (simp add: moved_def)
next
  case (Cons sh shs)
  obtain accs1 where step: "reclassify_share c c' sh accs = (None, accs1)"
    and rest: "for_each (reclassify_share c c') shs accs1 = (None, accs')"
    using Cons.prems(2) by (auto split: prod.splits option.splits)
  have first: "moved a b (\<lambda>k d. if as_account sh = k then unat (as_physical sh d) else 0) accs accs1"
    using Cons.prems(1) by (intro reclassify_share_ok [OF old new _ step]) simp
  then have keys: "fst ` set accs1 = fst ` set accs"
    by (metis moved_def list.set_map)
  from Cons.IH [OF _ rest] Cons.prems(1) keys
  have second: "moved a b (\<lambda>k d. share_sum c shs k FPhysical d) accs1 accs'" by simp
  have "cell_of accs' k f d + (if f = a then share_sum c (sh # shs) k FPhysical d else 0) =
      cell_of accs k f d + (if f = b then share_sum c (sh # shs) k FPhysical d else 0)" for k f d
    using moved_cell [OF first, of k f d] moved_cell [OF second, of k f d]
    by (simp add: share_value_def split: if_splits)
  moreover have "map fst accs' = map fst accs"
    using first second by (simp add: moved_def)
  ultimately show ?case unfolding moved_def by blast
qed

lemma moved_closed:
  assumes "moved a b m accs accs'" and "closed_accounts accs" and "distinct (map fst accs)"
    and "a \<in> {FUseful, FOverhead, FWaste, FUnknown}" and "b \<in> {FUseful, FOverhead, FWaste, FUnknown}"
  shows "closed_accounts accs'"
  unfolding closed_accounts_def
proof clarify
  fix k x assume "(k, x) \<in> set accs'"
  moreover have "distinct (map fst accs')"
    using assms(1,3) by (simp add: moved_def)
  ultimately have x: "agg_of accs' k = x"
    by (simp add: agg_of_def map_of_is_SomeI)
  have "transferred a b (m k) (agg_of accs k) (agg_of accs' k)"
    using assms(1) by (simp add: moved_def transferred_def cell_of_def)
  then show "closed_aggregate x"
    unfolding x using closed_agg_of [OF assms(2)] assms(4,5) by (rule transferred_closed)
qed

text \<open>
  What an accepted revision does: with a target of a consumption class it moves exactly the
  physical amounts the target was attributed; with any other target it only enters the history.
\<close>

lemma revision_effect:
  assumes "apply_reclassify_locked r l = (st, l')" and "Status_ok st"
  obtains tid pos t where "e_revision_target r = Some tid" and "l_index l tid = Some pos" and "t = l_history l ! pos"
    and "is_consumption_class (e_classification t) \<longleftrightarrow> is_consumption_class (e_classification r)"
    and "\<exists>accs. l' = push_history r (l\<lparr>l_accounts := accs\<rparr>) \<and>
      (if is_consumption_class (e_classification t)
       then for_each (reclassify_share (e_classification t) (e_classification r)) (ar_shares (compute_attribution t)) (l_accounts l) = (None, accs)
       else accs = l_accounts l)"
proof -
  obtain tid pos where tid: "e_revision_target r = Some tid" and pos: "l_index l tid = Some pos"
    using assms by (auto simp: apply_reclassify_locked_def split: option.splits)
  let ?t = "l_history l ! pos"
  obtain res accs where loop:
    "for_each (reclassify_share (e_classification ?t) (e_classification r)) (ar_shares (compute_attribution ?t)) (l_accounts l) = (res, accs)"
    by fastforce
  note eqs = apply_reclassify_locked_def Let_def loop tid pos
  have same: "is_consumption_class (e_classification ?t) \<longleftrightarrow> is_consumption_class (e_classification r)"
    using assms by (auto simp: eqs split: if_splits)
  show ?thesis
  proof (cases "is_consumption_class (e_classification ?t)")
    case True
    have "res = None"
      using assms same True reclassify_loop_error loop by (cases res) (fastforce simp: eqs Status_ok_def)+
    with True assms(1) same loop show ?thesis
      by (intro that [OF tid pos refl same]) (auto simp: eqs)
  next
    case False
    with assms(1) same show ?thesis
      by (intro that [OF tid pos refl same] exI [of _ "l_accounts l"]) (simp add: eqs)
  qed
qed

text \<open>A revision that fails after it passed the checks keeps what its loop had already moved.\<close>

lemma revision_failed:
  assumes "apply_reclassify_locked r l = (st, l')" and "\<not> Status_ok st" and "l' \<noteq> l"
  obtains shs c where "status_code st = ErrorCode_kReconciliationFailure"
    and "l' = l\<lparr>l_accounts := snd (for_each (reclassify_share c (e_classification r)) shs (l_accounts l))\<rparr>"
proof -
  obtain tid pos where tid: "e_revision_target r = Some tid" and pos: "l_index l tid = Some pos"
    using assms by (auto simp: apply_reclassify_locked_def split: option.splits)
  let ?t = "l_history l ! pos"
  obtain res accs where loop:
    "for_each (reclassify_share (e_classification ?t) (e_classification r)) (ar_shares (compute_attribution ?t)) (l_accounts l) = (res, accs)"
    by fastforce
  have res: "res = Some st \<and> l' = l\<lparr>l_accounts := accs\<rparr>"
    using assms by (auto simp: apply_reclassify_locked_def Let_def tid pos loop split: if_splits option.splits)
  then have "status_code st = ErrorCode_kReconciliationFailure"
    using loop by (metis reclassify_loop_error)
  moreover have "l' = l\<lparr>l_accounts := snd (for_each (reclassify_share (e_classification ?t) (e_classification r))
      (ar_shares (compute_attribution ?t)) (l_accounts l))\<rparr>"
    using res loop by simp
  ultimately show ?thesis by (rule that)
qed

end
