(* ===== verification/EL_Invariants.thy ===== *)
theory EL_Invariants
  imports EL_Reclassify
begin

text \<open>
  The mutating operations of the ledger as one transition system, the states it can reach, and the
  invariants of those states: the index describes the history, accounts have distinct keys and
  close, and the rules that decide which entries may enter the history. An invariant is an
  interpretation of the locale \<open>ledger_invariant\<close>, which asks only what concerns one \<open>append\<close>.
\<close>

section \<open>The transition system\<close>

datatype ledger_call =
    Append LedgerEntry
  | AppendAll "LedgerEntry list"
  | Reclassify ReclassifyRequest
  | LoadHistory "LedgerEntry list"
  | AdoptHeader LedgerId CoordinatorEpoch LedgerGeneration AccountGeneration
  | AdvanceEpoch
  | SetEpoch CoordinatorEpoch
  | SetLedgerGeneration LedgerGeneration
  | SetAccountGeneration AccountGeneration
  | SetSystemGeneration LedgerGeneration AccountGeneration
  | RegisterWorker WorkerBootId
  | UnregisterWorker WorkerBootId
  | SetShuttingDown

fun call :: "AccountId hash_order \<Rightarrow> ledger_call \<Rightarrow> EfficiencyLedger \<Rightarrow> Status \<times> EfficiencyLedger" where
  "call ho (Append e) l = append_locked ho e l"
| "call ho (AppendAll es) l = append_all ho es l"
| "call ho (Reclassify req) l = reclassify ho req l"
| "call ho (LoadHistory es) l = load_history ho es l"
| "call ho (AdoptHeader lid ep lg ag) l = (Status_success, adopt_header lid ep lg ag l)"
| "call ho AdvanceEpoch l = (Status_success, advance_epoch l)"
| "call ho (SetEpoch ep) l = (Status_success, set_epoch ep l)"
| "call ho (SetLedgerGeneration g) l = (Status_success, set_ledger_generation g l)"
| "call ho (SetAccountGeneration g) l = (Status_success, set_account_generation g l)"
| "call ho (SetSystemGeneration lg ag) l = (Status_success, set_system_generation lg ag l)"
| "call ho (RegisterWorker b) l = (Status_success, register_worker b l)"
| "call ho (UnregisterWorker b) l = (Status_success, unregister_worker b l)"
| "call ho SetShuttingDown l = (Status_success, set_shutting_down l)"

text \<open>
  The states reachable by calls none of which returned an error of \<open>faults\<close>; every other error may
  have been returned any number of times.
\<close>

inductive reachable :: "ErrorCode set \<Rightarrow> EfficiencyLedger \<Rightarrow> bool" for faults where
  start: "reachable faults (EfficiencyLedger_new lid)"
| step: "reachable faults l \<Longrightarrow> call ho c l = (st, l') \<Longrightarrow> status_code st \<notin> faults \<Longrightarrow> reachable faults l'"

lemma reachable_mono: "reachable faults l \<Longrightarrow> faults' \<subseteq> faults \<Longrightarrow> reachable faults' l"
proof (induction rule: reachable.induct)
  case (step l ho c st l')
  then show ?case by (blast intro: reachable.step)
qed (rule reachable.start)

text \<open>The part of the state that is derived from the entries.\<close>

definition same_books :: "EfficiencyLedger \<Rightarrow> EfficiencyLedger \<Rightarrow> bool" where
  "same_books l l' \<longleftrightarrow>
     l_history l' = l_history l \<and> l_index l' = l_index l \<and> l_attempts l' = l_attempts l \<and>
     l_transfer_completed l' = l_transfer_completed l \<and> l_reservation_released l' = l_reservation_released l \<and>
     l_allocation_released l' = l_allocation_released l \<and> l_recovery_completed l' = l_recovery_completed l \<and>
     l_accounts l' = l_accounts l"

lemma same_books_authority [simp]:
  "same_books l (advance_epoch l)" "same_books l (set_epoch ep l)" "same_books l (set_ledger_generation lg l)"
  "same_books l (set_account_generation ag l)" "same_books l (set_system_generation lg ag l)"
  "same_books l (register_worker b l)" "same_books l (unregister_worker b l)" "same_books l (set_shutting_down l)"
  "same_books l (l\<lparr>l_replaying := r\<rparr>)"
  by (simp_all add: same_books_def advance_epoch_def set_epoch_def set_ledger_generation_def
      set_account_generation_def set_system_generation_def register_worker_def unregister_worker_def
      set_shutting_down_def)

lemma clear_books_new: "clear_books (EfficiencyLedger_new lid) = EfficiencyLedger_new lid"
  by (simp add: clear_books_def EfficiencyLedger_new_def)

section \<open>Invariants\<close>

locale ledger_invariant =
  fixes faults :: "ErrorCode set" and I :: "EfficiencyLedger \<Rightarrow> bool"
  assumes ok_no_fault: "ErrorCode_kOk \<notin> faults"
    and cleared: "I (clear_books l)"
    and books_only: "I l \<Longrightarrow> same_books l l' \<Longrightarrow> I l'"
    and append_keeps: "I l \<Longrightarrow> append_locked ho e l = (st, l') \<Longrightarrow> status_code st \<notin> faults \<Longrightarrow> I l'"
begin

lemma append_all_keeps:
  "I l \<Longrightarrow> append_all ho es l = (st, l') \<Longrightarrow> status_code st \<notin> faults \<Longrightarrow> I l'"
proof (induction es arbitrary: l)
  case (Cons e es)
  obtain st1 l1 where one: "append_locked ho e l = (st1, l1)" by fastforce
  show ?case
  proof (cases "Status_ok st1")
    case True
    then have "I l1"
      using one Cons.prems(1) ok_no_fault by (intro append_keeps [of l ho e st1 l1]) (simp_all add: Status_ok_def)
    with True one Cons show ?thesis by simp
  next
    case False
    with one Cons.prems show ?thesis by (auto intro: append_keeps)
  qed
qed simp

lemma load_history_keeps:
  assumes "load_history ho es l = (st, l')" and "status_code st \<notin> faults"
  shows "I l'"
proof -
  obtain st1 l1 where run: "append_all ho es ((clear_books l)\<lparr>l_replaying := True\<rparr>) = (st1, l1)" by fastforce
  have "I ((clear_books l)\<lparr>l_replaying := True\<rparr>)"
    using cleared [of l] by (rule books_only) simp
  moreover have "status_code st1 \<notin> faults"
  proof (cases "Status_ok st1")
    case True
    with ok_no_fault show ?thesis by (simp add: Status_ok_def)
  next
    case False
    with assms run have "st = Status (status_code st1) (''replay failed: '' @ status_message st1)"
      by (simp add: load_history_def)
    with assms(2) show ?thesis by simp
  qed
  ultimately have "I l1" by (rule append_all_keeps [OF _ run])
  moreover have "l' = l1\<lparr>l_replaying := False\<rparr>"
    using assms(1) by (cases "Status_ok st1") (simp_all add: load_history_def run)
  then have "same_books l1 l'" by simp
  ultimately show ?thesis by (rule books_only)
qed

lemma call_keeps:
  assumes "I l" and "call ho c l = (st, l')" and "status_code st \<notin> faults"
  shows "I l'"
proof (cases c)
  case (Append e)
  with assms show ?thesis by (auto intro: append_keeps)
next
  case (AppendAll es)
  with assms show ?thesis by (auto intro: append_all_keeps)
next
  case (Reclassify req)
  with assms show ?thesis by (auto simp: reclassify_def intro: append_keeps)
next
  case (LoadHistory es)
  with assms show ?thesis by (auto intro: load_history_keeps)
next
  case (AdoptHeader lid ep lg ag)
  with assms show ?thesis by (auto simp: adopt_header_def cleared)
qed (use assms in \<open>auto elim!: books_only\<close>)

lemma reachable_keeps: "reachable faults l \<Longrightarrow> I l"
proof (induction rule: reachable.induct)
  case (start lid)
  show ?case using cleared [of "EfficiencyLedger_new lid"] by (simp add: clear_books_new)
next
  case (step l ho c st l')
  then show ?case by (blast intro: call_keeps)
qed

end

text \<open>
  What \<open>append\<close> does to the books, as cases: nothing; only the accounts (an arithmetic error);
  an ordinary entry; a revision.
\<close>

lemma append_cases:
  assumes "append_locked ho e l = (st, l')"
  obtains (refused) "l' = l" and "\<not> Status_ok st"
  | (overflow) accs where "status_code st = ErrorCode_kOverflow" and "e_event e \<noteq> EventType_kReclassify"
      and "LedgerEntry_validate e" and "Status_ok (check_classification_consistency e)"
      and "l' = l\<lparr>l_accounts := accs\<rparr>" and "l' = snd (apply_attribution ho e (compute_attribution e) l)"
  | (underflow) accs shs c where "status_code st = ErrorCode_kReconciliationFailure" and "e_event e = EventType_kReclassify"
      and "l' = l\<lparr>l_accounts := accs\<rparr>" and "accs = snd (for_each (reclassify_share c (e_classification e)) shs (l_accounts l))"
  | (entry) accs where "st = Status_success" and "e_event e \<noteq> EventType_kReclassify"
      and "LedgerEntry_validate e" and "l_index l (e_id e) = None"
      and "Status_ok (check_classification_consistency e)" and "Status_ok (check_authority l e)"
      and "lifecycle_gate e l = None"
      and "apply_attribution ho e (compute_attribution e) l = (Status_success, l\<lparr>l_accounts := accs\<rparr>)"
      and "l' = push_history e (record_attempt e (record_lifecycle e (l\<lparr>l_accounts := accs\<rparr>)))"
  | (revision) accs tid pos t where "st = Status_success" and "e_event e = EventType_kReclassify"
      and "LedgerEntry_validate e" and "l_index l (e_id e) = None"
      and "ResourceUsage_is_zero (e_usage e)" and "Status_ok (check_authority l e)"
      and "e_revision_target e = Some tid" and "l_index l tid = Some pos" and "t = l_history l ! pos"
      and "is_consumption_class (e_classification t) \<longleftrightarrow> is_consumption_class (e_classification e)"
      and "if is_consumption_class (e_classification t)
           then for_each (reclassify_share (e_classification t) (e_classification e)) (ar_shares (compute_attribution t)) (l_accounts l) = (None, accs)
           else accs = l_accounts l"
      and "l' = push_history e (l\<lparr>l_accounts := accs\<rparr>)"
proof (cases "e_event e = EventType_kReclassify")
  case rev: True
  show ?thesis
  proof (cases "Status_ok st")
    case True
    note acc = revision_accepted [OF assms True rev]
    have "st = Status_success"
      using apply_reclassify_code [OF acc(6)] True by (auto simp: Status_ok_def)
    moreover obtain tid pos t accs where "e_revision_target e = Some tid" "l_index l tid = Some pos" "t = l_history l ! pos"
      "is_consumption_class (e_classification t) \<longleftrightarrow> is_consumption_class (e_classification e)"
      "l' = push_history e (l\<lparr>l_accounts := accs\<rparr>)"
      "if is_consumption_class (e_classification t)
       then for_each (reclassify_share (e_classification t) (e_classification e)) (ar_shares (compute_attribution t)) (l_accounts l) = (None, accs)
       else accs = l_accounts l"
      by (rule revision_effect [OF acc(6) True]) blast
    ultimately show ?thesis
      using acc rev by (intro revision)
  next
    case False
    show ?thesis
    proof (cases "l' = l")
      case True
      then show ?thesis using False by (rule refused)
    next
      case changed: False
      then have run: "apply_reclassify_locked e l = (st, l')"
        using assms rev by (auto simp: append_locked_def split: if_splits)
      show ?thesis
        by (rule revision_failed [OF run False changed]) (rule underflow [OF _ rev _ refl])
    qed
  qed
next
  case ent: False
  show ?thesis
  proof (cases "Status_ok st")
    case True
    note acc = append_accepted [OF assms True ent]
    have "st = Status_success"
      using assms True ent by (auto simp: append_locked_def Let_def acc(6) split: if_splits prod.splits)
    moreover obtain accs where "apply_attribution ho e (compute_attribution e) l = (Status_success, l\<lparr>l_accounts := accs\<rparr>)"
      and "l' = push_history e (record_attempt e (record_lifecycle e (l\<lparr>l_accounts := accs\<rparr>)))"
      using acc(7) by blast
    ultimately show ?thesis by (intro entry acc ent)
  next
    case False
    obtain st1 l1 where app: "apply_attribution ho e (compute_attribution e) l = (st1, l1)" by fastforce
    obtain accs where accs: "l1 = l\<lparr>l_accounts := accs\<rparr>"
      using apply_attribution_accounts_only [of ho e "compute_attribution e" l] app by auto
    have "l' = l \<or> (st = st1 \<and> l' = l1 \<and> LedgerEntry_validate e \<and> Status_ok (check_classification_consistency e))"
      using assms False ent by (auto simp: append_locked_def Let_def app split: if_splits option.splits)
    with False ent app accs pending_phase_ok [OF app] show ?thesis
      by (auto intro: refused overflow)
  qed
qed

section \<open>Well-formed books\<close>

text \<open>
  The index is exactly the position of each id in the history, so ids are unique; accounts have
  distinct keys; every entry of the history is valid, and every ordinary entry passed the
  consistency check and has an account for each of its shares.
\<close>

definition index_ok :: "EfficiencyLedger \<Rightarrow> bool" where
  "index_ok l \<longleftrightarrow> (\<forall>k i. l_index l k = Some i \<longleftrightarrow> i < length (l_history l) \<and> e_id (l_history l ! i) = k)"

definition entry_ok :: "Accounts \<Rightarrow> LedgerEntry \<Rightarrow> bool" where
  "entry_ok accs e \<longleftrightarrow> LedgerEntry_validate e \<and>
     (if e_event e = EventType_kReclassify then ResourceUsage_is_zero (e_usage e)
      else Status_ok (check_classification_consistency e) \<and> touched e \<subseteq> fst ` set accs)"

definition wf_ledger :: "EfficiencyLedger \<Rightarrow> bool" where
  "wf_ledger l \<longleftrightarrow> index_ok l \<and> distinct (map fst (l_accounts l)) \<and>
     (\<forall>e \<in> set (l_history l). entry_ok (l_accounts l) e)"

lemma record_frame [simp]:
  "l_history (record_attempt e l) = l_history l" "l_history (record_lifecycle e l) = l_history l"
  "l_index (record_attempt e l) = l_index l" "l_index (record_lifecycle e l) = l_index l"
  "l_accounts (record_attempt e l) = l_accounts l" "l_accounts (record_lifecycle e l) = l_accounts l"
  "l_attempts (record_lifecycle e l) = l_attempts l"
  by (simp_all add: record_attempt_def record_lifecycle_def)

lemma push_history_fields [simp]:
  "l_history (push_history e l) = l_history l @ [e]"
  "l_index (push_history e l) = (l_index l)(e_id e \<mapsto> length (l_history l))"
  "l_accounts (push_history e l) = l_accounts l" "l_attempts (push_history e l) = l_attempts l"
  by (simp_all add: push_history_def)

lemma index_ok_push:
  assumes "index_ok l" and "l_index l (e_id e) = None"
    and "l_history l' = l_history l @ [e]" and "l_index l' = (l_index l)(e_id e \<mapsto> length (l_history l))"
  shows "index_ok l'"
  unfolding index_ok_def
proof (intro allI)
  fix k i
  have old: "l_index l k = Some j \<longleftrightarrow> j < length (l_history l) \<and> e_id (l_history l ! j) = k" for k j
    using assms(1) by (simp add: index_ok_def)
  show "l_index l' k = Some i \<longleftrightarrow> i < length (l_history l') \<and> e_id (l_history l' ! i) = k"
  proof (cases "i = length (l_history l)")
    case True
    with assms old [of k i] show ?thesis by auto
  next
    case False
    moreover have "e_id (l_history l ! i) \<noteq> e_id e" if "i < length (l_history l)"
      using that assms(2) old [of "e_id e" i] by auto
    ultimately show ?thesis
      using assms(3,4) old [of k i] by (auto simp: nth_append less_Suc_eq)
  qed
qed

lemma ids_unique: "index_ok l \<Longrightarrow> distinct (map e_id (l_history l))"
  unfolding index_ok_def distinct_conv_nth by (metis length_map nth_map option.inject)

lemma entry_ok_mono: "entry_ok accs e \<Longrightarrow> fst ` set accs \<subseteq> fst ` set accs' \<Longrightarrow> entry_ok accs' e"
  unfolding entry_ok_def by (auto elim: subset_trans [THEN subsetD])

text \<open>The keys of the accounts never shrink, whatever a failing loop leaves behind.\<close>

lemma merge_account_keys: "fst ` set (snd (merge_account p accs)) = insert (fst p) (fst ` set accs)"
  by (auto simp: merge_account_def dom_map_of_conv_image_fst [symmetric] split: option.splits prod.splits)

lemma apply_attribution_keys_mono:
  "fst ` set (l_accounts l) \<subseteq> fst ` set (l_accounts (snd (apply_attribution ho e attr l)))"
proof -
  have "fst ` set (l_accounts l) \<subseteq> fst ` set (snd (for_each merge_account ps (l_accounts l)))" for ps
    by (rule for_each_invariant [where P = "\<lambda>m. fst ` set (l_accounts l) \<subseteq> fst ` set m"])
      (auto simp: merge_account_keys)
  then show ?thesis
    by (auto simp: apply_attribution_def split: option.splits prod.splits) (metis snd_conv subsetD image_eqI fst_conv)+
qed

lemma reclassify_loop_keys:
  "map fst (snd (for_each (reclassify_share a b) shs accs)) = map fst accs"
proof (rule for_each_invariant [where P = "\<lambda>m. map fst m = map fst accs"])
  fix sh :: AttributionShare and m :: Accounts
  assume same: "map fst m = map fst accs"
  show "map fst (snd (reclassify_share a b sh m)) = map fst accs"
  proof (cases "map_of m (as_account sh)")
    case (Some agg)
    then have "as_account sh \<in> fst ` set m"
      by (metis domI dom_map_of_conv_image_fst)
    with Some same show ?thesis
      by (auto simp: reclassify_share_def keys_update split: prod.splits)
  qed (simp add: reclassify_share_def same)
qed simp

lemma entry_accounted:
  assumes dist: "distinct (map fst (l_accounts l))"
    and run: "apply_attribution ho e (compute_attribution e) l = (Status_success, l\<lparr>l_accounts := accs\<rparr>)"
  shows "entry_fits (l_accounts l) e" and "accounted (l_accounts l) e accs"
proof -
  show fits: "entry_fits (l_accounts l) e"
    using apply_attribution_spec(1) [OF dist, of ho e] run by (simp add: Status_ok_def Status_success_def)
  obtain accs' where "apply_attribution ho e (compute_attribution e) l = (Status_success, l\<lparr>l_accounts := accs'\<rparr>)"
    and acc: "accounted (l_accounts l) e accs'"
    using apply_attribution_spec(2) [OF dist fits] by blast
  then have "l\<lparr>l_accounts := accs'\<rparr> = l\<lparr>l_accounts := accs\<rparr>"
    using run by simp
  then have "l_accounts (l\<lparr>l_accounts := accs'\<rparr>) = l_accounts (l\<lparr>l_accounts := accs\<rparr>)"
    by (rule arg_cong)
  with acc show "accounted (l_accounts l) e accs" by simp
qed

lemma append_wf:
  assumes wf: "wf_ledger l" and run: "append_locked ho e l = (st, l')"
  shows "wf_ledger l'"
  using run
proof (cases rule: append_cases)
  case refused
  with wf show ?thesis by simp
next
  case (overflow accs)
  moreover have "distinct (map fst (l_accounts l'))"
    using wf apply_attribution_keys [of l ho e "compute_attribution e"] overflow(6) by (simp add: wf_ledger_def)
  moreover have "fst ` set (l_accounts l) \<subseteq> fst ` set (l_accounts l')"
    using apply_attribution_keys_mono [of l ho e "compute_attribution e"] overflow(6) by simp
  ultimately show ?thesis
    using wf by (auto simp: wf_ledger_def index_ok_def intro: entry_ok_mono)
next
  case (underflow accs shs c)
  then have keys: "map fst accs = map fst (l_accounts l)"
    by (simp add: reclassify_loop_keys)
  then have "fst ` set accs = fst ` set (l_accounts l)"
    by (metis list.set_map)
  then have "entry_ok accs x" if "x \<in> set (l_history l)" for x
    using that wf unfolding wf_ledger_def by (metis entry_ok_mono subset_refl)
  with keys wf show ?thesis
    unfolding underflow(3) by (simp add: wf_ledger_def index_ok_def)
next
  case (entry accs)
  have dist: "distinct (map fst (l_accounts l))" using wf by (simp add: wf_ledger_def)
  have acc: "accounted (l_accounts l) e accs"
    by (rule entry_accounted(2) [OF dist entry(8)])
  then have keys: "fst ` set accs = fst ` set (l_accounts l) \<union> touched e"
    by (simp add: accounted_def)
  have "index_ok l'"
    by (rule index_ok_push [of l e]) (use wf entry(4) in \<open>simp_all add: wf_ledger_def entry(9)\<close>)
  moreover have "entry_ok accs e"
    using entry(2,3,5) keys by (simp add: entry_ok_def)
  moreover have "entry_ok accs x" if "x \<in> set (l_history l)" for x
    using that wf keys unfolding wf_ledger_def by (metis entry_ok_mono Un_upper1)
  ultimately show ?thesis
    using acc by (auto simp: wf_ledger_def accounted_def entry(9))
next
  case (revision accs tid pos t)
  have keys: "map fst accs = map fst (l_accounts l)"
    using revision(11) reclassify_loop_keys [of "e_classification t" "e_classification e" "ar_shares (compute_attribution t)" "l_accounts l"]
    by (auto split: if_splits)
  then have set_keys: "fst ` set accs = fst ` set (l_accounts l)"
    by (metis list.set_map)
  have "index_ok l'"
    by (rule index_ok_push [of l e]) (use wf revision(4) in \<open>simp_all add: wf_ledger_def revision(12)\<close>)
  moreover have "entry_ok accs x" if "x \<in> set (l_history l)" for x
    using that wf set_keys unfolding wf_ledger_def by (metis entry_ok_mono subset_refl)
  ultimately show ?thesis
    using revision(2,3,5) keys wf by (auto simp: wf_ledger_def entry_ok_def revision(12))
qed

interpretation wf: ledger_invariant "{}" wf_ledger
proof
  show "wf_ledger (clear_books l)" for l
    by (simp add: wf_ledger_def index_ok_def clear_books_def)
  show "same_books l l' \<Longrightarrow> wf_ledger l'" if "wf_ledger l" for l l'
    using that by (auto simp: wf_ledger_def index_ok_def same_books_def)
qed (use append_wf in auto)

section \<open>Closed accounts\<close>

text \<open>A revision finds an account for every share that carries something to move.\<close>

lemma zero_usage_shares:
  assumes "ResourceUsage_is_zero (e_usage e)" and "sh \<in> set (ar_shares (compute_attribution e))"
  shows "as_physical sh = zero_totals"
proof
  fix d
  have "(\<Sum>sh \<leftarrow> ar_shares (compute_attribution e). unat (as_physical sh d)) = 0"
    using assms(1) by (simp add: compute_attribution_sum ResourceUsage_is_zero_iff)
  with assms(2) show "as_physical sh d = zero_totals d"
    by (simp add: unat_eq_zero)
qed

lemma shares_known:
  assumes wf: "wf_ledger l" and pos: "l_index l tid = Some pos" and t: "t = l_history l ! pos"
    and "sh \<in> set (ar_shares (compute_attribution t))"
  shows "as_account sh \<in> fst ` set (l_accounts l) \<or> as_physical sh = zero_totals"
proof -
  have "t \<in> set (l_history l)"
    using wf pos t by (simp add: wf_ledger_def index_ok_def)
  then have "entry_ok (l_accounts l) t"
    using wf by (simp add: wf_ledger_def)
  then show ?thesis
    using assms(4) zero_usage_shares [of t sh] unfolding entry_ok_def touched_def by (auto split: if_splits)
qed

lemma revision_moves:
  assumes wf: "wf_ledger l" and pos: "l_index l tid = Some pos" and t: "t = l_history l ! pos"
    and "is_consumption_class (e_classification t)" and "is_consumption_class (e_classification r)"
    and run: "for_each (reclassify_share (e_classification t) (e_classification r)) (ar_shares (compute_attribution t)) (l_accounts l) = (None, accs)"
  obtains a b where "bucket_field (e_classification t) = Some a" and "bucket_field (e_classification r) = Some b"
    and "a \<in> {FUseful, FOverhead, FWaste, FUnknown}" and "b \<in> {FUseful, FOverhead, FWaste, FUnknown}"
    and "moved a b (\<lambda>k d. attributed t k FPhysical d) (l_accounts l) accs"
proof -
  obtain a m1 where a: "class_bucket (e_classification t) = Some (fget a, fupd a, m1)"
    "bucket_field (e_classification t) = Some a" "a \<in> {FUseful, FOverhead, FWaste, FUnknown}"
    using assms(4) by (cases "e_classification t" rule: class_bucket_cases) auto
  obtain b m2 where b: "class_bucket (e_classification r) = Some (fget b, fupd b, m2)"
    "bucket_field (e_classification r) = Some b" "b \<in> {FUseful, FOverhead, FWaste, FUnknown}"
    using assms(5) by (cases "e_classification r" rule: class_bucket_cases) auto
  show ?thesis
    using reclassify_loop_ok [OF a(1) b(1) shares_known [OF wf pos t] run] a b by (intro that) (auto simp: attributed_def)
qed

definition closed_ledger :: "EfficiencyLedger \<Rightarrow> bool" where
  "closed_ledger l \<longleftrightarrow> wf_ledger l \<and> closed_accounts (l_accounts l)"

lemma append_closed:
  assumes inv: "closed_ledger l" and run: "append_locked ho e l = (st, l')"
    and "status_code st \<noteq> ErrorCode_kReconciliationFailure"
  shows "closed_ledger l'"
proof -
  have wf: "wf_ledger l" and closed: "closed_accounts (l_accounts l)"
    using inv by (simp_all add: closed_ledger_def)
  from run have "closed_accounts (l_accounts l')"
  proof (cases rule: append_cases)
    case refused
    with closed show ?thesis by simp
  next
    case (overflow accs)
    show ?thesis
      unfolding overflow(6) by (rule apply_attribution_closed [OF closed overflow(3,4)])
  next
    case (underflow accs shs c)
    with assms(3) show ?thesis by simp
  next
    case (entry accs)
    then show ?thesis using apply_attribution_closed [OF closed entry(3,5), of ho] by simp
  next
    case (revision accs tid pos t)
    show ?thesis
    proof (cases "is_consumption_class (e_classification t)")
      case True
      then have loop: "for_each (reclassify_share (e_classification t) (e_classification e)) (ar_shares (compute_attribution t)) (l_accounts l) = (None, accs)"
        and cls: "is_consumption_class (e_classification e)"
        using revision(10,11) by simp_all
      obtain a b where "a \<in> {FUseful, FOverhead, FWaste, FUnknown}" "b \<in> {FUseful, FOverhead, FWaste, FUnknown}"
        "moved a b (\<lambda>k d. attributed t k FPhysical d) (l_accounts l) accs"
        by (rule revision_moves [OF wf revision(8,9) True cls loop])
      then have "closed_accounts accs"
        using closed wf by (metis moved_closed wf_ledger_def)
      then show ?thesis by (simp add: revision(12))
    next
      case False
      with revision(11,12) closed show ?thesis by simp
    qed
  qed
  with append_wf [OF wf run] show ?thesis by (simp add: closed_ledger_def)
qed

interpretation closed: ledger_invariant "{ErrorCode_kReconciliationFailure}" closed_ledger
proof
  show "closed_ledger (clear_books l)" for l
    using wf.cleared [of l] by (simp add: closed_ledger_def clear_books_def)
  show "same_books l l' \<Longrightarrow> closed_ledger l'" if "closed_ledger l" for l l'
    using that wf.books_only [of l l'] by (simp add: closed_ledger_def same_books_def)
qed (use append_closed in auto)

end
