(* ===== verification/EL_Gates.thy ===== *)
theory EL_Gates
  imports EL_Invariants
begin

text \<open>
  Which entries the gates let into the history: USEFUL entries need an authoritative use, a
  transfer, reservation, allocation or recovery completes once, and the entries of one attempt
  follow each other in the order its fences prescribe, where revisions follow the ordinary entries
  before them and bind nothing.
\<close>

section \<open>USEFUL needs authority\<close>

definition useful_authorized :: "EfficiencyLedger \<Rightarrow> bool" where
  "useful_authorized l \<longleftrightarrow>
     (\<forall>e \<in> set (l_history l). e_event e \<noteq> EventType_kReclassify \<longrightarrow>
        e_classification e = EfficiencyClass_kUseful \<longrightarrow> is_authoritative_use e)"

lemma consistent_useful:
  "Status_ok (check_classification_consistency e) \<Longrightarrow> e_classification e = EfficiencyClass_kUseful \<Longrightarrow>
   is_authoritative_use e"
  by (auto simp: check_classification_consistency_def Let_def is_consumption_class_def split: if_splits)

interpretation useful: ledger_invariant "{}" useful_authorized
proof
  fix l ho e st l'
  assume inv: "useful_authorized l" and run: "append_locked ho e l = (st, l')"
  from run show "useful_authorized l'"
  proof (cases rule: append_cases)
    case (entry accs)
    with inv consistent_useful [OF entry(5)] show ?thesis
      by (auto simp: useful_authorized_def entry(9))
  qed (use inv in \<open>auto simp: useful_authorized_def\<close>)
qed (auto simp: useful_authorized_def clear_books_def same_books_def)

section \<open>At-most-once completions\<close>

text \<open>
  The four sets of completed lifecycles obey one contract: the gate refuses an owner that is
  recorded, recording an entry adds exactly its owner, and nothing else touches the set.
\<close>

definition recorded_once ::
    "(LedgerEntry \<Rightarrow> bool) \<Rightarrow> (LedgerEntry \<Rightarrow> 'tag Identity) \<Rightarrow> (EfficiencyLedger \<Rightarrow> 'tag Identity set) \<Rightarrow>
     EfficiencyLedger \<Rightarrow> bool" where
  "recorded_once completes owner recorded l \<longleftrightarrow>
     distinct (map owner (filter completes (l_history l))) \<and>
     set (map owner (filter completes (l_history l))) = recorded l"

locale completion_gate =
  fixes completes :: "LedgerEntry \<Rightarrow> bool" and owner :: "LedgerEntry \<Rightarrow> 'tag Identity"
    and recorded :: "EfficiencyLedger \<Rightarrow> 'tag Identity set"
  assumes gate: "lifecycle_gate e l = None \<Longrightarrow> completes e \<Longrightarrow> owner e \<notin> recorded l"
    and records: "recorded (record_lifecycle e l) = (if completes e then insert (owner e) (recorded l) else recorded l)"
    and no_revision: "completes e \<Longrightarrow> e_event e \<noteq> EventType_kReclassify"
    and frame: "recorded (l\<lparr>l_accounts := accs\<rparr>) = recorded l" "recorded (push_history e l) = recorded l"
      "recorded (record_attempt e l) = recorded l"
    and cleared: "recorded (clear_books l) = {}"
    and books_only: "same_books l l' \<Longrightarrow> recorded l' = recorded l"
begin

lemma append_once:
  assumes inv: "recorded_once completes owner recorded l" and run: "append_locked ho e l = (st, l')"
  shows "recorded_once completes owner recorded l'"
  using run
proof (cases rule: append_cases)
  case (entry accs)
  have "owner e \<notin> set (map owner (filter completes (l_history l)))" if "completes e"
    using gate [OF entry(7) that] inv by (simp add: recorded_once_def)
  with inv show ?thesis
    by (auto simp: recorded_once_def entry(9) frame records)
next
  case (revision accs tid pos t)
  then show ?thesis
    using inv no_revision [of e] by (auto simp: recorded_once_def frame)
qed (use inv in \<open>auto simp: recorded_once_def frame\<close>)

end

sublocale completion_gate \<subseteq> once: ledger_invariant "{}" "recorded_once completes owner recorded"
proof
  show "recorded_once completes owner recorded (clear_books l)" for l
    using cleared [of l] by (simp add: recorded_once_def clear_books_def)
  show "recorded_once completes owner recorded l'" if "recorded_once completes owner recorded l" "same_books l l'" for l l'
    using that books_only [OF that(2)] by (simp add: recorded_once_def same_books_def)
qed (use append_once in auto)

definition completes_transfer :: "LedgerEntry \<Rightarrow> bool" where
  "completes_transfer e \<longleftrightarrow> e_event e = EventType_kTransferCompleted \<and> id_valid (o_transfer (e_owners e))"

definition releases_reservation :: "LedgerEntry \<Rightarrow> bool" where
  "releases_reservation e \<longleftrightarrow> e_event e = EventType_kReservationReleased \<and> id_valid (o_reservation (e_owners e))"

definition releases_allocation :: "LedgerEntry \<Rightarrow> bool" where
  "releases_allocation e \<longleftrightarrow> e_event e = EventType_kAllocationReleased \<and> id_valid (o_allocation (e_owners e))"

definition ends_recovery :: "LedgerEntry \<Rightarrow> bool" where
  "ends_recovery e \<longleftrightarrow>
     (e_event e = EventType_kRecoveryCompleted \<or> e_event e = EventType_kRecoveryFailed) \<and> id_valid (o_recovery (e_owners e))"

lemmas completion_defs =
  completes_transfer_def releases_reservation_def releases_allocation_def ends_recovery_def
  lifecycle_gate_def is_lifecycle_completion_def record_lifecycle_def push_history_def record_attempt_def
  clear_books_def same_books_def

interpretation transfer: completion_gate completes_transfer "\<lambda>e. o_transfer (e_owners e)" l_transfer_completed
  by unfold_locales (auto simp: completion_defs split: if_splits)

interpretation reservation: completion_gate releases_reservation "\<lambda>e. o_reservation (e_owners e)" l_reservation_released
  by unfold_locales (auto simp: completion_defs split: if_splits)

interpretation allocation: completion_gate releases_allocation "\<lambda>e. o_allocation (e_owners e)" l_allocation_released
  by unfold_locales (auto simp: completion_defs split: if_splits)

interpretation recovery: completion_gate ends_recovery "\<lambda>e. o_recovery (e_owners e)" l_recovery_completed
  by unfold_locales (auto simp: completion_defs split: if_splits)

section \<open>Attempts\<close>

definition attempt_entries :: "AttemptId \<Rightarrow> LedgerEntry list \<Rightarrow> LedgerEntry list" where
  "attempt_entries a h =
     filter (\<lambda>e. e_event e \<noteq> EventType_kReclassify \<and> has_attempt e \<and> at_id (e_attempt e) = a) h"

text \<open>
  The rule of one attempt: publications increase strictly, and after a terminal outcome there is no
  second outcome, no completion signal and no entry of another generation.
\<close>

definition may_follow :: "LedgerEntry \<Rightarrow> LedgerEntry \<Rightarrow> bool" where
  "may_follow x y \<longleftrightarrow>
     (id_valid (f_publication (e_fences x)) \<and> id_valid (f_publication (e_fences y)) \<longrightarrow>
        f_publication (e_fences x) < f_publication (e_fences y)) \<and>
     (has_outcome x \<longrightarrow> \<not> has_outcome y \<and> \<not> is_completion_signal y \<and>
        (id_valid (at_generation (e_attempt x)) \<and> id_valid (at_generation (e_attempt y)) \<longrightarrow>
           at_generation (e_attempt x) = at_generation (e_attempt y)))"

text \<open>What the recorded state of an attempt knows of the entries it was computed from.\<close>

definition attempt_state_of :: "LedgerEntry list \<Rightarrow> AttemptState" where
  "attempt_state_of es = fold update_attempt es AttemptState_default"

definition summarizes :: "LedgerEntry list \<Rightarrow> AttemptState \<Rightarrow> bool" where
  "summarizes es st \<longleftrightarrow>
     (\<forall>x \<in> set es.
        (has_outcome x \<longrightarrow> st_outcome st \<noteq> AttemptOutcome_kPending \<and> st_generation st = at_generation (e_attempt x)) \<and>
        (id_valid (f_publication (e_fences x)) \<longrightarrow>
           id_valid (st_last_publication st) \<and> f_publication (e_fences x) \<le> st_last_publication st))"

definition attempts_ok :: "EfficiencyLedger \<Rightarrow> bool" where
  "attempts_ok l \<longleftrightarrow> (\<forall>a.
     sorted_wrt may_follow (attempt_entries a (l_history l)) \<and>
     l_attempts l a = (if attempt_entries a (l_history l) = [] then None
                       else Some (attempt_state_of (attempt_entries a (l_history l)))))"

lemma summarizes_state:
  "sorted_wrt may_follow es \<Longrightarrow> summarizes es (attempt_state_of es)"
proof (induction es rule: rev_induct)
  case Nil
  then show ?case by (simp add: summarizes_def)
next
  case (snoc e es)
  let ?st = "attempt_state_of es"
  have IH: "summarizes es ?st" and follow: "\<forall>x \<in> set es. may_follow x e"
    using snoc by (simp_all add: sorted_wrt_append)
  have st: "attempt_state_of (es @ [e]) = update_attempt e ?st"
    by (simp add: attempt_state_of_def)
  show ?case
    unfolding summarizes_def st
  proof
    fix x assume "x \<in> set (es @ [e])"
    then show "(has_outcome x \<longrightarrow> st_outcome (update_attempt e ?st) \<noteq> AttemptOutcome_kPending \<and>
          st_generation (update_attempt e ?st) = at_generation (e_attempt x)) \<and>
        (id_valid (f_publication (e_fences x)) \<longrightarrow> id_valid (st_last_publication (update_attempt e ?st)) \<and>
          f_publication (e_fences x) \<le> st_last_publication (update_attempt e ?st))"
      using IH follow
      by (auto simp: summarizes_def may_follow_def update_attempt_def Let_def has_outcome_def not_less)
  qed
qed

lemma authority_follows:
  assumes "Status_ok (check_attempt_authority st e)" and "summarizes es st" and "x \<in> set es"
  shows "may_follow x e"
  using assms
  by (auto simp: check_attempt_authority_def summarizes_def may_follow_def Status_ok_def split: if_splits)

lemma accepted_follows:
  assumes "attempts_ok l" and "Status_ok (check_authority l e)" and "has_attempt e"
    and "x \<in> set (attempt_entries (at_id (e_attempt e)) (l_history l))"
  shows "may_follow x e"
proof (rule authority_follows)
  let ?es = "attempt_entries (at_id (e_attempt e)) (l_history l)"
  have "?es \<noteq> []" using assms(4) by auto
  then have "l_attempts l (at_id (e_attempt e)) = Some (attempt_state_of ?es)"
    using assms(1) by (simp add: attempts_ok_def)
  then show "Status_ok (check_attempt_authority (attempt_state_of ?es) e)"
    using assms(2,3) by (auto simp: check_authority_def Status_ok_def split: if_splits)
  show "summarizes ?es (attempt_state_of ?es)"
    using assms(1) by (intro summarizes_state) (simp add: attempts_ok_def)
qed (rule assms(4))

lemma append_attempts:
  assumes inv: "attempts_ok l" and run: "append_locked ho e l = (st, l')"
  shows "attempts_ok l'"
  using run
proof (cases rule: append_cases)
  case (entry accs)
  have "sorted_wrt may_follow (attempt_entries a (l_history l')) \<and>
     l_attempts l' a = (if attempt_entries a (l_history l') = [] then None
                        else Some (attempt_state_of (attempt_entries a (l_history l'))))" for a
  proof (cases "has_attempt e \<and> at_id (e_attempt e) = a")
    case True
    let ?es = "attempt_entries a (l_history l)"
    have es: "attempt_entries a (l_history l') = ?es @ [e]"
      using True entry(2) by (simp add: entry(9) attempt_entries_def)
    have old: "sorted_wrt may_follow ?es"
      "l_attempts l a = (if ?es = [] then None else Some (attempt_state_of ?es))"
      using inv by (simp_all add: attempts_ok_def)
    have "may_follow x e" if "x \<in> set ?es" for x
      using accepted_follows [OF inv entry(6)] True that by blast
    moreover have "l_attempts l' a = Some (attempt_state_of (?es @ [e]))"
      using old(2) True by (simp add: entry(9) record_attempt_def attempt_state_of_def)
    ultimately show ?thesis
      using old(1) by (simp add: es sorted_wrt_append)
  next
    case False
    then have "l_attempts l' a = l_attempts l a"
      by (auto simp: entry(9) record_attempt_def)
    moreover have "attempt_entries a (l_history l') = attempt_entries a (l_history l)"
      using False by (auto simp: attempt_entries_def entry(9))
    ultimately show ?thesis
      using inv by (simp add: attempts_ok_def)
  qed
  then show ?thesis by (simp add: attempts_ok_def)
next
  case (revision accs tid pos t)
  then show ?thesis
    using inv by (simp add: attempts_ok_def attempt_entries_def)
qed (use inv in \<open>auto simp: attempts_ok_def\<close>)

interpretation attempts: ledger_invariant "{}" attempts_ok
proof
  show "attempts_ok (clear_books l)" for l
    by (simp add: attempts_ok_def attempt_entries_def clear_books_def)
  show "same_books l l' \<Longrightarrow> attempts_ok l'" if "attempts_ok l" for l l'
    using that by (simp add: attempts_ok_def same_books_def)
qed (use append_attempts in auto)

section \<open>Revisions of an attempt\<close>

text \<open>
  A revision carries an attempt, too. It is checked against the attempt table like any entry, but it
  is never recorded there: it must follow the ordinary entries before it, and constrains nothing.
\<close>

definition attempt_history :: "AttemptId \<Rightarrow> LedgerEntry list \<Rightarrow> LedgerEntry list" where
  "attempt_history a h = filter (\<lambda>e. has_attempt e \<and> at_id (e_attempt e) = a) h"

definition follows_ordinary :: "LedgerEntry \<Rightarrow> LedgerEntry \<Rightarrow> bool" where
  "follows_ordinary x y \<longleftrightarrow> (e_event x \<noteq> EventType_kReclassify \<longrightarrow> may_follow x y)"

definition histories_ok :: "EfficiencyLedger \<Rightarrow> bool" where
  "histories_ok l \<longleftrightarrow> attempts_ok l \<and> (\<forall>a. sorted_wrt follows_ordinary (attempt_history a (l_history l)))"

lemma history_append:
  assumes inv: "histories_ok l" and run: "append_locked ho e l = (st, l')"
  shows "histories_ok l'"
proof -
  have ok: "attempts_ok l" and sorted: "\<And>a. sorted_wrt follows_ordinary (attempt_history a (l_history l))"
    using inv by (simp_all add: histories_ok_def)
  have snoc: "\<forall>a. sorted_wrt follows_ordinary (attempt_history a (l_history l @ [e]))" if auth: "Status_ok (check_authority l e)"
  proof
    fix a
    have "follows_ordinary x e" if "x \<in> set (attempt_history a (l_history l))" "has_attempt e" "at_id (e_attempt e) = a" for x
      using accepted_follows [OF ok auth that(2), of x] that(1,3)
      by (auto simp: follows_ordinary_def attempt_history_def attempt_entries_def)
    then show "sorted_wrt follows_ordinary (attempt_history a (l_history l @ [e]))"
      using sorted [of a] by (auto simp: attempt_history_def sorted_wrt_append)
  qed
  have "\<forall>a. sorted_wrt follows_ordinary (attempt_history a (l_history l'))"
    using run
  proof (cases rule: append_cases)
    case (entry accs)
    with snoc show ?thesis by simp
  next
    case (revision accs tid pos t)
    with snoc show ?thesis by simp
  qed (use sorted in simp_all)
  with append_attempts [OF ok run] show ?thesis by (simp add: histories_ok_def)
qed

interpretation histories: ledger_invariant "{}" histories_ok
proof
  show "histories_ok (clear_books l)" for l
    using attempts.cleared [of l] by (simp add: histories_ok_def attempt_history_def clear_books_def)
  show "same_books l l' \<Longrightarrow> histories_ok l'" if "histories_ok l" for l l'
    using that by (simp add: histories_ok_def attempts_ok_def same_books_def)
qed (use history_append in auto)

lemma revision_not_in_table:
  assumes "append_locked ho e l = (st, l')" and "e_event e = EventType_kReclassify"
  shows "l_attempts l' = l_attempts l"
  using assms by (cases rule: append_cases) (auto simp: push_history_def)

end
