(* ===== verification/EL_Books.thy ===== *)
theory EL_Books
  imports EL_Invariants
begin

text \<open>
  The abstract ledger: per account, counter and dimension one unbounded integer, computed from the
  history alone. As long as no call reported an overflow or a reconciliation failure, the 64-bit
  counters of the ledger are exactly these integers, whatever hash order was used on the way.
\<close>

section \<open>The abstract totals of a history\<close>

text \<open>
  What one entry contributes, given the entries before it: an ordinary entry adds what it is
  attributed; a revision moves the physical amounts of its target between two buckets.
\<close>

definition find_entry :: "AccountingEntryId \<Rightarrow> LedgerEntry list \<Rightarrow> LedgerEntry option" where
  "find_entry k h = find (\<lambda>x. e_id x = k) h"

definition revision_target_of :: "LedgerEntry list \<Rightarrow> LedgerEntry \<Rightarrow> LedgerEntry option" where
  "revision_target_of h r = (case e_revision_target r of None \<Rightarrow> None | Some k \<Rightarrow> find_entry k h)"

definition contribution ::
    "LedgerEntry list \<Rightarrow> LedgerEntry \<Rightarrow> AccountId \<Rightarrow> agg_field \<Rightarrow> ResourceDimension \<Rightarrow> int" where
  "contribution h e k f d =
     (if e_event e \<noteq> EventType_kReclassify then int (attributed e k f d)
      else case revision_target_of h e of
        None \<Rightarrow> 0
      | Some t \<Rightarrow>
          (if bucket_field (e_classification e) = Some f then int (attributed t k FPhysical d) else 0) -
          (if bucket_field (e_classification t) = Some f then int (attributed t k FPhysical d) else 0))"

fun totals_after ::
    "LedgerEntry list \<Rightarrow> LedgerEntry list \<Rightarrow> AccountId \<Rightarrow> agg_field \<Rightarrow> ResourceDimension \<Rightarrow> int" where
  "totals_after h [] k f d = 0"
| "totals_after h (e # es) k f d = contribution h e k f d + totals_after (h @ [e]) es k f d"

definition book_totals :: "LedgerEntry list \<Rightarrow> AccountId \<Rightarrow> agg_field \<Rightarrow> ResourceDimension \<Rightarrow> int" where
  "book_totals = totals_after []"

definition ordinary :: "LedgerEntry list \<Rightarrow> LedgerEntry list" where
  "ordinary h = filter (\<lambda>e. e_event e \<noteq> EventType_kReclassify) h"

lemma totals_after_append:
  "totals_after h (xs @ ys) k f d = totals_after h xs k f d + totals_after (h @ xs) ys k f d"
  by (induction xs arbitrary: h) simp_all

lemma book_totals_Nil [simp]: "book_totals [] k f d = 0"
  by (simp add: book_totals_def)

lemma book_totals_snoc [simp]: "book_totals (h @ [e]) k f d = book_totals h k f d + contribution h e k f d"
  by (simp add: book_totals_def totals_after_append)

lemma ordinary_snoc [simp]:
  "ordinary [] = []" "ordinary (h @ [e]) = ordinary h @ (if e_event e = EventType_kReclassify then [] else [e])"
  by (simp_all add: ordinary_def)

lemma find_entry_index:
  assumes "index_ok l"
  shows "find_entry k (l_history l) = map_option ((!) (l_history l)) (l_index l k)"
proof (cases "l_index l k")
  case None
  have "e_id x \<noteq> k" if x: "x \<in> set (l_history l)" for x
  proof -
    obtain i where "i < length (l_history l)" "x = l_history l ! i"
      using x by (metis in_set_conv_nth)
    with None assms show ?thesis unfolding index_ok_def by (metis option.distinct(1))
  qed
  with None show ?thesis by (simp add: find_entry_def find_None_iff)
next
  case (Some i)
  then have i: "i < length (l_history l)" "e_id (l_history l ! i) = k"
    using assms by (simp_all add: index_ok_def)
  have "e_id (l_history l ! j) \<noteq> k" if "j < i" for j
    using that i assms Some unfolding index_ok_def
    by (metis option.inject less_trans nat_neq_iff)
  with i have "find (\<lambda>x. e_id x = k) (l_history l) = Some (l_history l ! i)"
    unfolding find_Some_iff by blast
  with Some show ?thesis by (simp add: find_entry_def)
qed

lemma find_entry_snoc:
  "find_entry k (h @ [e]) = (case find_entry k h of Some x \<Rightarrow> Some x | None \<Rightarrow> if e_id e = k then Some e else None)"
  unfolding find_entry_def by (induction h) simp_all

lemma find_entry_fresh: "\<forall>x \<in> set h. e_id x \<noteq> k \<Longrightarrow> find_entry k h = None"
  by (auto simp: find_entry_def find_None_iff)

lemma get_find_entry: "index_ok l \<Longrightarrow> get k l = find_entry k (l_history l)"
  by (simp add: get_def find_entry_index split: option.splits)

section \<open>The counters are the abstract totals\<close>

definition exact_ledger :: "EfficiencyLedger \<Rightarrow> bool" where
  "exact_ledger l \<longleftrightarrow> wf_ledger l \<and>
     (\<forall>k f d. int (cell_of (l_accounts l) k f d) = book_totals (l_history l) k f d) \<and>
     fst ` set (l_accounts l) = (\<Union>e \<in> set (ordinary (l_history l)). touched e)"

text \<open>One accepted entry or revision changes every counter by its contribution.\<close>

lemma append_contribution:
  assumes wf: "wf_ledger l" and run: "append_locked ho e l = (st, l')" and ok: "Status_ok st"
  shows "int (cell_of (l_accounts l') k f d) = int (cell_of (l_accounts l) k f d) + contribution (l_history l) e k f d"
    and "l_history l' = l_history l @ [e]"
    and "fst ` set (l_accounts l') =
      fst ` set (l_accounts l) \<union> (if e_event e = EventType_kReclassify then {} else touched e)"
proof -
  have "int (cell_of (l_accounts l') k f d) = int (cell_of (l_accounts l) k f d) + contribution (l_history l) e k f d \<and>
    l_history l' = l_history l @ [e] \<and>
    fst ` set (l_accounts l') =
      fst ` set (l_accounts l) \<union> (if e_event e = EventType_kReclassify then {} else touched e)"
    using run
  proof (cases rule: append_cases)
    case (entry accs)
    have "accounted (l_accounts l) e accs"
      using wf by (intro entry_accounted(2) [OF _ entry(8)]) (simp add: wf_ledger_def)
    with entry(2) show ?thesis
      by (simp add: entry(9) accounted_def contribution_def)
  next
    case (revision accs tid pos t)
    have target: "revision_target_of (l_history l) e = Some t"
      using wf revision(7-9) by (simp add: revision_target_of_def find_entry_index wf_ledger_def)
    show ?thesis
    proof (cases "is_consumption_class (e_classification t)")
      case True
      then have loop: "for_each (reclassify_share (e_classification t) (e_classification e)) (ar_shares (compute_attribution t)) (l_accounts l) = (None, accs)"
        and cls: "is_consumption_class (e_classification e)"
        using revision(10,11) by simp_all
      obtain a b where buckets: "bucket_field (e_classification t) = Some a" "bucket_field (e_classification e) = Some b"
        and mv: "moved a b (\<lambda>k d. attributed t k FPhysical d) (l_accounts l) accs"
        by (rule revision_moves [OF wf revision(8,9) True cls loop])
      have "fst ` set accs = fst ` set (l_accounts l)"
        using mv by (metis moved_def list.set_map)
      with moved_cell [OF mv, of k f d] buckets target revision(2) show ?thesis
        by (simp add: revision(12) contribution_def split: if_splits)
    next
      case False
      then have "bucket_field (e_classification t) = None" "bucket_field (e_classification e) = None"
        using revision(10) by (auto simp: bucket_field_def is_consumption_class_def)
      with False revision(2,11) target show ?thesis
        by (simp add: revision(12) contribution_def)
    qed
  qed (use ok in \<open>simp_all add: Status_ok_def\<close>)
  then show "int (cell_of (l_accounts l') k f d) = int (cell_of (l_accounts l) k f d) + contribution (l_history l) e k f d"
    "l_history l' = l_history l @ [e]"
    "fst ` set (l_accounts l') =
      fst ` set (l_accounts l) \<union> (if e_event e = EventType_kReclassify then {} else touched e)"
    by blast+
qed

lemma append_exact:
  assumes inv: "exact_ledger l" and run: "append_locked ho e l = (st, l')"
    and "status_code st \<noteq> ErrorCode_kOverflow" and "status_code st \<noteq> ErrorCode_kReconciliationFailure"
  shows "exact_ledger l'"
proof (cases "Status_ok st")
  case True
  have wf: "wf_ledger l" using inv by (simp add: exact_ledger_def)
  note eff = append_contribution [OF wf run True]
  show ?thesis
    using inv append_wf [OF wf run] eff(1) unfolding exact_ledger_def eff(2,3)
    by (auto split: if_splits)
next
  case False
  with append_rejected [OF run] assms show ?thesis by simp
qed

interpretation exact: ledger_invariant "{ErrorCode_kOverflow, ErrorCode_kReconciliationFailure}" exact_ledger
proof
  show "exact_ledger (clear_books l)" for l
    using wf.cleared [of l] by (simp add: exact_ledger_def clear_books_def cell_of_def)
  show "same_books l l' \<Longrightarrow> exact_ledger l'" if "exact_ledger l" for l l'
    using that wf.books_only [of l l'] by (simp add: exact_ledger_def same_books_def)
qed (use append_exact in auto)

section \<open>Conservation\<close>

text \<open>Summed over accounts, an entry is attributed exactly what it used.\<close>

lemma sum_attributed:
  assumes "finite A" and "touched e \<subseteq> A"
  shows "(\<Sum>k \<in> A. attributed e k FPhysical d) = unat (e_usage e d)"
proof -
  let ?shs = "ar_shares (compute_attribution e)"
  have swap: "(\<Sum>k \<in> A. \<Sum>sh \<leftarrow> shs. if as_account sh = k then unat (as_physical sh d) else 0) =
      (\<Sum>sh \<leftarrow> shs. unat (as_physical sh d))" if "as_account ` set shs \<subseteq> A" for shs
    using that assms(1) by (induction shs) (simp_all add: sum.distrib sum.delta)
  have "attributed e k FPhysical d = (\<Sum>sh \<leftarrow> ?shs. if as_account sh = k then unat (as_physical sh d) else 0)" for k
    unfolding attributed_def share_sum_def share_value_def agg_field.case by (rule refl)
  then show ?thesis
    using swap [of ?shs] assms(2) compute_attribution_sum(1) [of d e] by (simp only: touched_def)
qed

lemma contribution_physical:
  assumes "finite A" and "touched e \<subseteq> A \<or> e_event e = EventType_kReclassify"
  shows "(\<Sum>k \<in> A. contribution h e k FPhysical d) =
    (if e_event e = EventType_kReclassify then 0 else int (unat (e_usage e d)))"
proof -
  have none: "bucket_field c \<noteq> Some FPhysical" for c
    by (simp add: bucket_field_def)
  show ?thesis
  proof (cases "e_event e = EventType_kReclassify")
    case True
    then have "contribution h e k FPhysical d = 0" for k
      by (simp add: contribution_def none split: option.splits)
    with True show ?thesis by simp
  next
    case False
    with assms sum_attributed [of A e d] show ?thesis
      by (simp add: contribution_def flip: of_nat_sum)
  qed
qed

lemma book_totals_physical:
  assumes "finite A" and "(\<Union>e \<in> set (ordinary h). touched e) \<subseteq> A"
  shows "(\<Sum>k \<in> A. book_totals h k FPhysical d) = int (\<Sum>e \<leftarrow> ordinary h. unat (e_usage e d))"
  using assms(2)
proof (induction h rule: rev_induct)
  case (snoc e h)
  then have "touched e \<subseteq> A \<or> e_event e = EventType_kReclassify"
    by (auto split: if_splits)
  with snoc contribution_physical [OF assms(1), of e h d] show ?case
    by (simp add: sum.distrib split: if_splits)
qed simp

end
