(* ===== verification/EL_Failures.thy ===== *)
theory EL_Failures
  imports EL_Books
begin

text \<open>
  What the ledger looks like after a call that reported an arithmetic failure. A revision that fails
  has already moved the shares before the one that underflowed, and of that share has taken from the
  old bucket every dimension before the one that underflowed and put nothing into the new bucket; an
  entry that overflows has already been merged into the accounts that were visited before.
\<close>

section \<open>A bucket move that stops\<close>

lemma move_cells_stopped:
  assumes "move_cells step (fget f) (fupd f) msg v x = (Some st, x')"
  obtains n where "n < length dims" and "step (fget f x (dims ! n)) (v (dims ! n)) = None"
    and "st = Status ErrorCode_kReconciliationFailure msg"
    and "\<And>d. d \<in> set (take n dims) \<Longrightarrow> step (fget f x d) (v d) \<noteq> None"
    and "\<And>g d. fget g x' d = (if g = f \<and> d \<in> set (take n dims) then the (step (fget f x d) (v d)) else fget g x d)"
proof -
  let ?cells = "map (\<lambda>d. (f, Status ErrorCode_kReconciliationFailure msg, d)) dims"
  have dist: "distinct (map cell_key ?cells)"
    by (simp add: dims_def)
  note run = assms [unfolded move_cells_walk]
  obtain n g d where n: "cells_done step (\<lambda>_. v) ?cells n x x'" "n < length ?cells"
    "?cells ! n = (g, st, d)" "step (fget g x d) (v d) = None"
    using run_cells_spec [OF dist, of step "\<lambda>_. v" x] unfolding run fst_conv snd_conv option.case by (elim exE conjE) blast
  then have at: "n < length dims" "step (fget f x (dims ! n)) (v (dims ! n)) = None"
    "st = Status ErrorCode_kReconciliationFailure msg"
    by simp_all
  have taken: "set (take n ?cells) = (\<lambda>d. (f, Status ErrorCode_kReconciliationFailure msg, d)) ` set (take n dims)"
    by (simp add: take_map)
  show ?thesis
  proof (rule that [OF at])
    show "step (fget f x d) (v d) \<noteq> None" if "d \<in> set (take n dims)" for d
      using n(1) that unfolding cells_done_def taken by auto
    show "fget g x' d = (if g = f \<and> d \<in> set (take n dims) then the (step (fget f x d) (v d)) else fget g x d)" for g d
      using n(1) unfolding cells_done_def taken by (auto simp: image_iff)
  qed
qed

text \<open>
  \<open>taken_out a m n x x'\<close>: the amounts \<open>m\<close> of the first \<open>n\<close> dimensions left the field \<open>a\<close>, the next
  dimension had less than its amount, and nothing else changed.
\<close>

definition taken_out :: "agg_field \<Rightarrow> (ResourceDimension \<Rightarrow> nat) \<Rightarrow> nat \<Rightarrow> AccountAggregate \<Rightarrow> AccountAggregate \<Rightarrow> bool" where
  "taken_out a m n x x' \<longleftrightarrow>
     n < length dims \<and> unat (fget a x (dims ! n)) < m (dims ! n) \<and>
     (\<forall>f d. unat (fget f x' d) + (if f = a \<and> d \<in> set (take n dims) then m d else 0) = unat (fget f x d))"

lemma the_checked_sub: "checked_sub a b \<noteq> None \<Longrightarrow> unat (the (checked_sub a b)) + unat b = unat a"
  by (metis add.commute checked_sub_Some_iff option.collapse)

lemma closed_bucket_le:
  assumes "closed_aggregate x" and "f \<in> {FUseful, FOverhead, FWaste, FUnknown}"
  shows "unat (fget f x d) \<le> unat (ag_physical x d)"
  using assms by (auto simp: closed_aggregate_def dest!: spec [of _ d])

lemma closed_buckets_le:
  assumes "closed_aggregate x" and "a \<noteq> b"
    and "a \<in> {FUseful, FOverhead, FWaste, FUnknown}" and "b \<in> {FUseful, FOverhead, FWaste, FUnknown}"
  shows "unat (fget a x d) + unat (fget b x d) \<le> unat (ag_physical x d)"
  using assms by (auto simp: closed_aggregate_def dest!: spec [of _ d])

lemma transfer_stopped:
  assumes closed: "closed_aggregate x"
    and old: "class_bucket c = Some (fget a, fupd a, m1)" and new: "class_bucket c' = Some (fget b, fupd b, m2)"
    and buckets: "a \<in> {FUseful, FOverhead, FWaste, FUnknown}" "b \<in> {FUseful, FOverhead, FWaste, FUnknown}"
    and run: "stmts [move_bucket checked_sub c u v, move_bucket checked_add c' w v] x = (Some st, x')"
  obtains n where "taken_out a (\<lambda>d. unat (v d)) n x x'"
proof -
  let ?sub = "move_cells checked_sub (fget a) (fupd a) u v"
  let ?add = "move_cells checked_add (fget b) (fupd b) w v"
  show ?thesis
  proof (cases "fst (?sub x)")
    case (Some st1)
    then have "?sub x = (Some st, x')"
      using run by (auto simp: move_bucket_def old split: prod.splits option.splits)
    then obtain n where n: "n < length dims" "checked_sub (fget a x (dims ! n)) (v (dims ! n)) = None"
      "\<And>d. d \<in> set (take n dims) \<Longrightarrow> checked_sub (fget a x d) (v d) \<noteq> None"
      "\<And>g d. fget g x' d = (if g = a \<and> d \<in> set (take n dims) then the (checked_sub (fget a x d) (v d)) else fget g x d)"
      by (rule move_cells_stopped) blast
    have "unat (fget f x' d) + (if f = a \<and> d \<in> set (take n dims) then unat (v d) else 0) = unat (fget f x d)" for f d
      using n(3) [of d] n(4) [of f d] by (simp add: the_checked_sub)
    then show ?thesis
      using n(1,2) by (intro that [of n]) (simp add: taken_out_def checked_sub_None_iff)
  next
    case None
    let ?y = "snd (?sub x)"
    have sub: "checked_sub (fget a x d) (v d) \<noteq> None" for d
      using None by (simp add: move_cells_ok_iff)
    have y: "unat (fget a ?y d) + unat (v d) = unat (fget a x d)" "f \<noteq> a \<Longrightarrow> fget f ?y d = fget f x d" for f d
      using sub [of d] move_cells_ok [OF None] by (simp_all add: the_checked_sub)
    have "unat (fget b ?y d) + unat (v d) < 18446744073709551616" for d
      using y(1) [of d] y(2) [of b d] closed_buckets_le [OF closed _ buckets, of d] closed_bucket_le [OF closed buckets(1), of d]
        unat_u64_less [of "ag_physical x d"] by (cases "b = a") (auto simp del: unat_u64_less)
    then have "checked_add (fget b ?y d) (v d) \<noteq> None" for d
      using checked_add_None_iff not_le by blast
    then have "fst (?add ?y) = None"
      by (simp add: move_cells_ok_iff)
    then show ?thesis
      using run None by (auto simp: move_bucket_def old new split: prod.splits option.splits)
  qed
qed


section \<open>A revision that stops\<close>

text \<open>
  \<open>stopped_at a b shs i n accs accs'\<close>: the loop of a revision over the shares \<open>shs\<close> has moved the first \<open>i\<close>
  shares from the field \<open>a\<close> to the field \<open>b\<close>, has taken the first \<open>n\<close> dimensions of the next one out of
  \<open>a\<close>, and found less than the amount of the dimension after them.
\<close>

definition stopped_at ::
    "agg_field \<Rightarrow> agg_field \<Rightarrow> AttributionShare list \<Rightarrow> nat \<Rightarrow> nat \<Rightarrow> Accounts \<Rightarrow> Accounts \<Rightarrow> bool" where
  "stopped_at a b shs i n accs accs' \<longleftrightarrow>
     i < length shs \<and> n < length dims \<and>
     cell_of accs' (as_account (shs ! i)) a (dims ! n) < unat (as_physical (shs ! i) (dims ! n)) \<and>
     (\<forall>k f d. cell_of accs' k f d +
        (if f = a then (\<Sum>sh \<leftarrow> take i shs. if as_account sh = k then unat (as_physical sh d) else 0) +
           (if as_account (shs ! i) = k \<and> d \<in> set (take n dims) then unat (as_physical (shs ! i) d) else 0) else 0) =
        cell_of accs k f d +
        (if f = b then (\<Sum>sh \<leftarrow> take i shs. if as_account sh = k then unat (as_physical sh d) else 0) else 0))"

lemma share_stopped:
  assumes closed: "closed_accounts accs"
    and old: "class_bucket c = Some (fget a, fupd a, m1)" and new: "class_bucket c' = Some (fget b, fupd b, m2)"
    and buckets: "a \<in> {FUseful, FOverhead, FWaste, FUnknown}" "b \<in> {FUseful, FOverhead, FWaste, FUnknown}"
    and run: "reclassify_share c c' sh accs = (Some st, accs')"
  obtains n where "stopped_at a b (sh # shs) 0 n accs accs'"
proof -
  let ?k = "as_account sh"
  obtain agg where agg: "map_of accs ?k = Some agg"
    using run by (cases "map_of accs ?k") (simp_all add: reclassify_share_def)
  obtain agg' where move: "stmts [move_bucket checked_sub c ''reclassify underflow'' (as_physical sh),
        move_bucket checked_add c' ''reclassify overflow'' (as_physical sh)] agg = (Some st, agg')"
    and accs': "accs' = AList.update ?k agg' accs"
    using run unfolding reclassify_share_def agg option.case by (auto split: prod.splits)
  have of: "agg_of accs ?k = agg" using agg by (simp add: agg_of_def)
  obtain n where out: "taken_out a (\<lambda>d. unat (as_physical sh d)) n agg agg'"
    using closed_agg_of [OF closed, of ?k] unfolding of
    by (rule transfer_stopped [OF _ old new buckets move])
  then have n: "n < length dims" by (simp add: taken_out_def)
  then have "dims ! n \<notin> set (take n dims)"
    using id_take_nth_drop [OF n] distinct_dims by (metis disjoint_iff distinct_append list.set_intros(1))
  moreover have "unat (fget a agg' (dims ! n)) + (if a = a \<and> dims ! n \<in> set (take n dims) then unat (as_physical sh (dims ! n)) else 0) =
      unat (fget a agg (dims ! n))"
    using out unfolding taken_out_def by blast
  ultimately have "unat (fget a agg' (dims ! n)) = unat (fget a agg (dims ! n))" by simp
  then have less: "cell_of accs' ?k a (dims ! n) < unat (as_physical sh (dims ! n))"
    using out by (simp add: taken_out_def accs' cell_of_def agg_of_update)
  have eq: "cell_of accs' k f d + (if f = a then if ?k = k \<and> d \<in> set (take n dims) then unat (as_physical sh d) else 0 else 0) =
      cell_of accs k f d" for k f d
  proof -
    have "unat (fget f agg' d) + (if f = a \<and> d \<in> set (take n dims) then unat (as_physical sh d) else 0) = unat (fget f agg d)"
      using out unfolding taken_out_def by blast
    with of show ?thesis by (cases "k = ?k") (auto simp: accs' cell_of_def agg_of_update split: if_splits)
  qed
  show ?thesis
  proof (rule that [of n], unfold stopped_at_def, intro conjI allI)
    fix k f d
    show "cell_of accs' k f d +
        (if f = a then (\<Sum>sh \<leftarrow> take 0 (sh # shs). if as_account sh = k then unat (as_physical sh d) else 0) +
           (if as_account ((sh # shs) ! 0) = k \<and> d \<in> set (take n dims) then unat (as_physical ((sh # shs) ! 0) d) else 0) else 0) =
        cell_of accs k f d +
        (if f = b then (\<Sum>sh \<leftarrow> take 0 (sh # shs). if as_account sh = k then unat (as_physical sh d) else 0) else 0)"
      using eq [of k f d] unfolding take_0 list.map sum_list.Nil nth_Cons_0 if_cancel add_0 add_0_right .
  qed (use n less in simp_all)
qed

lemma stopped_after:
  assumes first: "moved a b (\<lambda>k d. if as_account sh = k then unat (as_physical sh d) else 0) accs accs1"
    and rest: "stopped_at a b shs i n accs1 accs'"
  shows "stopped_at a b (sh # shs) (Suc i) n accs accs'"
  unfolding stopped_at_def
proof (intro conjI allI)
  fix k f d
  define here where "here = (if as_account sh = k then unat (as_physical sh d) else 0)"
  define moved_on where "moved_on = (\<Sum>sh \<leftarrow> take i shs. if as_account sh = k then unat (as_physical sh d) else 0)"
  define out where "out = (if as_account (shs ! i) = k \<and> d \<in> set (take n dims) then unat (as_physical (shs ! i) d) else 0)"
  have "cell_of accs' k f d + (if f = a then moved_on + out else 0) = cell_of accs1 k f d + (if f = b then moved_on else 0)"
    using rest unfolding stopped_at_def moved_on_def out_def by blast
  moreover have "cell_of accs1 k f d + (if f = a then here else 0) = cell_of accs k f d + (if f = b then here else 0)"
    using moved_cell [OF first, of k f d] unfolding here_def .
  ultimately have "cell_of accs' k f d + (if f = a then (here + moved_on) + out else 0) =
      cell_of accs k f d + (if f = b then here + moved_on else 0)"
    by (simp split: if_splits)
  then show "cell_of accs' k f d +
      (if f = a then (\<Sum>sh \<leftarrow> take (Suc i) (sh # shs). if as_account sh = k then unat (as_physical sh d) else 0) +
         (if as_account ((sh # shs) ! Suc i) = k \<and> d \<in> set (take n dims) then unat (as_physical ((sh # shs) ! Suc i) d) else 0) else 0) =
      cell_of accs k f d +
      (if f = b then (\<Sum>sh \<leftarrow> take (Suc i) (sh # shs). if as_account sh = k then unat (as_physical sh d) else 0) else 0)"
    unfolding take_Suc_Cons list.map sum_list.Cons nth_Cons_Suc here_def moved_on_def out_def .
qed (use rest in \<open>simp_all add: stopped_at_def\<close>)

lemma reclassify_loop_stopped:
  assumes old: "class_bucket c = Some (fget a, fupd a, m1)" and new: "class_bucket c' = Some (fget b, fupd b, m2)"
    and buckets: "a \<in> {FUseful, FOverhead, FWaste, FUnknown}" "b \<in> {FUseful, FOverhead, FWaste, FUnknown}"
    and "\<And>sh. sh \<in> set shs \<Longrightarrow> as_account sh \<in> fst ` set accs \<or> as_physical sh = zero_totals"
    and "closed_accounts accs" and "distinct (map fst accs)"
    and "for_each (reclassify_share c c') shs accs = (Some st, accs')"
  shows "\<exists>i n. stopped_at a b shs i n accs accs'"
  using assms(5-8)
proof (induction shs arbitrary: accs)
  case (Cons sh shs)
  obtain res accs1 where step: "reclassify_share c c' sh accs = (res, accs1)" by fastforce
  show ?case
  proof (cases res)
    case None
    then have rest: "for_each (reclassify_share c c') shs accs1 = (Some st, accs')"
      using Cons.prems(4) step by simp
    have first: "moved a b (\<lambda>k d. if as_account sh = k then unat (as_physical sh d) else 0) accs accs1"
      using Cons.prems(1) step None by (intro reclassify_share_ok [OF old new]) simp_all
    then have keys: "map fst accs1 = map fst accs" by (simp add: moved_def)
    then have "fst ` set accs1 = fst ` set accs" by (metis list.set_map)
    moreover have "closed_accounts accs1"
      by (rule moved_closed [OF first Cons.prems(2,3) buckets])
    ultimately obtain i n where "stopped_at a b shs i n accs1 accs'"
      using Cons.IH [OF _ _ _ rest] Cons.prems(1,3) keys by auto
    then show ?thesis using stopped_after [OF first] by blast
  next
    case (Some st1)
    then have "reclassify_share c c' sh accs = (Some st1, accs')"
      using Cons.prems(4) step by simp
    then show ?thesis
      using share_stopped [OF Cons.prems(2) old new buckets, of sh st1 accs' shs] by metis
  qed
qed simp

text \<open>A revision that reports the failure, in a ledger that closes.\<close>

lemma revision_stopped:
  assumes closed: "closed_ledger l" and run: "apply_reclassify_locked r l = (st, l')"
    and fail: "status_code st = ErrorCode_kReconciliationFailure"
    and target: "e_revision_target r = Some tid" "get tid l = Some t"
  obtains a b i n where "bucket_field (e_classification t) = Some a" and "bucket_field (e_classification r) = Some b"
    and "stopped_at a b (ar_shares (compute_attribution t)) i n (l_accounts l) (l_accounts l')"
    and "l' = l\<lparr>l_accounts := l_accounts l'\<rparr>"
proof -
  let ?shs = "ar_shares (compute_attribution t)"
  obtain pos where pos: "l_index l tid = Some pos" "l_history l ! pos = t"
    using target(2) by (auto simp: get_def split: option.splits)
  obtain res accs where loop: "for_each (reclassify_share (e_classification t) (e_classification r)) ?shs (l_accounts l) = (res, accs)"
    by fastforce
  have cons: "is_consumption_class (e_classification t)" "is_consumption_class (e_classification r)"
    and res: "res = Some st" and l': "l' = l\<lparr>l_accounts := accs\<rparr>"
    using run fail by (auto simp: apply_reclassify_locked_def Let_def target(1) pos loop Status_success_def
        split: if_splits option.splits)
  obtain a m1 where a: "class_bucket (e_classification t) = Some (fget a, fupd a, m1)"
    "bucket_field (e_classification t) = Some a" "a \<in> {FUseful, FOverhead, FWaste, FUnknown}"
    using cons(1) by (cases "e_classification t" rule: class_bucket_cases) auto
  obtain b m2 where b: "class_bucket (e_classification r) = Some (fget b, fupd b, m2)"
    "bucket_field (e_classification r) = Some b" "b \<in> {FUseful, FOverhead, FWaste, FUnknown}"
    using cons(2) by (cases "e_classification r" rule: class_bucket_cases) auto
  have wf: "wf_ledger l" "closed_accounts (l_accounts l)" using closed by (simp_all add: closed_ledger_def)
  have known: "as_account sh \<in> fst ` set (l_accounts l) \<or> as_physical sh = zero_totals" if "sh \<in> set ?shs" for sh
    using shares_known [OF wf(1) pos(1) pos(2) [symmetric] that] .
  obtain i n where "stopped_at a b ?shs i n (l_accounts l) accs"
    using reclassify_loop_stopped [OF a(1) b(1) a(3) b(3) known wf(2) _ loop [unfolded res]] wf(1)
    by (auto simp: wf_ledger_def)
  then show ?thesis
    using l' by (intro that [OF a(2) b(2), of i n]) simp_all
qed


section \<open>An overflow that stops\<close>

lemma merge_aggregate_bounds:
  "unat (fget f a d) \<le> unat (fget f (snd (merge_aggregate agg a)) d) \<and>
   unat (fget f (snd (merge_aggregate agg a)) d) \<le> unat (fget f a d) + unat (fget f agg d)"
proof -
  obtain n where "cells_done checked_add (\<lambda>f. fget f agg) merge_cells n a (snd (merge_aggregate agg a))"
    using run_cells_spec [OF merge_cells_cover(2), of checked_add "\<lambda>f. fget f agg" a]
    unfolding merge_aggregate_walk by blast
  note steps = this [unfolded cells_done_def]
  show ?thesis
  proof (cases "(f, d) \<in> cell_key ` set (take n merge_cells)")
    case True
    then obtain nv where nv: "checked_add (fget f a d) (fget f agg d) = Some nv"
      using steps by fastforce
    have "fget f (snd (merge_aggregate agg a)) d = nv"
      using True steps nv by simp
    then show ?thesis
      using nv by (simp add: checked_add_Some_iff)
  qed (use steps in simp)
qed

lemma merge_account_bounds:
  "cell_of accs k f d \<le> cell_of (snd (merge_account p accs)) k f d \<and>
   cell_of (snd (merge_account p accs)) k f d \<le> cell_of accs k f d + (if k = fst p then unat (fget f (snd p) d) else 0)"
proof (cases "map_of accs (fst p)")
  case (Some dst)
  have "snd (merge_account p accs) = AList.update (fst p) (snd (merge_aggregate (snd p) dst)) accs"
    by (simp add: merge_account_def Some split: prod.splits)
  with Some show ?thesis
    using merge_aggregate_bounds [where f = f and a = dst and d = d and agg = "snd p"]
    by (cases "k = fst p") (simp_all add: cell_of_def, simp add: agg_of_def)
qed (auto simp: merge_account_def cell_of_def agg_of_def)

lemma merge_loop_bounds:
  assumes "distinct (map fst ps)"
  shows "cell_of accs k f d \<le> cell_of (snd (for_each merge_account ps accs)) k f d \<and>
    cell_of (snd (for_each merge_account ps accs)) k f d \<le> cell_of accs k f d + cell_of ps k f d"
  using assms
proof (induction ps arbitrary: accs)
  case (Cons p ps)
  obtain r accs1 where step: "merge_account p accs = (r, accs1)" by fastforce
  note one = merge_account_bounds [where accs = accs and k = k and f = f and d = d and p = p, unfolded step snd_conv]
  have cons: "cell_of (p # ps) k f d = (if k = fst p then unat (fget f (snd p) d) else cell_of ps k f d)"
    by (cases p) (simp add: cell_of_def agg_of_def)
  have "k = fst p \<Longrightarrow> cell_of ps k f d = 0"
    using Cons.prems by (simp add: cell_of_def agg_of_def map_of_eq_None_iff [THEN iffD2])
  with Cons.IH [of accs1] Cons.prems one step cons show ?case
    by (cases r) (auto split: if_splits)
qed simp

lemma overflow_bounds:
  assumes "append_locked ho e l = (st, l')" and "status_code st = ErrorCode_kOverflow"
  shows "l' = l\<lparr>l_accounts := l_accounts l'\<rparr>"
    and "cell_of (l_accounts l) k f d \<le> cell_of (l_accounts l') k f d"
    and "cell_of (l_accounts l') k f d \<le> cell_of (l_accounts l) k f d + attributed e k f d"
proof -
  obtain pending where pend:
    "for_each (pending_share (e_classification e)) (ar_shares (compute_attribution e)) [] = (None, pending)"
    and dist: "distinct (map fst pending)"
    and cells: "\<And>k f d. cell_of pending k f d = attributed e k f d"
    by (rule pending_of_entry) blast
  have "distinct (map fst (in_order ho pending))"
    using dist by (simp add: map_fst_in_order)
  note bounds = merge_loop_bounds [OF this, of "l_accounts l" k f d]
  have accs: "l_accounts (snd (apply_attribution ho e (compute_attribution e) l)) =
      snd (for_each merge_account (in_order ho pending) (l_accounts l))"
    by (simp add: apply_attribution_def pend split: prod.splits option.splits)
  have "l' = l\<lparr>l_accounts := l_accounts l'\<rparr> \<and> cell_of (l_accounts l) k f d \<le> cell_of (l_accounts l') k f d \<and>
      cell_of (l_accounts l') k f d \<le> cell_of (l_accounts l) k f d + attributed e k f d"
    using assms(1)
  proof (cases rule: append_cases)
    case (overflow accs')
    have "l_accounts l' = snd (for_each merge_account (in_order ho pending) (l_accounts l))"
      using overflow(6) accs by simp
    with bounds overflow(5) show ?thesis by (simp add: cells)
  qed (use assms(2) in \<open>simp_all add: Status_success_def\<close>)
  then show "l' = l\<lparr>l_accounts := l_accounts l'\<rparr>"
    and "cell_of (l_accounts l) k f d \<le> cell_of (l_accounts l') k f d"
    and "cell_of (l_accounts l') k f d \<le> cell_of (l_accounts l) k f d + attributed e k f d"
    by blast+
qed

end
