(* ===== verification/EL_Replay.thy ===== *)
theory EL_Replay
  imports EL_Books EL_Gates
begin

text \<open>
  Two ledgers with the same books up to the layout of the account table accept the same entries and
  keep having the same books; replaying a history rebuilds the books it came from.
\<close>

section \<open>Equivalent books\<close>

definition books_equiv :: "EfficiencyLedger \<Rightarrow> EfficiencyLedger \<Rightarrow> bool" where
  "books_equiv l l' \<longleftrightarrow>
     l_history l' = l_history l \<and> l_index l' = l_index l \<and> l_attempts l' = l_attempts l \<and>
     l_transfer_completed l' = l_transfer_completed l \<and> l_reservation_released l' = l_reservation_released l \<and>
     l_allocation_released l' = l_allocation_released l \<and> l_recovery_completed l' = l_recovery_completed l \<and>
     map_of (l_accounts l') = map_of (l_accounts l)"

lemma map_of_cells:
  assumes "fst ` set a = fst ` set b" and "\<And>k f d. cell_of a k f d = cell_of b k f d"
  shows "map_of a = map_of b"
proof
  fix k
  have "agg_of a k = agg_of b k"
    using assms(2) by (intro aggregate_eqI ext) (simp add: cell_of_def word_unat_eq_iff)
  moreover have "k \<in> fst ` set a \<longleftrightarrow> k \<in> fst ` set b"
    using assms(1) by simp
  moreover have "map_of m k = (if k \<in> fst ` set m then Some (agg_of m k) else None)" for m
    by (cases "map_of m k") (auto simp: agg_of_def map_of_eq_None_iff dest: map_of_SomeD intro: rev_image_eqI)
  ultimately show "map_of a k = map_of b k" by simp
qed

lemma cell_of_map_of: "map_of a = map_of b \<Longrightarrow> cell_of a = cell_of b"
  by (simp add: cell_of_def agg_of_def fun_eq_iff)

lemma keys_map_of: "map_of a = map_of b \<Longrightarrow> fst ` set a = fst ` set b"
  by (metis dom_map_of_conv_image_fst)

lemma accounted_equiv:
  assumes "map_of a = map_of b" and "accounted a e a'" and "accounted b e b'"
  shows "map_of a' = map_of b'"
  by (rule map_of_cells)
    (use assms keys_map_of [OF assms(1)] cell_of_map_of [OF assms(1)] in \<open>simp_all add: accounted_def\<close>)

lemma reclassify_share_equiv:
  assumes "map_of a = map_of b"
  shows "fst (reclassify_share c c' sh a) = fst (reclassify_share c c' sh b)"
    and "map_of (snd (reclassify_share c c' sh a)) = map_of (snd (reclassify_share c c' sh b))"
  using assms by (auto simp: reclassify_share_def split: option.splits prod.splits)

lemma reclassify_loop_equiv:
  "map_of a = map_of b \<Longrightarrow>
   fst (for_each (reclassify_share c c') shs a) = fst (for_each (reclassify_share c c') shs b) \<and>
   map_of (snd (for_each (reclassify_share c c') shs a)) = map_of (snd (for_each (reclassify_share c c') shs b))"
proof (induction shs arbitrary: a b)
  case (Cons sh shs)
  obtain r a' s b' where steps: "reclassify_share c c' sh a = (r, a')" "reclassify_share c c' sh b = (s, b')"
    by fastforce
  have "r = s" "map_of a' = map_of b'"
    using reclassify_share_equiv [OF Cons.prems, of c c' sh] steps by simp_all
  with Cons.IH [of a' b'] steps show ?case by (cases s) simp_all
qed simp

section \<open>The gates of append in one place\<close>

text \<open>
  When an ordinary entry is accepted: the exact condition, in terms of the checks of the code and
  of one arithmetic condition on the counters.
\<close>

lemma append_ordinary_iff:
  assumes wf: "wf_ledger l" and ord: "e_event e \<noteq> EventType_kReclassify"
  shows "Status_ok (fst (append_locked ho e l)) \<longleftrightarrow>
     \<not> l_shutting_down l \<and> LedgerEntry_validate e \<and> l_index l (e_id e) = None \<and>
     Status_ok (check_classification_consistency e) \<and> Status_ok (check_authority l e) \<and>
     lifecycle_gate e l = None \<and> \<not> ar_invalid (compute_attribution e) \<and> entry_fits (l_accounts l) e"
proof -
  have dist: "distinct (map fst (l_accounts l))" using wf by (simp add: wf_ledger_def)
  obtain st1 l1 where app: "apply_attribution ho e (compute_attribution e) l = (st1, l1)" by fastforce
  have "Status_ok st1 \<longleftrightarrow> entry_fits (l_accounts l) e"
    using apply_attribution_spec(1) [OF dist, of ho e] app by simp
  moreover have "\<not> Status_ok st" if "lifecycle_gate e l = Some st" for st
    using lifecycle_gate_code [OF that] by (simp add: Status_ok_def)
  ultimately show ?thesis
    using ord by (cases "lifecycle_gate e l") (simp_all add: append_locked_def Let_def app Status_ok_def Status_success_def)
qed

lemma append_revision_iff:
  assumes wf: "wf_ledger l" and rev: "e_event r = EventType_kReclassify"
  shows "Status_ok (fst (append_locked ho r l)) \<longleftrightarrow>
     \<not> l_shutting_down l \<and> LedgerEntry_validate r \<and> l_index l (e_id r) = None \<and>
     ResourceUsage_is_zero (e_usage r) \<and> Status_ok (check_authority l r) \<and>
     (\<exists>tid pos. e_revision_target r = Some tid \<and> l_index l tid = Some pos \<and>
        is_consumption_class (e_classification (l_history l ! pos)) = is_consumption_class (e_classification r) \<and>
        (is_consumption_class (e_classification r) \<longrightarrow>
           fst (for_each (reclassify_share (e_classification (l_history l ! pos)) (e_classification r))
                  (ar_shares (compute_attribution (l_history l ! pos))) (l_accounts l)) = None))"
proof -
  have "Status_ok (fst (apply_reclassify_locked r l)) \<longleftrightarrow>
    (\<exists>tid pos. e_revision_target r = Some tid \<and> l_index l tid = Some pos \<and>
        is_consumption_class (e_classification (l_history l ! pos)) = is_consumption_class (e_classification r) \<and>
        (is_consumption_class (e_classification r) \<longrightarrow>
           fst (for_each (reclassify_share (e_classification (l_history l ! pos)) (e_classification r))
                  (ar_shares (compute_attribution (l_history l ! pos))) (l_accounts l)) = None))"
  proof (cases "\<exists>tid pos. e_revision_target r = Some tid \<and> l_index l tid = Some pos")
    case True
    then obtain tid pos where tgt: "e_revision_target r = Some tid" "l_index l tid = Some pos" by blast
    obtain res accs where loop: "for_each (reclassify_share (e_classification (l_history l ! pos)) (e_classification r))
        (ar_shares (compute_attribution (l_history l ! pos))) (l_accounts l) = (res, accs)" by fastforce
    have "\<not> Status_ok st" if "res = Some st" for st
      using loop that reclassify_loop_error by (fastforce simp: Status_ok_def)
    with tgt loop show ?thesis
      by (cases res) (auto simp: apply_reclassify_locked_def Let_def Status_ok_def Status_success_def)
  next
    case False
    then show ?thesis
      by (auto simp: apply_reclassify_locked_def Status_ok_def split: option.splits)
  qed
  with rev show ?thesis by (simp add: append_locked_def Status_ok_def)
qed

section \<open>Equivalent ledgers stay equivalent\<close>

text \<open>The fences of an entry name the authority a ledger has now.\<close>

definition fences_current :: "EfficiencyLedger \<Rightarrow> LedgerEntry \<Rightarrow> bool" where
  "fences_current l e \<longleftrightarrow>
     (id_valid (f_epoch (e_fences e)) \<longrightarrow> f_epoch (e_fences e) = l_epoch l) \<and>
     (id_valid (f_ledger_generation (e_fences e)) \<longrightarrow> f_ledger_generation (e_fences e) = l_ledger_generation l) \<and>
     (id_valid (f_account_generation (e_fences e)) \<longrightarrow> f_account_generation (e_fences e) = l_account_generation l)"

lemma check_authority_iff:
  "Status_ok (check_authority l e) \<longleftrightarrow> fences_current l e \<and>
     (l_replaying l \<or> \<not> id_valid (f_worker_boot (e_fences e)) \<or> f_worker_boot (e_fences e) \<in> l_live_workers l) \<and>
     (has_attempt e \<longrightarrow> (case l_attempts l (at_id (e_attempt e)) of
        None \<Rightarrow> True | Some st \<Rightarrow> Status_ok (check_attempt_authority st e)))"
  by (auto simp: check_authority_def fences_current_def Status_ok_def Status_success_def split: option.splits)

definition same_authority :: "EfficiencyLedger \<Rightarrow> EfficiencyLedger \<Rightarrow> bool" where
  "same_authority l l' \<longleftrightarrow>
     l_epoch l' = l_epoch l \<and> l_ledger_id l' = l_ledger_id l \<and> l_ledger_generation l' = l_ledger_generation l \<and>
     l_account_generation l' = l_account_generation l \<and> l_shutting_down l' = l_shutting_down l \<and>
     l_epoch_advanced l' = l_epoch_advanced l \<and> l_replaying l' = l_replaying l \<and> l_live_workers l' = l_live_workers l"

lemma same_authority_refl [simp]: "same_authority l l"
  by (simp add: same_authority_def)

lemma same_authority_trans: "same_authority a b \<Longrightarrow> same_authority b c \<Longrightarrow> same_authority a c"
  by (simp add: same_authority_def)

lemma append_same_authority:
  assumes "append_locked ho e l = (st, l')"
  shows "same_authority l l'"
  using assms
  by (cases rule: append_cases)
    (simp_all add: same_authority_def push_history_def record_attempt_def record_lifecycle_def)

lemma fences_current_authority: "same_authority l l' \<Longrightarrow> fences_current l' e = fences_current l e"
  by (simp add: same_authority_def fences_current_def)

text \<open>
  An entry that one ledger accepted is accepted by any ledger with equivalent books whose authority
  lets it pass, and the books stay equivalent.
\<close>

lemma append_equiv:
  assumes wf: "wf_ledger l" and wf': "wf_ledger l'" and eq: "books_equiv l l'"
    and run: "append_locked ho e l = (st, l1)" and ok: "Status_ok st"
    and up: "\<not> l_shutting_down l'" and auth: "Status_ok (check_authority l' e)"
  shows "\<exists>l1'. append_locked ho' e l' = (Status_success, l1') \<and> books_equiv l1 l1'"
  using run
proof (cases rule: append_cases)
  case (entry accs)
  have accounts: "map_of (l_accounts l') = map_of (l_accounts l)" using eq by (simp add: books_equiv_def)
  have cells: "cell_of (l_accounts l') = cell_of (l_accounts l)" by (rule cell_of_map_of [OF accounts])
  have gate: "lifecycle_gate e l' = lifecycle_gate e l"
    using eq unfolding books_equiv_def lifecycle_gate_def by (simp only: conj_assoc)
  have cond: "LedgerEntry_validate e" "l_index l (e_id e) = None" "Status_ok (check_classification_consistency e)"
    "lifecycle_gate e l = None" "\<not> ar_invalid (compute_attribution e)" "entry_fits (l_accounts l) e"
    using append_ordinary_iff [OF wf entry(2), of ho] run ok by simp_all
  then have "Status_ok (fst (append_locked ho' e l'))"
    using eq up auth gate cells unfolding append_ordinary_iff [OF wf' entry(2)]
    by (simp add: books_equiv_def entry_fits_def)
  moreover obtain st' l1' where run': "append_locked ho' e l' = (st', l1')" by fastforce
  ultimately have ok': "Status_ok st'" by simp
  from run' show ?thesis
  proof (cases rule: append_cases)
    case entry': (entry accs')
    have "accounted (l_accounts l) e accs" "accounted (l_accounts l') e accs'"
      using wf wf' entry(8) entry'(8) by (auto simp: wf_ledger_def intro: entry_accounted(2))
    then have "map_of accs' = map_of accs"
      using accounted_equiv accounts by blast
    with eq have "books_equiv l1 l1'"
      unfolding entry(9) entry'(9)
      by (simp add: books_equiv_def push_history_def record_attempt_def record_lifecycle_def)
    with run' entry'(1) show ?thesis by simp
  qed (use ok' entry(2) in \<open>simp_all add: Status_ok_def\<close>)
next
  case (revision accs tid pos t)
  have accounts: "map_of (l_accounts l') = map_of (l_accounts l)" using eq by (simp add: books_equiv_def)
  note loop = reclassify_loop_equiv [OF accounts, of "e_classification t" "e_classification e" "ar_shares (compute_attribution t)"]
  have idx: "l_index l' = l_index l" "l_history l' = l_history l" using eq by (simp_all add: books_equiv_def)
  have "Status_ok (fst (append_locked ho' e l'))"
    unfolding append_revision_iff [OF wf' revision(2)]
    using up auth revision(3-11) loop idx by auto
  moreover obtain st' l1' where run': "append_locked ho' e l' = (st', l1')" by fastforce
  ultimately have ok': "Status_ok st'" by simp
  from run' show ?thesis
  proof (cases rule: append_cases)
    case revision': (revision accs' tid' pos' t')
    have "t' = t"
      using revision(7-9) revision'(7-9) idx by simp
    then have "map_of accs' = map_of accs"
      using revision(11) revision'(11) loop accounts by (auto split: if_splits)
    with eq have "books_equiv l1 l1'"
      unfolding revision(12) revision'(12) by (simp add: books_equiv_def push_history_def)
    with run' revision'(1) show ?thesis by simp
  qed (use ok' revision(2) in \<open>simp_all add: Status_ok_def\<close>)
qed (use ok in \<open>simp_all add: Status_ok_def\<close>)

section \<open>Replay\<close>

lemma append_all_append:
  "append_all ho (xs @ ys) l =
     (case append_all ho xs l of (st, l1) \<Rightarrow> if \<not> Status_ok st then (st, l1) else append_all ho ys l1)"
proof (induction xs arbitrary: l)
  case Nil
  then show ?case by (simp add: Status_ok_def Status_success_def)
qed (simp split: prod.splits)

lemma append_all_authority: "append_all ho es l = (st, l') \<Longrightarrow> same_authority l l'"
proof (induction es arbitrary: l)
  case (Cons e es)
  obtain st1 l1 where one: "append_locked ho e l = (st1, l1)" by fastforce
  with Cons show ?case
    using append_same_authority [OF one] by (auto split: if_splits intro: same_authority_trans)
qed simp

text \<open>A cleared ledger that is ready to replay.\<close>

definition ready_to_replay :: "EfficiencyLedger \<Rightarrow> bool" where
  "ready_to_replay l0 \<longleftrightarrow> same_books l0 (clear_books l0) \<and> l_replaying l0 \<and> \<not> l_shutting_down l0"

definition replays :: "EfficiencyLedger \<Rightarrow> bool" where
  "replays l \<longleftrightarrow> wf_ledger l \<and>
     (\<forall>ho l0. ready_to_replay l0 \<and> (\<forall>e \<in> set (l_history l). fences_current l0 e) \<longrightarrow>
        (\<exists>l1. append_all ho (l_history l) l0 = (Status_success, l1) \<and> books_equiv l l1))"

lemma append_all_wf: "wf_ledger l \<Longrightarrow> append_all ho es l = (st, l') \<Longrightarrow> wf_ledger l'"
  by (rule wf.append_all_keeps) auto

lemma ready_wf: "ready_to_replay l0 \<Longrightarrow> wf_ledger l0"
  using wf.cleared [of l0] by (simp add: ready_to_replay_def same_books_def wf_ledger_def index_ok_def)

lemma append_replays:
  assumes inv: "replays l" and run: "append_locked ho e l = (st, l')"
    and "status_code st \<notin> {ErrorCode_kOverflow, ErrorCode_kReconciliationFailure}"
  shows "replays l'"
proof (cases "Status_ok st")
  case False
  with append_rejected [OF run] assms show ?thesis by simp
next
  case ok: True
  have wf: "wf_ledger l" using inv by (simp add: replays_def)
  have hist: "l_history l' = l_history l @ [e]"
    by (rule append_contribution(2) [OF wf run ok])
  have "\<exists>l1. append_all ho' (l_history l') l0 = (Status_success, l1) \<and> books_equiv l' l1"
    if ready: "ready_to_replay l0" and cur: "\<forall>x \<in> set (l_history l'). fences_current l0 x" for ho' l0
  proof -
    have "\<forall>x \<in> set (l_history l). fences_current l0 x"
      using cur hist by simp
    then obtain l1 where l1: "append_all ho' (l_history l) l0 = (Status_success, l1)" "books_equiv l l1"
      using inv ready unfolding replays_def by blast
    have au: "same_authority l0 l1" by (rule append_all_authority [OF l1(1)])
    then have up: "\<not> l_shutting_down l1" "l_replaying l1"
      using ready by (simp_all add: ready_to_replay_def same_authority_def)
    have "Status_ok (check_authority l e)"
      using append_accepted(5) [OF run ok] revision_accepted(5) [OF run ok] by blast
    then have "Status_ok (check_authority l1 e)"
      using l1(2) up cur hist fences_current_authority [OF au, of e]
      by (simp add: check_authority_iff books_equiv_def)
    moreover have "wf_ledger l1"
      using append_all_wf [OF ready_wf [OF ready] l1(1)] .
    ultimately obtain l2 where "append_locked ho' e l1 = (Status_success, l2)" "books_equiv l' l2"
      using append_equiv [OF wf _ l1(2) run ok up(1)] by blast
    with l1(1) show ?thesis
      by (simp add: hist append_all_append Status_ok_def Status_success_def)
  qed
  with append_wf [OF wf run] show ?thesis by (simp add: replays_def)
qed

interpretation replay: ledger_invariant "{ErrorCode_kOverflow, ErrorCode_kReconciliationFailure}" replays
proof
  show "replays (clear_books l)" for l
    using wf.cleared [of l]
    by (auto simp: replays_def clear_books_def ready_to_replay_def same_books_def books_equiv_def)
  show "same_books l l' \<Longrightarrow> replays l'" if "replays l" for l l'
    using that wf.books_only [of l l'] by (auto simp: replays_def same_books_def books_equiv_def)
qed (use append_replays in auto)

text \<open>Loading the history of a reachable ledger rebuilds its books.\<close>

lemma load_history_replays:
  assumes "replays l" and "\<not> l_shutting_down l0" and "\<And>e. e \<in> set (l_history l) \<Longrightarrow> fences_current l0 e"
  obtains l1 where "load_history ho (l_history l) l0 = (Status_success, l1)" and "books_equiv l l1"
    and "same_authority (l0\<lparr>l_replaying := False\<rparr>) l1"
proof -
  let ?l0 = "(clear_books l0)\<lparr>l_replaying := True\<rparr>"
  have "ready_to_replay ?l0" "\<forall>e \<in> set (l_history l). fences_current ?l0 e"
    using assms(2,3) by (auto simp: ready_to_replay_def same_books_def clear_books_def fences_current_def)
  then obtain l1 where l1: "append_all ho (l_history l) ?l0 = (Status_success, l1)" "books_equiv l l1"
    using assms(1) unfolding replays_def by blast
  have "same_authority ?l0 l1" by (rule append_all_authority [OF l1(1)])
  then have "same_authority (l0\<lparr>l_replaying := False\<rparr>) (l1\<lparr>l_replaying := False\<rparr>)"
    by (simp add: same_authority_def clear_books_def)
  moreover have "books_equiv l (l1\<lparr>l_replaying := False\<rparr>)"
    using l1(2) by (simp add: books_equiv_def)
  moreover have "load_history ho (l_history l) l0 = (Status_success, l1\<lparr>l_replaying := False\<rparr>)"
    using l1(1) by (simp add: load_history_def Status_ok_def Status_success_def)
  ultimately show ?thesis by (intro that)
qed

text \<open>A single stale fence in the history stops the replay.\<close>

lemma append_all_stale:
  assumes "e \<in> set es" and "\<not> fences_current l e" and "append_all ho es l = (st, l')"
  shows "\<not> Status_ok st"
  using assms
proof (induction es arbitrary: l)
  case (Cons x es)
  obtain st1 l1 where one: "append_locked ho x l = (st1, l1)" by fastforce
  show ?case
  proof (cases "Status_ok st1")
    case True
    have "Status_ok (check_authority l x)"
      using append_accepted(5) [OF one True] revision_accepted(5) [OF one True] by blast
    then have "x \<noteq> e" using Cons.prems(2) by (auto simp: check_authority_iff)
    with Cons.prems one True have "e \<in> set es" "append_all ho es l1 = (st, l')" by auto
    moreover have "\<not> fences_current l1 e"
      using fences_current_authority [OF append_same_authority [OF one]] Cons.prems(2) by simp
    ultimately show ?thesis by (intro Cons.IH)
  next
    case False
    with Cons.prems(3) one show ?thesis by auto
  qed
qed simp

end
