(* ===== verification/EL_Scenarios.thy ===== *)
theory EL_Scenarios
  imports EL_Gates EL_Failures EL_Replay
begin

text \<open>
  Concrete entries and short runs of the ledger, evaluated inside the logic. They show that the
  hypotheses of the general theorems can be met, and they are the runs that exhibit the places
  where the code falls short of its intent.
\<close>

declare traverse_insertion_order [code]
declare traverse_reverse_insertion_order [code]

section \<open>Sequences of calls\<close>

fun run_calls ::
    "AccountId hash_order \<Rightarrow> ledger_call list \<Rightarrow> EfficiencyLedger \<Rightarrow> Status list \<times> EfficiencyLedger" where
  "run_calls ho [] l = ([], l)"
| "run_calls ho (c # cs) l =
     (case call ho c l of (st, l1) \<Rightarrow> case run_calls ho cs l1 of (sts, l2) \<Rightarrow> (st # sts, l2))"

lemma reachable_run_calls:
  "reachable faults l \<Longrightarrow> list_all (\<lambda>st. status_code st \<notin> faults) (fst (run_calls ho cs l)) \<Longrightarrow>
   reachable faults (snd (run_calls ho cs l))"
proof (induction cs arbitrary: l)
  case (Cons c cs)
  obtain st l1 where one: "call ho c l = (st, l1)" by fastforce
  have "reachable faults l1"
    using Cons.prems one by (intro reachable.step [OF Cons.prems(1) one]) (auto split: prod.splits)
  moreover have "list_all (\<lambda>st. status_code st \<notin> faults) (fst (run_calls ho cs l1))"
    using Cons.prems(2) one by (auto split: prod.splits)
  ultimately have "reachable faults (snd (run_calls ho cs l1))" by (rule Cons.IH)
  with one show ?case by (auto split: prod.splits)
qed simp

lemma reachable_all_ok:
  assumes "fst (run_calls ho cs (EfficiencyLedger_new lid)) = replicate (length cs) Status_success"
    and "ErrorCode_kOk \<notin> faults"
  shows "reachable faults (snd (run_calls ho cs (EfficiencyLedger_new lid)))"
  by (rule reachable_run_calls [OF reachable.start])
    (use assms in \<open>simp add: list_all_iff Status_success_def\<close>)

lemma run_calls_append:
  "run_calls ho (cs @ ds) l =
     (fst (run_calls ho cs l) @ fst (run_calls ho ds (snd (run_calls ho cs l))), snd (run_calls ho ds (snd (run_calls ho cs l))))"
  by (induction cs arbitrary: l) (simp_all add: case_prod_beta)

lemma length_run_calls [simp]: "length (fst (run_calls ho cs l)) = length cs"
  by (induction cs arbitrary: l) (simp_all add: case_prod_beta)

text \<open>A run of accepted entries is recorded as it was given.\<close>

lemma run_appends_history:
  "wf_ledger l \<Longrightarrow> fst (run_calls ho (map Append es) l) = replicate (length es) Status_success \<Longrightarrow>
   l_history (snd (run_calls ho (map Append es) l)) = l_history l @ es"
proof (induction es arbitrary: l)
  case (Cons e es)
  obtain st l1 where one: "append_locked ho e l = (st, l1)" by fastforce
  have ok: "Status_ok st" and rest: "fst (run_calls ho (map Append es) l1) = replicate (length es) Status_success"
    using Cons.prems(2) one by (auto simp: Status_ok_def Status_success_def split: prod.splits)
  have "l_history l1 = l_history l @ [e]"
    by (rule append_contribution(2) [OF Cons.prems(1) one ok])
  with Cons.IH [OF append_wf [OF Cons.prems(1) one] rest] one show ?case
    by (auto split: prod.splits)
qed simp

lemma run_appends_authority: "same_authority l (snd (run_calls ho (map Append es) l))"
proof (induction es arbitrary: l)
  case (Cons e es)
  obtain st l1 where one: "append_locked ho e l = (st, l1)" by fastforce
  with Cons [of l1] append_same_authority [OF one] show ?case
    by (auto simp: case_prod_beta intro: same_authority_trans)
qed simp

lemma wf_new: "wf_ledger (EfficiencyLedger_new lid)"
  by (rule wf.reachable_keeps) (rule reachable.start)

section \<open>Sample entries\<close>

definition shared_work :: LedgerEntry where
  "shared_work = LedgerEntry_default
     \<lparr>e_id := Identity 1, e_event := EventType_kExecutionCompleted,
      e_classification := EfficiencyClass_kUnknown,
      e_usage := zero_totals(kCpuNanoseconds := 100),
      e_shared := Some \<lparr>sh_policy = AttributionPolicy_kByBytes,
        sh_participants = [\<lparr>sp_account = Identity 7, sp_weight = 1\<rparr>, \<lparr>sp_account = Identity 8, sp_weight = 2\<rparr>]\<rparr>\<rparr>"

definition published_work :: LedgerEntry where
  "published_work = LedgerEntry_default
     \<lparr>e_id := Identity 2, e_event := EventType_kOutputPublished,
      e_classification := EfficiencyClass_kUseful, e_account := Identity 7,
      e_usage := zero_totals(kCpuNanoseconds := 10),
      e_fences := AuthorityFences_default\<lparr>f_epoch := Identity 1, f_publication := Identity 5\<rparr>,
      e_attempt := \<lparr>at_id = Identity 9, at_generation = Identity 1\<rparr>,
      e_attempt_outcome := AttemptOutcome_kSucceeded\<rparr>"

definition finished_transfer :: LedgerEntry where
  "finished_transfer = LedgerEntry_default
     \<lparr>e_id := Identity 3, e_event := EventType_kTransferCompleted,
      e_classification := EfficiencyClass_kNecessaryOverhead, e_account := Identity 8,
      e_usage := zero_totals(kTransferBytes := 50),
      e_owners := Owners_default\<lparr>o_transfer := Identity 4\<rparr>\<rparr>"

definition waste_revision :: LedgerEntry where
  "waste_revision = LedgerEntry_default
     \<lparr>e_id := Identity 4, e_event := EventType_kReclassify,
      e_classification := EfficiencyClass_kAvoidableWaste, e_account := Identity 7,
      e_revision_target := Some (Identity 1)\<rparr>"

definition sample_entries :: "LedgerEntry list" where
  "sample_entries = [shared_work, published_work, finished_transfer, waste_revision]"

definition sample_ledger :: EfficiencyLedger where
  "sample_ledger = snd (run_calls insertion_order (map Append sample_entries) (EfficiencyLedger_new (Identity 1)))"

lemma sample_run:
  "fst (run_calls insertion_order (map Append sample_entries) (EfficiencyLedger_new (Identity 1))) =
     replicate (length sample_entries) Status_success"
  by code_simp

lemma sample_reachable: "ErrorCode_kOk \<notin> faults \<Longrightarrow> reachable faults sample_ledger"
  unfolding sample_ledger_def by (rule reachable_all_ok) (simp_all add: sample_run)

lemma sample_history: "l_history sample_ledger = sample_entries"
  using run_appends_history [OF wf_new sample_run] by (simp add: sample_ledger_def EfficiencyLedger_new_def)

text \<open>The ledger before the revision, and the revision as the last step of the run.\<close>

definition unrevised_entries :: "LedgerEntry list" where
  "unrevised_entries = [shared_work, published_work, finished_transfer]"

definition unrevised_ledger :: EfficiencyLedger where
  "unrevised_ledger = snd (run_calls insertion_order (map Append unrevised_entries) (EfficiencyLedger_new (Identity 1)))"

lemma last_step:
  assumes "fst (run_calls ho (map Append (es @ [e])) l) = replicate (length es) Status_success @ [st]"
  shows "fst (run_calls ho (map Append es) l) = replicate (length es) Status_success"
    and "fst (append_locked ho e (snd (run_calls ho (map Append es) l))) = st"
    and "snd (append_locked ho e (snd (run_calls ho (map Append es) l))) = snd (run_calls ho (map Append (es @ [e])) l)"
proof -
  let ?l = "snd (run_calls ho (map Append es) l)"
  have run: "run_calls ho (map Append (es @ [e])) l =
      (fst (run_calls ho (map Append es) l) @ [fst (append_locked ho e ?l)], snd (append_locked ho e ?l))"
    by (simp add: run_calls_append case_prod_beta)
  with assms show "fst (run_calls ho (map Append es) l) = replicate (length es) Status_success"
    "fst (append_locked ho e ?l) = st" "snd (append_locked ho e ?l) = snd (run_calls ho (map Append (es @ [e])) l)"
    by simp_all
qed

lemma sample_snoc: "sample_entries = unrevised_entries @ [waste_revision]"
  by (simp add: sample_entries_def unrevised_entries_def)

lemma sample_run_snoc:
  "fst (run_calls insertion_order (map Append (unrevised_entries @ [waste_revision])) (EfficiencyLedger_new (Identity 1))) =
     replicate (length unrevised_entries) Status_success @ [Status_success]"
proof -
  have "replicate (length sample_entries) Status_success = replicate (length unrevised_entries) Status_success @ [Status_success]"
    by (simp add: sample_snoc replicate_append_same)
  with sample_run show ?thesis by (simp only: sample_snoc)
qed

lemma sample_step: "append_locked insertion_order waste_revision unrevised_ledger = (Status_success, sample_ledger)"
  using last_step(2,3) [OF sample_run_snoc] unfolding unrevised_ledger_def sample_ledger_def sample_snoc
  by (simp add: prod_eq_iff)

lemma unrevised_reachable: "ErrorCode_kOk \<notin> faults \<Longrightarrow> reachable faults unrevised_ledger"
  unfolding unrevised_ledger_def by (rule reachable_all_ok) (simp_all add: last_step(1) [OF sample_run_snoc])

lemma unrevised_history: "l_history unrevised_ledger = unrevised_entries"
  using run_appends_history [OF wf_new last_step(1) [OF sample_run_snoc]]
  by (simp add: unrevised_ledger_def EfficiencyLedger_new_def)

section \<open>A run in which revisions go wrong\<close>

definition unknown_work :: "u64 \<Rightarrow> ResourceUsage \<Rightarrow> LedgerEntry" where
  "unknown_work n u = LedgerEntry_default
     \<lparr>e_id := Identity n, e_classification := EfficiencyClass_kUnknown, e_account := Identity 7, e_usage := u\<rparr>"

definition revision_of :: "u64 \<Rightarrow> u64 \<Rightarrow> EfficiencyClass \<Rightarrow> LedgerEntry" where
  "revision_of n t c = LedgerEntry_default
     \<lparr>e_id := Identity n, e_event := EventType_kReclassify, e_classification := c, e_account := Identity 7,
      e_revision_target := Some (Identity t)\<rparr>"

text \<open>
  Two entries of unknown work; the first is revised to waste and then to overhead. Both revisions
  are accepted. A third revision of it fails in the second dimension it uses.
\<close>

definition revised_twice :: "LedgerEntry list" where
  "revised_twice =
     [unknown_work 1 (zero_totals(kCpuNanoseconds := 100, kTransferBytes := 50)),
      unknown_work 2 (zero_totals(kCpuNanoseconds := 200, kTransferBytes := 50)),
      revision_of 3 1 EfficiencyClass_kAvoidableWaste, revision_of 4 1 EfficiencyClass_kNecessaryOverhead]"

definition third_revision :: LedgerEntry where
  "third_revision = revision_of 5 1 EfficiencyClass_kAvoidableWaste"

lemma revised_run:
  "fst (run_calls insertion_order (map Append (revised_twice @ [third_revision])) (EfficiencyLedger_new (Identity 1))) =
     replicate 4 Status_success @ [Status ErrorCode_kReconciliationFailure ''reclassify underflow'']"
  by code_simp

definition revised_ledger :: EfficiencyLedger where
  "revised_ledger = snd (run_calls insertion_order (map Append revised_twice) (EfficiencyLedger_new (Identity 1)))"

lemma revised_run_snoc:
  "fst (run_calls insertion_order (map Append (revised_twice @ [third_revision])) (EfficiencyLedger_new (Identity 1))) =
     replicate (length revised_twice) Status_success @ [Status ErrorCode_kReconciliationFailure ''reclassify underflow'']"
proof -
  have "length revised_twice = 4" by (simp add: revised_twice_def)
  then show ?thesis by (simp only: revised_run)
qed

lemmas revised_twice_run = last_step(1) [OF revised_run_snoc]

lemma third_revision_fails:
  "fst (append_locked insertion_order third_revision revised_ledger) =
     Status ErrorCode_kReconciliationFailure ''reclassify underflow''"
  unfolding revised_ledger_def by (rule last_step(2) [OF revised_run_snoc])

lemma revised_reachable: "ErrorCode_kOk \<notin> faults \<Longrightarrow> reachable faults revised_ledger"
  unfolding revised_ledger_def by (rule reachable_all_ok) (simp_all add: revised_twice_run)

lemma revised_history: "l_history revised_ledger = revised_twice"
  using run_appends_history [OF wf_new revised_twice_run] by (simp add: revised_ledger_def EfficiencyLedger_new_def)

text \<open>
  A revision takes the amounts out of the bucket of the target's own class even if an earlier
  revision has already moved them: two entries of 100 and 200 unknown nanoseconds, the first revised to
  waste and then to overhead. Both revisions are accepted, and afterwards 100 of the nanoseconds of
  the second entry, which nobody revised, are no longer unknown.
\<close>

lemma second_revision_moves_again:
  "fst (run_calls insertion_order (map Append revised_twice) (EfficiencyLedger_new (Identity 1))) =
     replicate (length revised_twice) Status_success \<and>
   cell_of (l_accounts revised_ledger) (Identity 7) FUnknown kCpuNanoseconds = 100 \<and>
   cell_of (l_accounts revised_ledger) (Identity 7) FWaste kCpuNanoseconds = 100 \<and>
   cell_of (l_accounts revised_ledger) (Identity 7) FOverhead kCpuNanoseconds = 100"
proof -
  have "exact_ledger revised_ledger"
    by (rule exact.reachable_keeps) (rule revised_reachable, simp)
  then have cells: "int (cell_of (l_accounts revised_ledger) (Identity 7) f d) = book_totals revised_twice (Identity 7) f d" for f d
    by (simp add: exact_ledger_def revised_history)
  have "book_totals revised_twice (Identity 7) FUnknown kCpuNanoseconds = 100"
    "book_totals revised_twice (Identity 7) FWaste kCpuNanoseconds = 100"
    "book_totals revised_twice (Identity 7) FOverhead kCpuNanoseconds = 100"
    by code_simp+
  with cells [of FUnknown kCpuNanoseconds] cells [of FWaste kCpuNanoseconds] cells [of FOverhead kCpuNanoseconds]
    revised_twice_run show ?thesis by simp
qed

section \<open>A revision that a later entry undercuts\<close>

text \<open>
  On one attempt: publication 5, a revision that names publication 7 and a failure, and publication 6
  with a success. All three are accepted, although the last does not follow the revision.
\<close>

definition attempt_work :: "u64 \<Rightarrow> u64 \<Rightarrow> AttemptOutcome \<Rightarrow> LedgerEntry" where
  "attempt_work n pub outcome = LedgerEntry_default
     \<lparr>e_id := Identity n, e_classification := EfficiencyClass_kUnknown, e_account := Identity 7,
      e_fences := AuthorityFences_default\<lparr>f_publication := Identity pub\<rparr>,
      e_attempt := \<lparr>at_id = Identity 9, at_generation = Identity 1\<rparr>, e_attempt_outcome := outcome\<rparr>"

definition undercut_entries :: "LedgerEntry list" where
  "undercut_entries =
     [attempt_work 1 5 AttemptOutcome_kPending,
      (attempt_work 2 7 AttemptOutcome_kFailed)\<lparr>e_event := EventType_kReclassify, e_revision_target := Some (Identity 1)\<rparr>,
      attempt_work 3 6 AttemptOutcome_kSucceeded]"

definition undercut_ledger :: EfficiencyLedger where
  "undercut_ledger = snd (run_calls insertion_order (map Append undercut_entries) (EfficiencyLedger_new (Identity 1)))"

lemma undercut_run:
  "fst (run_calls insertion_order (map Append undercut_entries) (EfficiencyLedger_new (Identity 1))) =
     replicate (length undercut_entries) Status_success"
  by code_simp

lemma undercut_reachable: "ErrorCode_kOk \<notin> faults \<Longrightarrow> reachable faults undercut_ledger"
  unfolding undercut_ledger_def by (rule reachable_all_ok) (simp_all add: undercut_run)

lemma undercut_history: "l_history undercut_ledger = undercut_entries"
  using run_appends_history [OF wf_new undercut_run] by (simp add: undercut_ledger_def EfficiencyLedger_new_def)

lemma revision_undercut:
  "\<not> may_follow (undercut_entries ! 1) (undercut_entries ! 2)" "l_history undercut_ledger = undercut_entries"
  by (simp_all add: undercut_history, simp add: undercut_entries_def attempt_work_def may_follow_def has_outcome_def
      LedgerEntry_default_def AuthorityFences_default_def id_valid_def id_invalid_def)

section \<open>An overflow that stops half way\<close>

definition overflowing :: "LedgerEntry list" where
  "overflowing =
     [unknown_work 1 (zero_totals(kCpuNanoseconds := UINT64_MAX)),
      LedgerEntry_default\<lparr>e_id := Identity 2, e_usage := zero_totals(kCpuNanoseconds := 2),
        e_shared := Some \<lparr>sh_policy = AttributionPolicy_kEqualShare,
          sh_participants = [\<lparr>sp_account = Identity 8, sp_weight = 1\<rparr>, \<lparr>sp_account = Identity 7, sp_weight = 1\<rparr>]\<rparr>\<rparr>]"

definition overflown_ledger :: EfficiencyLedger where
  "overflown_ledger = snd (run_calls insertion_order (map Append overflowing) (EfficiencyLedger_new (Identity 1)))"

lemma overflowing_run:
  "fst (run_calls insertion_order (map Append overflowing) (EfficiencyLedger_new (Identity 1))) =
     [Status_success, Status ErrorCode_kOverflow ''physical overflow'']"
  by code_simp

lemma overflown_account: "has_account (Identity 8) overflown_ledger"
  unfolding overflown_ledger_def by code_simp

lemma overflowing_steps:
  "fst (run_calls insertion_order (map Append [hd overflowing]) (EfficiencyLedger_new (Identity 1))) = replicate 1 Status_success"
  "append_locked insertion_order (last overflowing) (snd (run_calls insertion_order (map Append [hd overflowing]) (EfficiencyLedger_new (Identity 1)))) =
     (Status ErrorCode_kOverflow ''physical overflow'', overflown_ledger)"
proof -
  have es: "overflowing = [hd overflowing] @ [last overflowing]" by (simp add: overflowing_def)
  have run: "fst (run_calls insertion_order (map Append ([hd overflowing] @ [last overflowing])) (EfficiencyLedger_new (Identity 1))) =
      replicate (length [hd overflowing]) Status_success @ [Status ErrorCode_kOverflow ''physical overflow'']"
    unfolding es [symmetric] overflowing_run by simp
  show "fst (run_calls insertion_order (map Append [hd overflowing]) (EfficiencyLedger_new (Identity 1))) = replicate 1 Status_success"
    using last_step(1) [OF run] by simp
  show "append_locked insertion_order (last overflowing) (snd (run_calls insertion_order (map Append [hd overflowing]) (EfficiencyLedger_new (Identity 1)))) =
     (Status ErrorCode_kOverflow ''physical overflow'', overflown_ledger)"
    using last_step(2,3) [OF run] unfolding es [symmetric] overflown_ledger_def [symmetric] by (simp add: prod_eq_iff)
qed

end
