(* ===== verification/EL_Codec.thy ===== *)
theory EL_Codec
  imports EL_Entry
begin

text \<open>
  The canonical binary codec of \<^verbatim>\<open>ledger.cpp\<close>: little-endian writers, the class \<open>Reader\<close>,
  \<open>encode_entry\<close> and \<open>decode_entry\<close>. Every pair of writer and reader is an interpretation of the
  locale \<open>codec\<close>, whose contract is that reading gives back what was written and leaves the rest, and
  that nothing else reads as that value: the encoding is canonical.
\<close>

section \<open>Writers\<close>

definition put_u8 :: "u8 \<Rightarrow> bytes" where
  "put_u8 v = [v]"

definition put_le :: "nat \<Rightarrow> 'a :: len word \<Rightarrow> bytes" where
  "put_le n v = map (\<lambda>i. ucast (drop_bit (8 * i) v AND 0xFF)) [0..<n]"

definition put_u16 :: "u16 \<Rightarrow> bytes" where
  "put_u16 v = put_le 2 v"

definition put_u32 :: "u32 \<Rightarrow> bytes" where
  "put_u32 v = put_le 4 v"

definition put_u64 :: "u64 \<Rightarrow> bytes" where
  "put_u64 v = put_le 8 v"

section \<open>Reader\<close>

text \<open>
  A \<open>Reader\<close> is its unread bytes. A method that returns \<open>false\<close> is \<open>None\<close>: every caller
  returns at once, so what a failing call leaves in its out-parameters is never seen.
\<close>

type_synonym 'a reader = "bytes \<Rightarrow> ('a \<times> bytes) option"

definition r_return :: "'a \<Rightarrow> 'a reader" where
  "r_return x bs = Some (x, bs)"

definition r_fail :: "'a reader" where
  "r_fail bs = None"

definition r_then :: "'a reader \<Rightarrow> ('a \<Rightarrow> 'b reader) \<Rightarrow> 'b reader" where
  "r_then p f bs = (case p bs of None \<Rightarrow> None | Some (x, rest) \<Rightarrow> f x rest)"

definition get_le :: "nat \<Rightarrow> bytes \<Rightarrow> 'a :: len word" where
  "get_le n bs = fold (\<lambda>i v. v OR push_bit (8 * i) (ucast (bs ! i))) [0..<n] 0"

definition r_u8 :: "u8 reader" where
  "r_u8 bs = (if 1 > length bs then None else Some (bs ! 0, drop 1 bs))"

definition r_u16 :: "u16 reader" where
  "r_u16 bs = (if 2 > length bs then None else Some (get_le 2 bs, drop 2 bs))"

definition r_u32 :: "u32 reader" where
  "r_u32 bs = (if 4 > length bs then None else Some (get_le 4 bs, drop 4 bs))"

definition r_u64 :: "u64 reader" where
  "r_u64 bs = (if 8 > length bs then None else Some (get_le 8 bs, drop 8 bs))"

definition r_bytes :: "nat \<Rightarrow> bytes reader" where
  "r_bytes n bs = (if n > length bs then None else Some (take n bs, drop n bs))"

definition r_remaining :: "nat reader" where
  "r_remaining bs = Some (length bs, bs)"

text \<open>A loop that reads \<open>n\<close> items.\<close>

fun r_times :: "nat \<Rightarrow> 'a reader \<Rightarrow> 'a list reader" where
  "r_times 0 p = r_return []"
| "r_times (Suc n) p = r_then p (\<lambda>x. r_then (r_times n p) (\<lambda>xs. r_return (x # xs)))"

text \<open>The presence byte in front of an optional part: 1 and the part, 0, or malformed.\<close>

definition put_optional :: "('a \<Rightarrow> bytes) \<Rightarrow> 'a option \<Rightarrow> bytes" where
  "put_optional put x = (case x of None \<Rightarrow> put_u8 0 | Some v \<Rightarrow> put_u8 1 @ put v)"

definition r_optional :: "'a reader \<Rightarrow> 'a option reader" where
  "r_optional p = r_then r_u8 (\<lambda>b.
     if b = 1 then r_then p (\<lambda>x. r_return (Some x)) else if b \<noteq> 0 then r_fail else r_return None)"

section \<open>The codec contract\<close>

locale codec =
  fixes enc :: "'a \<Rightarrow> bytes" and dec :: "'a reader" and ok :: "'a \<Rightarrow> bool"
  assumes round: "ok x \<Longrightarrow> dec (enc x @ rest) = Some (x, rest)"
    and canonical: "dec bs = Some (x, rest) \<Longrightarrow> bs = enc x @ rest \<and> ok x"
begin

lemma round_end: "ok x \<Longrightarrow> dec (enc x) = Some (x, [])"
  using round [of x "[]"] by simp

lemma prefix_free: "enc x @ r = enc y @ r' \<Longrightarrow> ok x \<Longrightarrow> ok y \<Longrightarrow> x = y \<and> r = r'"
proof -
  assume eq: "enc x @ r = enc y @ r'" and "ok x" "ok y"
  then have "Some (x, r) = Some (y, r')"
    unfolding round [OF \<open>ok x\<close>, symmetric] round [OF \<open>ok y\<close>, symmetric] by (simp only: eq)
  then show ?thesis by simp
qed

lemma round_times:
  "list_all ok xs \<Longrightarrow> r_times (length xs) dec (concat (map enc xs) @ rest) = Some (xs, rest)"
  by (induction xs) (simp_all add: r_return_def r_then_def round)

lemma canonical_times:
  "r_times n dec bs = Some (xs, rest) \<Longrightarrow> bs = concat (map enc xs) @ rest \<and> length xs = n \<and> list_all ok xs"
proof (induction n arbitrary: bs xs)
  case (Suc n)
  obtain x bs1 ys where x: "dec bs = Some (x, bs1)" and ys: "r_times n dec bs1 = Some (ys, rest)" and "xs = x # ys"
    using Suc.prems by (auto simp: r_then_def r_return_def split: option.splits prod.splits)
  with canonical [OF x] Suc.IH [OF ys] show ?case by simp
qed (simp add: r_return_def)

text \<open>Reading is stable: more bytes at the end do not change what was read.\<close>

lemma stable: "dec bs = Some (x, rest) \<Longrightarrow> dec (bs @ bs') = Some (x, rest @ bs')"
  by (metis append_assoc canonical round)

text \<open>The presence byte of an optional part.\<close>

lemma round_optional:
  "(case x of None \<Rightarrow> True | Some v \<Rightarrow> ok v) \<Longrightarrow> r_optional dec (put_optional enc x @ rest) = Some (x, rest)"
  by (cases x) (simp_all add: put_optional_def r_optional_def r_then_def r_return_def r_u8_def put_u8_def round)

lemma canonical_optional:
  assumes "r_optional dec bs = Some (x, rest)"
  shows "bs = put_optional enc x @ rest \<and> (case x of None \<Rightarrow> True | Some v \<Rightarrow> ok v)"
proof (cases bs)
  case (Cons b bs1)
  consider "b = 1" | "b = 0" | "b \<noteq> 0" "b \<noteq> 1" by blast
  then show ?thesis
  proof cases
    case 1
    then obtain v where "dec bs1 = Some (v, rest)" "x = Some v"
      using assms Cons by (auto simp: r_optional_def r_then_def r_return_def r_u8_def split: option.splits prod.splits)
    with 1 Cons canonical [of bs1 v rest] show ?thesis by (simp add: put_optional_def put_u8_def)
  next
    case 2
    with assms Cons show ?thesis
      by (simp add: r_optional_def r_then_def r_return_def r_u8_def put_optional_def put_u8_def split: option.splits)
  next
    case 3
    with assms Cons show ?thesis
      by (simp add: r_optional_def r_then_def r_fail_def r_u8_def)
  qed
qed (use assms in \<open>simp add: r_optional_def r_then_def r_u8_def\<close>)

end

section \<open>Little-endian words\<close>

lemma length_put_le [simp]: "length (put_le n v) = n"
  by (simp add: put_le_def)

lemma bit_get_le:
  "bit (get_le n bs :: 'a :: len word) m \<longleftrightarrow> m < LENGTH('a) \<and> m div 8 < n \<and> bit (bs ! (m div 8)) (m mod 8)"
proof (induction n)
  case (Suc n)
  have byte: "bit (bs ! n) (m - 8 * n) \<longleftrightarrow> m div 8 = n \<and> bit (bs ! (m div 8)) (m mod 8)" if "8 * n \<le> m"
  proof (cases "m div 8 = n")
    case True
    then have "m - 8 * n = m mod 8" using div_mult_mod_eq [of m 8] by linarith
    with True show ?thesis by simp
  next
    case False
    with that have "8 \<le> m - 8 * n" by linarith
    then have "\<not> bit (bs ! n) (m - 8 * n)" using bit_imp_le_length by fastforce
    with False show ?thesis by simp
  qed
  have "bit (get_le (Suc n) bs :: 'a word) m \<longleftrightarrow>
      bit (get_le n bs :: 'a word) m \<or> m < LENGTH('a) \<and> 8 * n \<le> m \<and> bit (bs ! n) (m - 8 * n)"
    by (auto simp: get_le_def bit_simps)
  also have "\<dots> \<longleftrightarrow> m < LENGTH('a) \<and> m div 8 < Suc n \<and> bit (bs ! (m div 8)) (m mod 8)"
    using Suc.IH byte by (cases "8 * n \<le> m") (auto simp: less_Suc_eq)
  finally show ?case .
qed (simp add: get_le_def)

lemma bit_put_le:
  fixes v :: "'a :: len word"
  assumes "m < 8 * n"
  shows "bit (put_le n v ! (m div 8)) (m mod 8) \<longleftrightarrow> bit v m"
proof -
  have ff: "(0xFF :: 'a word) = mask 8" by (simp add: mask_eq_exp_minus_1)
  have "m div 8 < n" using assms by linarith
  moreover have "8 * (m div 8) + m mod 8 = m" by simp
  moreover have "bit v m \<Longrightarrow> m < LENGTH('a)" by (rule bit_imp_le_length)
  ultimately show ?thesis
    by (auto simp: put_le_def ff bit_simps)
qed

lemma get_put_le:
  fixes v :: "'a :: len word"
  assumes "LENGTH('a) = 8 * n"
  shows "get_le n (put_le n v @ rest) = v"
proof (rule bit_eqI)
  fix m
  show "bit (get_le n (put_le n v @ rest) :: 'a word) m = bit v m"
  proof (cases "m < 8 * n")
    case True
    then have "m div 8 < n" by linarith
    with True assms show ?thesis
      by (simp add: bit_get_le nth_append bit_put_le)
  next
    case False
    with assms bit_imp_le_length [of v m] show ?thesis
      by (auto simp: bit_get_le)
  qed
qed

lemma put_get_le:
  assumes "LENGTH('a :: len) = 8 * n" and "n \<le> length bs"
  shows "put_le n (get_le n bs :: 'a word) = take n bs"
proof (rule nth_equalityI)
  fix i assume "i < length (put_le n (get_le n bs :: 'a word))"
  then have i: "i < n" by simp
  have ff: "(0xFF :: 'a word) = mask 8" by (simp add: mask_eq_exp_minus_1)
  show "put_le n (get_le n bs :: 'a word) ! i = take n bs ! i"
  proof (rule bit_eqI)
    fix m
    have "bit (bs ! i) m \<Longrightarrow> m < 8" using bit_imp_le_length [of "bs ! i" m] by simp
    moreover have "8 * i + m < 8 * n" if "m < 8" using i that by linarith
    ultimately show "bit (put_le n (get_le n bs :: 'a word) ! i) m = bit (take n bs ! i) m"
      using i assms(1) by (cases "m < 8") (auto simp: put_le_def ff bit_simps bit_get_le)
  qed
qed (use assms in simp)

interpretation u8: codec put_u8 r_u8 "\<lambda>_. True"
  by unfold_locales (auto simp: put_u8_def r_u8_def Suc_le_length_iff neq_Nil_conv split: if_splits)

interpretation u16: codec put_u16 r_u16 "\<lambda>_. True"
  by unfold_locales (auto simp: put_u16_def r_u16_def get_put_le put_get_le split: if_splits)

interpretation u32: codec put_u32 r_u32 "\<lambda>_. True"
  by unfold_locales (auto simp: put_u32_def r_u32_def get_put_le put_get_le split: if_splits)

interpretation u64: codec put_u64 r_u64 "\<lambda>_. True"
  by unfold_locales (auto simp: put_u64_def r_u64_def get_put_le put_get_le split: if_splits)

lemma length_put [simp]:
  "length (put_u8 a) = 1" "length (put_u16 b) = 2" "length (put_u32 c) = 4" "length (put_u64 d) = 8"
  by (simp_all add: put_u8_def put_u16_def put_u32_def put_u64_def)

lemmas [codec_simps] = u8.round [OF TrueI] u16.round [OF TrueI] u32.round [OF TrueI] u64.round [OF TrueI]
lemmas [codec_simps] = r_then_def r_return_def r_fail_def

section \<open>The parts of an entry\<close>

definition put_usage :: "ResourceUsage \<Rightarrow> bytes" where
  "put_usage u = concat (map (\<lambda>d. put_u64 (u d)) dims)"

definition usage_of :: "u64 list \<Rightarrow> ResourceUsage" where
  "usage_of vs d = (case map_of (zip dims vs) d of None \<Rightarrow> 0 | Some v \<Rightarrow> v)"

definition r_usage :: "ResourceUsage reader" where
  "r_usage = r_then (r_times kDimensionCount r_u64) (\<lambda>vs. r_return (usage_of vs))"

definition put_participant :: "SharedParticipant \<Rightarrow> bytes" where
  "put_participant p = put_u64 (id_value (sp_account p)) @ put_u64 (sp_weight p)"

definition r_participant :: "SharedParticipant reader" where
  "r_participant = r_then r_u64 (\<lambda>acc. r_then r_u64 (\<lambda>w. r_return \<lparr>sp_account = Identity acc, sp_weight = w\<rparr>))"

definition put_shared :: "SharedRef \<Rightarrow> bytes" where
  "put_shared s = put_u8 (AttributionPolicy_code (sh_policy s)) @
     put_u32 (word_of_nat (length (sh_participants s))) @ concat (map put_participant (sh_participants s))"

definition r_shared :: "SharedRef reader" where
  "r_shared = r_then r_u8 (\<lambda>pol. r_then r_u32 (\<lambda>n.
     if unat n > kMaxSharedParticipants then r_fail
     else r_then (r_times (unat n) r_participant) (\<lambda>ps.
       r_return \<lparr>sh_policy = AttributionPolicy pol, sh_participants = ps\<rparr>)))"

definition put_fences :: "AuthorityFences \<Rightarrow> bytes" where
  "put_fences f =
     put_u64 (id_value (f_epoch f)) @ put_u64 (id_value (f_worker_boot f)) @
     put_u64 (id_value (f_ledger_generation f)) @ put_u64 (id_value (f_account_generation f)) @
     put_u64 (id_value (f_workload_generation f)) @ put_u64 (id_value (f_resource_generation f)) @
     put_u64 (id_value (f_reservation_generation f)) @ put_u64 (id_value (f_allocation_generation f)) @
     put_u64 (id_value (f_transfer_generation f)) @ put_u64 (id_value (f_recovery_generation f)) @
     put_u64 (id_value (f_cache_generation f)) @ put_u64 (id_value (f_evidence_generation f)) @
     put_u64 (id_value (f_accounting_generation f)) @ put_u64 (id_value (f_publication f))"

definition r_fences :: "AuthorityFences reader" where
  "r_fences =
     r_then r_u64 (\<lambda>v1. r_then r_u64 (\<lambda>v2. r_then r_u64 (\<lambda>v3. r_then r_u64 (\<lambda>v4. r_then r_u64 (\<lambda>v5.
     r_then r_u64 (\<lambda>v6. r_then r_u64 (\<lambda>v7. r_then r_u64 (\<lambda>v8. r_then r_u64 (\<lambda>v9. r_then r_u64 (\<lambda>v10.
     r_then r_u64 (\<lambda>v11. r_then r_u64 (\<lambda>v12. r_then r_u64 (\<lambda>v13. r_then r_u64 (\<lambda>v14. r_return
       \<lparr>f_epoch = Identity v1, f_worker_boot = Identity v2, f_ledger_generation = Identity v3,
        f_account_generation = Identity v4, f_workload_generation = Identity v5,
        f_resource_generation = Identity v6, f_reservation_generation = Identity v7,
        f_allocation_generation = Identity v8, f_transfer_generation = Identity v9,
        f_recovery_generation = Identity v10, f_cache_generation = Identity v11,
        f_evidence_generation = Identity v12, f_accounting_generation = Identity v13,
        f_publication = Identity v14\<rparr>))))))))))))))"

definition put_owners :: "Owners \<Rightarrow> bytes" where
  "put_owners ow =
     put_u64 (id_value (o_resource ow)) @ put_u64 (id_value (o_transfer ow)) @
     put_u64 (id_value (o_reservation ow)) @ put_u64 (id_value (o_allocation ow)) @
     put_u64 (id_value (o_recovery ow)) @ put_u64 (id_value (o_cache_object ow)) @
     put_u64 (id_value (o_device ow)) @ put_u64 (id_value (o_request ow)) @
     put_u64 (id_value (o_workload ow)) @ put_u64 (id_value (o_job ow)) @ put_u64 (id_value (o_service ow))"

definition r_owners :: "Owners reader" where
  "r_owners =
     r_then r_u64 (\<lambda>v1. r_then r_u64 (\<lambda>v2. r_then r_u64 (\<lambda>v3. r_then r_u64 (\<lambda>v4. r_then r_u64 (\<lambda>v5.
     r_then r_u64 (\<lambda>v6. r_then r_u64 (\<lambda>v7. r_then r_u64 (\<lambda>v8. r_then r_u64 (\<lambda>v9. r_then r_u64 (\<lambda>v10.
     r_then r_u64 (\<lambda>v11. r_return
       \<lparr>o_resource = Identity v1, o_transfer = Identity v2, o_reservation = Identity v3,
        o_allocation = Identity v4, o_recovery = Identity v5, o_cache_object = Identity v6,
        o_device = Identity v7, o_request = Identity v8, o_workload = Identity v9,
        o_job = Identity v10, o_service = Identity v11\<rparr>)))))))))))"

definition put_subcategory :: "Subcategory \<Rightarrow> bytes" where
  "put_subcategory s =
     put_u8 (UsefulReason_code (sc_useful s)) @ put_u8 (OverheadReason_code (sc_overhead s)) @
     put_u8 (WasteReason_code (sc_waste s)) @ put_u8 (AvoidedWorkReason_code (sc_avoided s)) @
     put_u8 (StrandedReason_code (sc_stranded s))"

definition r_subcategory :: "Subcategory reader" where
  "r_subcategory =
     r_then r_u8 (\<lambda>b1. r_then r_u8 (\<lambda>b2. r_then r_u8 (\<lambda>b3. r_then r_u8 (\<lambda>b4. r_then r_u8 (\<lambda>b5. r_return
       \<lparr>sc_useful = UsefulReason b1, sc_overhead = OverheadReason b2, sc_waste = WasteReason b3,
        sc_avoided = AvoidedWorkReason b4, sc_stranded = StrandedReason b5\<rparr>)))))"

section \<open>The entry\<close>

definition kMaxNoteLen :: nat where
  "kMaxNoteLen = 2 ^ 20"

definition kMaxBodyLen :: u32 where
  "kMaxBodyLen = 2 ^ 26"

definition entry_body :: "LedgerEntry \<Rightarrow> bytes" where
  "entry_body e =
     put_u64 (id_value (e_id e)) @ put_u8 (EventType_code (e_event e)) @
     put_u8 (EfficiencyClass_code (e_classification e)) @ put_subcategory (e_subcategory e) @
     put_usage (e_usage e) @ put_optional put_usage (e_avoided_work e) @
     put_optional put_usage (e_stranded_capacity e) @
     put_u8 (Provenance_code (e_provenance e)) @ put_u8 (Freshness_code (e_freshness e)) @
     put_u64 (id_value (e_account e)) @ put_optional put_shared (e_shared e) @
     put_fences (e_fences e) @ put_owners (e_owners e) @
     put_u64 (id_value (at_id (e_attempt e))) @ put_u64 (id_value (at_generation (e_attempt e))) @
     put_u8 (AttemptOutcome_code (e_attempt_outcome e)) @
     put_optional (\<lambda>i. put_u64 (id_value i)) (e_revision_target e) @
     put_u32 (word_of_nat (length (e_note e))) @ e_note e"

text \<open>The length word is written as zero and patched once the body is known.\<close>

definition encode_entry :: "LedgerEntry \<Rightarrow> bytes \<Rightarrow> bytes" where
  "encode_entry e out = out @ put_u32 (word_of_nat (length (entry_body e))) @ entry_body e"

text \<open>
  \<open>decode_entry\<close> fills an entry it is given: optional parts that are absent, and an empty note,
  leave the corresponding fields of that entry as they are.
\<close>

definition r_note :: "bytes \<Rightarrow> bytes reader" where
  "r_note old = r_then r_u32 (\<lambda>note_len.
     if unat note_len > kMaxNoteLen then r_fail
     else r_then r_remaining (\<lambda>n.
       if n \<noteq> unat note_len then r_fail
       else if note_len > 0 then r_bytes (unat note_len) else r_return old))"

definition keep :: "'a option \<Rightarrow> 'a option \<Rightarrow> 'a option" where
  "keep old new = (case new of None \<Rightarrow> old | Some v \<Rightarrow> Some v)"

definition r_entry :: "LedgerEntry \<Rightarrow> LedgerEntry reader" where
  "r_entry e =
     r_then r_u64 (\<lambda>eid. r_then r_u8 (\<lambda>event. r_then r_u8 (\<lambda>cls. r_then r_subcategory (\<lambda>sub.
     r_then r_usage (\<lambda>usage. r_then (r_optional r_usage) (\<lambda>avoided. r_then (r_optional r_usage) (\<lambda>stranded.
     r_then r_u8 (\<lambda>prov. r_then r_u8 (\<lambda>fresh. r_then r_u64 (\<lambda>acc. r_then (r_optional r_shared) (\<lambda>shared.
     r_then r_fences (\<lambda>fences. r_then r_owners (\<lambda>owners.
     r_then r_u64 (\<lambda>aid. r_then r_u64 (\<lambda>agen. r_then r_u8 (\<lambda>outcome.
     r_then (r_optional r_u64) (\<lambda>target. r_then (r_note (e_note e)) (\<lambda>nt. r_return
       \<lparr>e_id = Identity eid, e_event = EventType event, e_classification = EfficiencyClass cls,
        e_subcategory = sub, e_usage = usage, e_avoided_work = keep (e_avoided_work e) avoided,
        e_stranded_capacity = keep (e_stranded_capacity e) stranded, e_provenance = Provenance prov,
        e_freshness = Freshness fresh, e_account = Identity acc, e_shared = keep (e_shared e) shared,
        e_fences = fences, e_owners = owners, e_attempt = \<lparr>at_id = Identity aid, at_generation = Identity agen\<rparr>,
        e_attempt_outcome = AttemptOutcome outcome,
        e_revision_target = keep (e_revision_target e) (map_option Identity target),
        e_note = nt\<rparr>))))))))))))))))))"

definition decode_entry :: "bytes \<Rightarrow> nat \<Rightarrow> LedgerEntry \<Rightarrow> (LedgerEntry \<times> nat) option" where
  "decode_entry buf offset e =
     (if offset + 4 > length buf then None
      else let len = get_le 4 (drop offset buf) :: u32; offset1 = offset + 4
           in if len > kMaxBodyLen then None
              else if offset1 + unat len > length buf then None
              else case r_entry e (take (unat len) (drop offset1 buf)) of
                     None \<Rightarrow> None
                   | Some (e', _) \<Rightarrow> Some (e', offset1 + unat len))"

section \<open>Every part is a canonical codec\<close>

lemma r_thenE:
  assumes "r_then p f bs = Some (y, rest)"
  obtains x bs1 where "p bs = Some (x, bs1)" and "f x bs1 = Some (y, rest)"
  using assms by (auto simp: r_then_def split: option.splits)

lemma r_return_iff [simp]: "r_return x bs = Some (y, rest) \<longleftrightarrow> y = x \<and> rest = bs"
  by (auto simp: r_return_def)

lemma r_fail_iff [simp]: "r_fail bs \<noteq> Some y"
  by (simp add: r_fail_def)

lemma usage_of_map [simp]: "usage_of (map u dims) = u"
proof
  fix d
  have "map_of (zip dims (map u dims)) d = Some (u d)"
    by (simp add: map_of_zip_map)
  then show "usage_of (map u dims) d = u d" by (simp add: usage_of_def)
qed

lemma map_usage_of: "length vs = 16 \<Longrightarrow> map (usage_of vs) dims = vs"
proof (rule nth_equalityI)
  fix i assume len: "length vs = 16" and "i < length (map (usage_of vs) dims)"
  then have i: "i < length dims" "i < length vs" by simp_all
  then have "(dims ! i, vs ! i) \<in> set (zip dims vs)" by (auto simp: set_zip)
  then have "map_of (zip dims vs) (dims ! i) = Some (vs ! i)"
    using len by (intro map_of_is_SomeI) simp_all
  with i show "map (usage_of vs) dims ! i = vs ! i" by (simp add: usage_of_def)
qed simp

lemma put_usage_alt: "put_usage u = concat (map put_u64 (map u dims))"
  by (simp add: put_usage_def o_def)

interpretation usage: codec put_usage r_usage "\<lambda>_. True"
proof
  fix u :: ResourceUsage and bs rest :: bytes
  have "r_times kDimensionCount r_u64 (put_usage u @ rest) = Some (map u dims, rest)"
    using u64.round_times [of "map u dims" rest] unfolding put_usage_alt by (simp add: kDimensionCount_def list_all_iff)
  then show "r_usage (put_usage u @ rest) = Some (u, rest)"
    by (simp add: r_usage_def r_then_def)
  assume "r_usage bs = Some (u, rest)"
  then obtain vs where vs: "r_times kDimensionCount r_u64 bs = Some (vs, rest)" and u: "u = usage_of vs"
    unfolding r_usage_def by (elim r_thenE) simp
  from u64.canonical_times [OF vs] have "bs = concat (map put_u64 vs) @ rest" "length vs = 16"
    by (simp_all add: kDimensionCount_def)
  then show "bs = put_usage u @ rest \<and> True"
    by (simp only: put_usage_alt u map_usage_of)
qed

interpretation participant: codec put_participant r_participant "\<lambda>_. True"
proof
  fix p :: SharedParticipant and bs rest :: bytes
  show "r_participant (put_participant p @ rest) = Some (p, rest)"
    by (simp add: r_participant_def put_participant_def codec_simps)
  assume "r_participant bs = Some (p, rest)"
  then show "bs = put_participant p @ rest \<and> True"
    unfolding r_participant_def by (elim r_thenE) (auto simp: put_participant_def dest!: u64.canonical)
qed

definition shared_fits :: "SharedRef \<Rightarrow> bool" where
  "shared_fits s \<longleftrightarrow> length (sh_participants s) \<le> kMaxSharedParticipants"

lemma unat_length_u32: "length xs < 4294967296 \<Longrightarrow> unat (word_of_nat (length xs) :: u32) = length xs"
  by (simp add: unat_of_nat take_bit_eq_mod)

interpretation shared: codec put_shared r_shared shared_fits
proof
  fix s :: SharedRef and bs rest :: bytes
  show "r_shared (put_shared s @ rest) = Some (s, rest)" if "shared_fits s"
    using that participant.round_times [of "sh_participants s" rest]
    by (simp add: r_shared_def put_shared_def codec_simps shared_fits_def kMaxSharedParticipants_def
        unat_length_u32 list_all_iff)
  assume "r_shared bs = Some (s, rest)"
  then obtain pol n bs1 bs2 ps where pol: "r_u8 bs = Some (pol, bs1)" and n: "r_u32 bs1 = Some (n, bs2)"
    and small: "unat n \<le> kMaxSharedParticipants" and ps: "r_times (unat n) r_participant bs2 = Some (ps, rest)"
    and s: "s = \<lparr>sh_policy = AttributionPolicy pol, sh_participants = ps\<rparr>"
    unfolding r_shared_def by (elim r_thenE) (auto simp: not_less split: if_splits elim!: r_thenE)
  with u8.canonical [OF pol] u32.canonical [OF n] participant.canonical_times [OF ps]
  show "bs = put_shared s @ rest \<and> shared_fits s"
    by (auto simp: put_shared_def shared_fits_def)
qed

interpretation fences: codec put_fences r_fences "\<lambda>_. True"
proof
  fix f :: AuthorityFences and bs rest :: bytes
  show "r_fences (put_fences f @ rest) = Some (f, rest)"
    by (simp add: r_fences_def put_fences_def codec_simps)
  assume "r_fences bs = Some (f, rest)"
  then show "bs = put_fences f @ rest \<and> True"
    unfolding r_fences_def by (elim r_thenE) (auto simp: put_fences_def dest!: u64.canonical)
qed

interpretation owners: codec put_owners r_owners "\<lambda>_. True"
proof
  fix ow :: Owners and bs rest :: bytes
  show "r_owners (put_owners ow @ rest) = Some (ow, rest)"
    by (simp add: r_owners_def put_owners_def codec_simps)
  assume "r_owners bs = Some (ow, rest)"
  then show "bs = put_owners ow @ rest \<and> True"
    unfolding r_owners_def by (elim r_thenE) (auto simp: put_owners_def dest!: u64.canonical)
qed

interpretation subcategory: codec put_subcategory r_subcategory "\<lambda>_. True"
proof
  fix s :: Subcategory and bs rest :: bytes
  show "r_subcategory (put_subcategory s @ rest) = Some (s, rest)"
    by (simp add: r_subcategory_def put_subcategory_def codec_simps)
  assume "r_subcategory bs = Some (s, rest)"
  then show "bs = put_subcategory s @ rest \<and> True"
    unfolding r_subcategory_def by (elim r_thenE) (auto simp: put_subcategory_def dest!: u8.canonical)
qed

lemmas [codec_simps] =
  usage.round [OF TrueI] fences.round [OF TrueI] owners.round [OF TrueI] subcategory.round [OF TrueI]

section \<open>The entry codec\<close>

text \<open>
  What the reader accepts bounds two parts of an entry; the writer does not check them.
\<close>

definition encodable :: "LedgerEntry \<Rightarrow> bool" where
  "encodable e \<longleftrightarrow> length (e_note e) \<le> kMaxNoteLen \<and>
     (case e_shared e of None \<Rightarrow> True | Some s \<Rightarrow> shared_fits s)"

lemma r_note_round:
  "length (nt :: bytes) \<le> kMaxNoteLen \<Longrightarrow> r_note [] (put_u32 (word_of_nat (length nt)) @ nt) = Some (nt, [])"
  by (auto simp: r_note_def codec_simps kMaxNoteLen_def unat_length_u32 r_remaining_def r_bytes_def
      word_less_nat_alt)

lemma r_note_canonical:
  assumes "r_note [] bs = Some (nt, rest)"
  shows "bs = put_u32 (word_of_nat (length nt)) @ nt \<and> rest = [] \<and> length nt \<le> kMaxNoteLen"
proof -
  obtain n bs1 where n: "r_u32 bs = Some (n, bs1)" and small: "unat n \<le> kMaxNoteLen" "length bs1 = unat n"
    and body: "(if n > 0 then r_bytes (unat n) bs1 else Some ([], bs1)) = Some (nt, rest)"
    using assms unfolding r_note_def
    by (elim r_thenE) (auto simp: r_remaining_def r_return_def not_less split: if_splits elim!: r_thenE)
  have "nt = bs1 \<and> rest = []"
    using body small by (auto simp: r_bytes_def word_gt_0 split: if_splits)
  moreover have "(word_of_nat (length bs1) :: u32) = n"
    using small by simp
  ultimately show ?thesis
    using u32.canonical [OF n] small by simp
qed

lemma optional_id_round:
  "r_optional r_u64 (put_optional (\<lambda>i. put_u64 (id_value i)) x @ rest) = Some (map_option id_value x, rest)"
  by (cases x) (simp_all add: put_optional_def r_optional_def codec_simps)

lemma optional_id_canonical:
  assumes "r_optional r_u64 bs = Some (t, rest)"
  shows "bs = put_optional (\<lambda>i. put_u64 (id_value i)) (map_option Identity t) @ rest"
  using u64.canonical_optional [OF assms] by (cases t) (simp_all add: put_optional_def)

lemma keep_None [simp]: "keep None x = x"
  by (simp add: keep_def split: option.splits)

lemma map_option_Identity [simp]: "map_option Identity (map_option id_value x) = x"
  by (cases x) simp_all

lemma LedgerEntry_default_simps [simp]:
  "e_avoided_work LedgerEntry_default = None" "e_stranded_capacity LedgerEntry_default = None"
  "e_shared LedgerEntry_default = None" "e_revision_target LedgerEntry_default = None"
  "e_note LedgerEntry_default = []"
  by (simp_all add: LedgerEntry_default_def)

lemma r_entry_round:
  assumes "encodable e"
  shows "r_entry LedgerEntry_default (entry_body e) = Some (e, [])"
proof -
  have "r_optional r_shared (put_optional put_shared (e_shared e) @ rest) = Some (e_shared e, rest)" for rest
    using assms by (intro shared.round_optional) (simp add: encodable_def)
  moreover have "r_optional r_usage (put_optional put_usage x @ rest) = Some (x, rest)" for x rest
    by (rule usage.round_optional) (simp split: option.splits)
  moreover have "r_note [] (put_u32 (word_of_nat (length (e_note e))) @ e_note e) = Some (e_note e, [])"
    using assms by (intro r_note_round) (simp add: encodable_def)
  ultimately show ?thesis
    by (simp add: r_entry_def entry_body_def codec_simps optional_id_round)
qed

lemma r_entry_canonical:
  assumes "r_entry LedgerEntry_default bs = Some (e, rest)"
  shows "bs = entry_body e \<and> rest = [] \<and> encodable e"
  using assms unfolding r_entry_def
  by (elim r_thenE)
    (auto simp: entry_body_def encodable_def
      dest!: u64.canonical u8.canonical subcategory.canonical usage.canonical usage.canonical_optional
        shared.canonical_optional fences.canonical owners.canonical optional_id_canonical r_note_canonical)

lemma length_put_usage [simp]: "length (put_usage u) = 128"
proof -
  have "length (concat (map (\<lambda>d. put_u64 (u d)) ds)) = 8 * length ds" for ds
    by (induction ds) simp_all
  then show ?thesis by (simp add: put_usage_def)
qed

lemma length_entry_body:
  assumes "encodable e"
  shows "length (entry_body e) \<le> 2 ^ 26"
proof -
  have "length (concat (map put_participant ps)) = 16 * length ps" for ps
    by (induction ps) (simp_all add: put_participant_def)
  then have "length (put_optional put_shared (e_shared e)) \<le> 65542"
    using assms
    by (auto simp: encodable_def put_optional_def put_shared_def shared_fits_def kMaxSharedParticipants_def split: option.splits)
  moreover have "length (put_optional put_usage x) \<le> 129" for x
    by (auto simp: put_optional_def split: option.splits)
  then have "length (put_optional put_usage (e_avoided_work e)) \<le> 129" "length (put_optional put_usage (e_stranded_capacity e)) \<le> 129"
    by blast+
  moreover have "length (put_optional (\<lambda>i. put_u64 (id_value i)) (e_revision_target e)) \<le> 9"
    by (auto simp: put_optional_def split: option.splits)
  moreover have "length (e_note e) \<le> 1048576"
    using assms by (simp add: encodable_def kMaxNoteLen_def)
  ultimately show ?thesis
    by (simp add: entry_body_def put_fences_def put_owners_def put_subcategory_def)
qed

lemma unat_body_len:
  assumes "encodable e"
  shows "unat (word_of_nat (length (entry_body e)) :: u32) = length (entry_body e)"
    and "(word_of_nat (length (entry_body e)) :: u32) \<le> kMaxBodyLen"
proof -
  show eq: "unat (word_of_nat (length (entry_body e)) :: u32) = length (entry_body e)"
    using length_entry_body [OF assms] by (intro unat_length_u32) simp
  show "(word_of_nat (length (entry_body e)) :: u32) \<le> kMaxBodyLen"
    using length_entry_body [OF assms] by (simp add: word_le_nat_alt eq kMaxBodyLen_def)
qed

text \<open>The two halves of the codec, at any offset of a buffer.\<close>

lemma decode_encode_entry:
  assumes "encodable e"
  shows "decode_entry (encode_entry e out @ rest) (length out) LedgerEntry_default = Some (e, length (encode_entry e out))"
  using unat_body_len [OF assms] r_entry_round [OF assms]
  by (simp add: decode_entry_def encode_entry_def Let_def put_u32_def get_put_le not_less)

lemma decode_entry_canonical:
  assumes "decode_entry buf offset LedgerEntry_default = Some (e, offset')"
  shows "encodable e \<and> offset' \<le> length buf \<and> take offset' buf = encode_entry e (take offset buf)"
proof -
  let ?len = "get_le 4 (drop offset buf) :: u32"
  have fit: "offset + 4 + unat ?len \<le> length buf" and off: "offset' = offset + 4 + unat ?len"
    and body: "\<exists>rest. r_entry LedgerEntry_default (take (unat ?len) (drop (offset + 4) buf)) = Some (e, rest)"
    using assms by (auto simp: decode_entry_def Let_def not_less split: if_splits option.splits)
  then have eb: "take (unat ?len) (drop (offset + 4) buf) = entry_body e" and ok: "encodable e"
    using r_entry_canonical by blast+
  have "length (entry_body e) = unat ?len"
    using fit by (simp add: eb [symmetric])
  then have len: "?len = word_of_nat (length (entry_body e))" by simp
  have "put_u32 ?len = take 4 (drop offset buf)"
    using fit by (simp add: put_u32_def put_get_le)
  then have "take offset' buf = take offset buf @ put_u32 ?len @ entry_body e"
    unfolding off by (simp add: take_add eb [symmetric] add.assoc ac_simps)
  with fit off ok show ?thesis
    by (simp add: encode_entry_def len)
qed

lemma decode_entry_stable:
  assumes "decode_entry buf offset LedgerEntry_default = Some (e, offset')"
  shows "decode_entry (buf @ bs) offset LedgerEntry_default = Some (e, offset')"
proof -
  note can = decode_entry_canonical [OF assms]
  have "buf = encode_entry e (take offset buf) @ drop offset' buf"
    using can append_take_drop_id [of offset' buf] by simp
  moreover have "offset \<le> length buf"
    using assms by (auto simp: decode_entry_def split: if_splits)
  moreover have "length (encode_entry e (take offset buf)) = offset'"
    using can by (metis length_take min.absorb2)
  ultimately show ?thesis
    using decode_encode_entry [of e "take offset buf" "drop offset' buf @ bs"] can
    by (metis append_assoc length_take min.absorb2)
qed

section \<open>Notes the reader does not accept\<close>

text \<open>
  The writer puts out a note of any length; the reader refuses an entry whose note is longer than
  its limit, whatever follows it.
\<close>

lemma r_note_long:
  "kMaxNoteLen < length (nt :: bytes) \<Longrightarrow> length nt < 2 ^ 32 \<Longrightarrow> r_note old (put_u32 (word_of_nat (length nt)) @ nt) = None"
  by (simp add: r_note_def codec_simps unat_length_u32)

lemma decode_long_note:
  assumes "encodable (e\<lparr>e_note := []\<rparr>)" and "kMaxNoteLen < length (e_note e)" and "length (e_note e) < 2 ^ 31"
  shows "decode_entry (encode_entry e out @ rest) (length out) LedgerEntry_default = None"
proof -
  have "entry_body (e\<lparr>e_note := []\<rparr>) @ e_note e =
      entry_body e \<or> length (entry_body e) = length (entry_body (e\<lparr>e_note := []\<rparr>)) + length (e_note e)"
    by (simp add: entry_body_def)
  then have "length (entry_body e) = length (entry_body (e\<lparr>e_note := []\<rparr>)) + length (e_note e)"
    by (metis length_append)
  then have len: "length (entry_body e) < 4294967296"
    using length_entry_body [OF assms(1)] assms(3) by simp
  have "r_optional r_shared (put_optional put_shared (e_shared e) @ rest) = Some (e_shared e, rest)" for rest
    using assms(1) by (intro shared.round_optional) (simp add: encodable_def)
  moreover have "r_optional r_usage (put_optional put_usage x @ rest) = Some (x, rest)" for x rest
    by (rule usage.round_optional) (simp split: option.splits)
  moreover have "r_note [] (put_u32 (word_of_nat (length (e_note e))) @ e_note e) = None"
    using assms by (intro r_note_long) simp_all
  ultimately have "r_entry LedgerEntry_default (entry_body e) = None"
    by (simp add: r_entry_def entry_body_def codec_simps optional_id_round)
  then show ?thesis
    using unat_length_u32 [OF len]
    by (simp add: decode_entry_def encode_entry_def Let_def put_u32_def get_put_le)
qed

lemma validate_encodable: "LedgerEntry_validate e \<Longrightarrow> encodable e \<longleftrightarrow> length (e_note e) \<le> kMaxNoteLen"
  by (auto simp: LedgerEntry_validate_def encodable_def shared_fits_def SharedRef_valid_def split: option.splits if_splits)


end
