(* ===== verification/EL_Integrity.thy ===== *)
theory EL_Integrity
  imports EL_Prelude
begin

text \<open>
  \<^verbatim>\<open>crc32c.cpp\<close> and \<^verbatim>\<open>digest.cpp\<close>: the table-driven CRC-32C and the FNV-1a accumulator.
  The table walk is the bit-serial division it stands for, and both checks separate any two
  messages of one length that differ in a single byte.
\<close>

lemma xor_word_cancel: "(a :: 'a :: len word) XOR b = a XOR c \<Longrightarrow> b = c"
proof -
  assume "a XOR b = a XOR c"
  then have "a XOR (a XOR b) = a XOR (a XOR c)" by simp
  then show "b = c" by (simp flip: xor.assoc)
qed

lemma ucast_u8_inj: "LENGTH(8) \<le> LENGTH('a :: len) \<Longrightarrow> (ucast (b :: u8) :: 'a word) = ucast b' \<Longrightarrow> b = b'"
proof -
  assume len: "LENGTH(8) \<le> LENGTH('a)" and eq: "(ucast b :: 'a word) = ucast b'"
  have "bit b i = bit b' i" if "i < 8" for i
    using arg_cong [OF eq, of "\<lambda>w. bit w i"] that len by (simp add: bit_simps)
  then show "b = b'"
    by (intro bit_word_eqI) simp
qed

section \<open>CRC-32C\<close>

definition kPolynomial :: u32 where
  "kPolynomial = 0x82F63B78"

text \<open>One pass of the inner loop of \<open>build_table\<close>.\<close>

definition crc_bit :: "u32 \<Rightarrow> u32" where
  "crc_bit c = (if c AND 1 \<noteq> 0 then kPolynomial XOR drop_bit 1 c else drop_bit 1 c)"

definition build_table :: "u32 list" where
  "build_table = map (\<lambda>i. (crc_bit ^^ 8) (word_of_nat i)) [0..<256]"

definition crc_byte :: "u32 list \<Rightarrow> u32 \<Rightarrow> u8 \<Rightarrow> u32" where
  "crc_byte table crc b = table ! unat ((crc XOR ucast b) AND 0xFF) XOR drop_bit 8 crc"

definition crc32c :: "bytes \<Rightarrow> u32 \<Rightarrow> u32" where
  "crc32c data seed = NOT (foldl (crc_byte build_table) (NOT seed) data)"

subsection \<open>The table is the bit-serial division\<close>

definition crc_bitwise :: "u32 \<Rightarrow> u8 \<Rightarrow> u32" where
  "crc_bitwise crc b = (crc_bit ^^ 8) (crc XOR ucast b)"

lemma crc_bit_alt: "crc_bit c = (if bit c 0 then kPolynomial else 0) XOR drop_bit 1 c"
  by (simp add: crc_bit_def bit_0 and_one_eq odd_iff_mod_2_eq_one)

lemma crc_bit_xor: "crc_bit (x XOR y) = crc_bit x XOR crc_bit y"
  unfolding crc_bit_alt by (rule bit_eqI) (auto simp: bit_simps)

lemma crc_bits_xor: "(crc_bit ^^ n) (x XOR y) = (crc_bit ^^ n) x XOR (crc_bit ^^ n) y"
  by (induction n) (simp_all add: crc_bit_xor)

lemma crc_bits_high:
  assumes "\<And>i. i < n \<Longrightarrow> \<not> bit x i"
  shows "(crc_bit ^^ n) x = drop_bit n x"
  using assms
proof (induction n arbitrary: x)
  case (Suc n)
  have "crc_bit x = drop_bit 1 x"
    using Suc.prems [of 0] by (simp add: crc_bit_alt)
  moreover have "(crc_bit ^^ n) (drop_bit 1 x) = drop_bit n (drop_bit 1 x)"
    using Suc.prems by (intro Suc.IH) (simp add: bit_simps)
  ultimately show ?case
    by (simp add: funpow_Suc_right del: funpow.simps)
qed simp

lemma build_table_nth:
  assumes "i < 256"
  shows "build_table ! i = (crc_bit ^^ 8) (word_of_nat i)"
  using assms unfolding build_table_def by simp

lemma crc_byte_bitwise: "crc_byte build_table crc b = crc_bitwise crc b"
proof -
  let ?x = "crc XOR ucast b :: u32"
  let ?lo = "?x AND 0xFF" and ?hi = "?x AND NOT 0xFF"
  have lo: "unat ?lo < 256"
  proof -
    have "?lo \<le> 0xFF" by (rule word_and_le1)
    then show ?thesis by (simp add: word_le_nat_alt)
  qed
  have split: "?x = ?lo XOR ?hi"
    by (rule bit_eqI) (auto simp: bit_simps)
  have ff: "(0xFF :: u32) = mask 8"
    by (simp add: mask_eq_exp_minus_1)
  have "(crc_bit ^^ 8) ?hi = drop_bit 8 ?hi"
    by (rule crc_bits_high) (auto simp: ff bit_simps)
  also have "\<dots> = drop_bit 8 crc"
  proof (rule bit_eqI)
    fix i
    have "\<not> bit b (8 + i)" using bit_imp_le_length [of b "8 + i"] by auto
    moreover have "bit crc (8 + i) \<Longrightarrow> i < 24" using bit_imp_le_length [of crc "8 + i"] by simp
    ultimately show "bit (drop_bit 8 ?hi) i = bit (drop_bit 8 crc) i"
      by (auto simp: ff bit_simps)
  qed
  finally have "(crc_bit ^^ 8) ?x = (crc_bit ^^ 8) ?lo XOR drop_bit 8 crc"
    by (subst split) (simp only: crc_bits_xor)
  then show ?thesis
    using build_table_nth [OF lo] by (simp add: crc_byte_def crc_bitwise_def)
qed

subsection \<open>Chaining and separation\<close>

lemma crc32c_append: "crc32c (xs @ ys) seed = crc32c ys (crc32c xs seed)"
  by (simp add: crc32c_def)

lemma crc_bit_inj: "crc_bit x = crc_bit y \<Longrightarrow> x = y"
proof -
  assume eq: "crc_bit x = crc_bit y"
  have top: "bit (crc_bit z) 31 \<longleftrightarrow> bit z 0" for z
  proof -
    have "bit kPolynomial 31" by (simp add: kPolynomial_def)
    moreover have "\<not> bit z 32" using bit_imp_le_length [of z 32] by auto
    ultimately show ?thesis by (simp add: crc_bit_alt bit_simps)
  qed
  have low: "bit x 0 = bit y 0"
    using arg_cong [OF eq, of "\<lambda>w. bit w 31"] unfolding top .
  have shifted: "drop_bit 1 x = drop_bit 1 y"
    using eq unfolding crc_bit_alt low by (rule xor_word_cancel)
  have "bit x (Suc i) = bit y (Suc i)" for i
    using arg_cong [OF shifted, of "\<lambda>w. bit w i"] by (simp add: bit_drop_bit_eq)
  then have "bit x n = bit y n" for n
    using low by (cases n) simp_all
  then show "x = y" by (intro bit_eqI)
qed

lemma crc_bits_inj: "(crc_bit ^^ n) x = (crc_bit ^^ n) y \<Longrightarrow> x = y"
  by (induction n) (auto dest: crc_bit_inj)

lemma crc_byte_inj_state: "crc_byte build_table c b = crc_byte build_table c' b \<Longrightarrow> c = c'"
  unfolding crc_byte_bitwise crc_bitwise_def
  by (drule crc_bits_inj) (metis xor.commute xor_word_cancel)

lemma crc_byte_inj_byte: "crc_byte build_table c b = crc_byte build_table c b' \<Longrightarrow> b = b'"
proof -
  assume "crc_byte build_table c b = crc_byte build_table c b'"
  then have "c XOR ucast b = c XOR ucast b'"
    unfolding crc_byte_bitwise crc_bitwise_def by (rule crc_bits_inj)
  then have "(ucast b :: u32) = ucast b'"
    by (rule xor_word_cancel)
  then show "b = b'"
    by (rule ucast_u8_inj [rotated]) simp
qed

text \<open>A step function that is injective in its state and in its input separates one changed input.\<close>

locale separating_fold =
  fixes step :: "'s \<Rightarrow> u8 \<Rightarrow> 's"
  assumes inj_state: "step s b = step s' b \<Longrightarrow> s = s'"
    and inj_byte: "step s b = step s b' \<Longrightarrow> b = b'"
begin

lemma foldl_inj_state: "foldl step s xs = foldl step s' xs \<Longrightarrow> s = s'"
  by (induction xs arbitrary: s s') (auto dest: inj_state)

lemma one_byte_separates:
  assumes "b \<noteq> b'"
  shows "foldl step s (xs @ b # ys) \<noteq> foldl step s (xs @ b' # ys)"
  using assms foldl_inj_state inj_byte by (auto dest!: foldl_inj_state)

end

interpretation crc: separating_fold "crc_byte build_table"
  by unfold_locales (rule crc_byte_inj_state crc_byte_inj_byte, assumption)+

lemma crc32c_one_byte: "b \<noteq> b' \<Longrightarrow> crc32c (xs @ b # ys) seed \<noteq> crc32c (xs @ b' # ys) seed"
  using crc.one_byte_separates [of b b' "NOT seed" xs ys] by (simp add: crc32c_def)

section \<open>The digest accumulator\<close>

definition kFnvPrime :: u64 where
  "kFnvPrime = 1099511628211"

definition kInitialState :: u64 where
  "kInitialState = 1469598103934665603"

definition mix :: "u64 \<Rightarrow> u8 \<Rightarrow> u64" where
  "mix state b = (state XOR ucast b) * kFnvPrime"

definition mix_bytes :: "bytes \<Rightarrow> u64 \<Rightarrow> u64" where
  "mix_bytes bs state = foldl mix state bs"

text \<open>\<open>mix64\<close> feeds the object representation of the value: on the supported targets, least significant byte first.\<close>

definition mix64 :: "u64 \<Rightarrow> u64 \<Rightarrow> u64" where
  "mix64 v = mix_bytes (map (\<lambda>i. ucast (drop_bit (8 * i) v AND 0xFF)) [0..<8])"

definition hex_digit :: "u64 \<Rightarrow> char" where
  "hex_digit nib = (if nib < 10 then char_of (48 + unat nib) else char_of (97 + (unat nib - 10)))"

definition hex :: "u64 \<Rightarrow> string" where
  "hex v = map (\<lambda>shift. hex_digit (drop_bit shift v AND 0xF)) [60, 56, 52, 48, 44, 40, 36, 32, 28, 24, 20, 16, 12, 8, 4, 0]"

lemma fnv_prime_cancel: "(x :: u64) * kFnvPrime = y * kFnvPrime \<Longrightarrow> x = y"
proof -
  assume eq: "x * kFnvPrime = y * kFnvPrime"
  have inv: "kFnvPrime * 14886173955864302971 = 1"
    by (simp add: kFnvPrime_def)
  have "x = x * (kFnvPrime * 14886173955864302971)" by (simp add: inv)
  also have "\<dots> = y * (kFnvPrime * 14886173955864302971)"
    using eq by (simp only: mult.assoc [symmetric])
  finally show "x = y" by (simp add: inv)
qed

interpretation fnv: separating_fold mix
proof
  fix s s' :: u64 and b b' :: u8
  show "mix s b = mix s' b \<Longrightarrow> s = s'"
    unfolding mix_def by (drule fnv_prime_cancel) (metis xor.commute xor_word_cancel)
  assume "mix s b = mix s b'"
  then have "(ucast b :: u64) = ucast b'"
    unfolding mix_def by (rule xor_word_cancel [OF fnv_prime_cancel])
  then show "b = b'"
    by (rule ucast_u8_inj [rotated]) simp
qed

lemma mix_bytes_append: "mix_bytes (xs @ ys) s = mix_bytes ys (mix_bytes xs s)"
  by (simp add: mix_bytes_def)

lemma length_hex [simp]: "length (hex v) = 16"
  by (simp add: hex_def)

end
