(* ===== verification/EL_Persistence.thy ===== *)
theory EL_Persistence
  imports EL_Replay EL_Codec EL_Integrity
begin

text \<open>
  Digest and persistence of \<^verbatim>\<open>ledger.cpp\<close>: the record \<open>save_to_string\<close> writes, the checks of
  \<open>load_from_string\<close>, and the file operations around them. What \<open>load_from_string\<close> accepts is
  exactly the set of records \<open>save_to_string\<close> can write, so truncation, extension and damage of a
  record are refused.
\<close>

section \<open>The record\<close>

definition kMagic :: bytes where
  "kMagic = map byte_of_char ''ELLD''"

definition kHeaderLen :: nat where
  "kHeaderLen = 48"

definition kFooterLen :: nat where
  "kFooterLen = 4"

definition kPersistenceFormatVersion :: u32 where
  "kPersistenceFormatVersion = 1"

definition kMaxEntryCount :: u64 where
  "kMaxEntryCount = 2 ^ 28"

definition digest :: "EfficiencyLedger \<Rightarrow> u64" where
  "digest l =
     fold (\<lambda>e. mix_bytes (encode_entry e [])) (l_history l)
       (mix64 (word_of_nat (length (l_history l)))
         (mix64 (ucast kPersistenceFormatVersion) (mix_bytes kMagic kInitialState)))"

definition record_header :: "EfficiencyLedger \<Rightarrow> bytes" where
  "record_header l = kMagic @ put_u32 kPersistenceFormatVersion @ put_u64 (id_value (l_ledger_id l)) @
     put_u64 (id_value (l_epoch l)) @ put_u64 (id_value (l_ledger_generation l)) @
     put_u64 (id_value (l_account_generation l)) @ put_u64 (word_of_nat (length (l_history l)))"

definition save_to_string :: "EfficiencyLedger \<Rightarrow> Status \<times> bytes" where
  "save_to_string l =
     (let out = fold encode_entry (l_history l) (record_header l)
      in (Status_success, out @ put_u32 (crc32c out 0)))"

section \<open>Loading\<close>

definition read_u32 :: "bytes \<Rightarrow> nat \<Rightarrow> nat \<Rightarrow> (u32 \<times> nat) option" where
  "read_u32 bs payload_end pos = (if pos + 4 > payload_end then None else Some (get_le 4 (drop pos bs), pos + 4))"

definition read_u64 :: "bytes \<Rightarrow> nat \<Rightarrow> nat \<Rightarrow> (u64 \<times> nat) option" where
  "read_u64 bs payload_end pos = (if pos + 8 > payload_end then None else Some (get_le 8 (drop pos bs), pos + 8))"

text \<open>\<open>std::to_string\<close> of an index.\<close>

fun decimal :: "nat \<Rightarrow> string" where
  "decimal n = (if n < 10 then [char_of (48 + n)] else decimal (n div 10) @ [char_of (48 + n mod 10)])"

declare decimal.simps [simp del]

text \<open>The loop that decodes \<open>n\<close> entries from index \<open>i\<close> on; \<open>Inl\<close> is the index of a corrupt one.\<close>

fun load_entries :: "bytes \<Rightarrow> nat \<Rightarrow> nat \<Rightarrow> nat \<Rightarrow> nat + LedgerEntry list \<times> nat" where
  "load_entries bs 0 i pos = Inr ([], pos)"
| "load_entries bs (Suc n) i pos =
     (case decode_entry bs pos LedgerEntry_default of
        None \<Rightarrow> Inl i
      | Some (e, pos1) \<Rightarrow>
          (case load_entries bs n (Suc i) pos1 of
             Inl j \<Rightarrow> Inl j
           | Inr (es, pos2) \<Rightarrow> Inr (e # es, pos2)))"

text \<open>The header and the entries of a record, or the status and \<open>*err\<close> of its rejection.\<close>

record RecordHeader =
  hd_ledger_id :: u64
  hd_epoch :: u64
  hd_ledger_generation :: u64
  hd_account_generation :: u64

definition corrupt :: "string \<Rightarrow> Status" where
  "corrupt msg = Status ErrorCode_kPersistenceCorrupt msg"

definition parse_header :: "bytes \<Rightarrow> nat \<Rightarrow> (Status \<times> string option) + RecordHeader \<times> u64 \<times> nat" where
  "parse_header bs payload_end =
     (case read_u32 bs payload_end 4 of
        None \<Rightarrow> Inl (corrupt ''truncated'', Some ''read version'')
      | Some (version, p0) \<Rightarrow>
     if version \<noteq> kPersistenceFormatVersion
     then Inl (corrupt ''unknown persistence format version'', Some ''unknown version'')
     else case read_u64 bs payload_end p0 of None \<Rightarrow> Inl (corrupt ''truncated'', None) | Some (ledger_id, p1) \<Rightarrow>
     case read_u64 bs payload_end p1 of None \<Rightarrow> Inl (corrupt ''truncated'', None) | Some (epoch, p2) \<Rightarrow>
     case read_u64 bs payload_end p2 of None \<Rightarrow> Inl (corrupt ''truncated'', None) | Some (ledger_gen, p3) \<Rightarrow>
     case read_u64 bs payload_end p3 of None \<Rightarrow> Inl (corrupt ''truncated'', None) | Some (account_gen, p4) \<Rightarrow>
     case read_u64 bs payload_end p4 of None \<Rightarrow> Inl (corrupt ''truncated'', None) | Some (count_v, p5) \<Rightarrow>
     if count_v > kMaxEntryCount then Inl (corrupt ''absurd entry count'', None)
     else Inr (\<lparr>hd_ledger_id = ledger_id, hd_epoch = epoch, hd_ledger_generation = ledger_gen,
                hd_account_generation = account_gen\<rparr>, count_v, p5))"

definition parse_record :: "bytes \<Rightarrow> (Status \<times> string option) + RecordHeader \<times> LedgerEntry list" where
  "parse_record bs =
     (if length bs < kHeaderLen + kFooterLen
      then Inl (corrupt ''truncated persistence record'', Some ''truncated'')
      else let payload_end = length bs - kFooterLen;
               stored_crc = get_le 4 (drop payload_end bs);
               calc_crc = crc32c (take payload_end bs) 0
           in if stored_crc \<noteq> calc_crc then Inl (corrupt ''CRC-32C mismatch'', Some ''checksum mismatch'')
              else if take 4 bs \<noteq> kMagic then Inl (corrupt ''bad magic'', Some ''bad magic'')
              else case parse_header bs payload_end of
                Inl r \<Rightarrow> Inl r
              | Inr (hdr, count_v, pos) \<Rightarrow>
                  (case load_entries bs (unat count_v) 0 pos of
                     Inl i \<Rightarrow> Inl (corrupt (''corrupt entry at index '' @ decimal i), Some ''decode entry'')
                   | Inr (entries, pos') \<Rightarrow>
                       if pos' \<noteq> payload_end
                       then Inl (corrupt ''trailing garbage after entries'', Some ''trailing garbage'')
                       else Inr (hdr, entries)))"

definition load_from_string ::
    "AccountId hash_order \<Rightarrow> bytes \<Rightarrow> EfficiencyLedger \<Rightarrow> Status \<times> string option \<times> EfficiencyLedger" where
  "load_from_string ho bs l =
     (case parse_record bs of
        Inl (st, err) \<Rightarrow> (st, err, l)
      | Inr (hdr, entries) \<Rightarrow>
          (case load_history ho entries
                  (adopt_header (Identity (hd_ledger_id hdr)) (Identity (hd_epoch hdr))
                     (Identity (hd_ledger_generation hdr)) (Identity (hd_account_generation hdr)) l) of
             (st, l1) \<Rightarrow>
               if \<not> Status_ok st
               then (corrupt (''replay rejected loaded history: '' @ status_message st),
                     Some (''replay: '' @ status_message st), l1)
               else (Status_success, None, l1)))"

section \<open>Records are exactly what parses\<close>

definition header_bytes :: "RecordHeader \<Rightarrow> u64 \<Rightarrow> bytes" where
  "header_bytes hdr n = kMagic @ put_u32 kPersistenceFormatVersion @ put_u64 (hd_ledger_id hdr) @
     put_u64 (hd_epoch hdr) @ put_u64 (hd_ledger_generation hdr) @ put_u64 (hd_account_generation hdr) @ put_u64 n"

definition record_of :: "RecordHeader \<Rightarrow> LedgerEntry list \<Rightarrow> bytes" where
  "record_of hdr es =
     (let out = fold encode_entry es (header_bytes hdr (word_of_nat (length es))) in out @ put_u32 (crc32c out 0))"

definition header_of :: "EfficiencyLedger \<Rightarrow> RecordHeader" where
  "header_of l = \<lparr>hd_ledger_id = id_value (l_ledger_id l), hd_epoch = id_value (l_epoch l),
     hd_ledger_generation = id_value (l_ledger_generation l), hd_account_generation = id_value (l_account_generation l)\<rparr>"

lemma save_record: "save_to_string l = (Status_success, record_of (header_of l) (l_history l))"
  by (simp add: save_to_string_def record_of_def record_header_def header_bytes_def header_of_def Let_def)

lemma length_kMagic [simp]: "length kMagic = 4"
  by (simp add: kMagic_def)

lemma length_header_bytes [simp]: "length (header_bytes hdr n) = 48"
  by (simp add: header_bytes_def)

lemma fold_encode_entry: "fold encode_entry es out = out @ concat (map (\<lambda>e. encode_entry e []) es)"
  by (induction es arbitrary: out) (simp_all add: encode_entry_def)

lemma load_entries_round:
  assumes "list_all encodable es"
  shows "load_entries (fold encode_entry es out @ rest) (length es) i (length out) =
     Inr (es, length (fold encode_entry es out))"
  using assms
proof (induction es arbitrary: out i)
  case (Cons e es)
  have "decode_entry (fold encode_entry (e # es) out @ rest) (length out) LedgerEntry_default =
      Some (e, length (encode_entry e out))"
    using Cons.prems decode_encode_entry [of e out "concat (map (\<lambda>e. encode_entry e []) es) @ rest"]
    by (simp add: fold_encode_entry)
  with Cons show ?case by simp
qed simp

lemma load_entries_canonical:
  "load_entries bs n i pos = Inr (es, pos') \<Longrightarrow> pos \<le> length bs \<Longrightarrow>
   length es = n \<and> list_all encodable es \<and> pos' \<le> length bs \<and> take pos' bs = fold encode_entry es (take pos bs)"
proof (induction n arbitrary: i pos es)
  case (Suc n)
  obtain e pos1 es1 where e: "decode_entry bs pos LedgerEntry_default = Some (e, pos1)"
    and rest: "load_entries bs n (Suc i) pos1 = Inr (es1, pos')" and es: "es = e # es1"
    using Suc.prems(1) by (auto split: option.splits sum.splits)
  with decode_entry_canonical [OF e] Suc.IH [OF rest] show ?case by simp
qed simp

lemma load_entries_stable:
  "load_entries bs n i pos = Inr r \<Longrightarrow> load_entries (bs @ bs') n i pos = Inr r"
proof (induction n arbitrary: i pos r)
  case (Suc n)
  obtain e pos1 es1 pos' where e: "decode_entry bs pos LedgerEntry_default = Some (e, pos1)"
    and rest: "load_entries bs n (Suc i) pos1 = Inr (es1, pos')" and "r = (e # es1, pos')"
    using Suc.prems by (auto split: option.splits sum.splits)
  with decode_entry_stable [OF e] Suc.IH [OF rest] show ?case by simp
qed simp

lemma read_u32_put: "read_u32 (xs @ put_u32 v @ ys) pe (length xs) = (if length xs + 4 > pe then None else Some (v, length xs + 4))"
  by (simp add: read_u32_def put_u32_def get_put_le)

lemma read_u64_put: "read_u64 (xs @ put_u64 v @ ys) pe (length xs) = (if length xs + 8 > pe then None else Some (v, length xs + 8))"
  by (simp add: read_u64_def put_u64_def get_put_le)

lemma read_canonical:
  assumes "pe \<le> length bs"
  shows "read_u32 bs pe pos = Some (v, pos') \<Longrightarrow> pos' = pos + 4 \<and> pos' \<le> pe \<and> take pos' bs = take pos bs @ put_u32 v"
    and "read_u64 bs pe pos = Some (w, pos') \<Longrightarrow> pos' = pos + 8 \<and> pos' \<le> pe \<and> take pos' bs = take pos bs @ put_u64 w"
  using assms
  by (auto simp: read_u32_def read_u64_def put_u32_def put_u64_def put_get_le take_add split: if_splits)

lemma parse_header_canonical:
  assumes "parse_header bs pe = Inr (hdr, n, pos)" and "pe \<le> length bs" and "take 4 bs = kMagic"
  shows "pos = 48 \<and> pos \<le> pe \<and> take 48 bs = header_bytes hdr n \<and> n \<le> kMaxEntryCount"
proof -
  note can = read_canonical [OF assms(2)]
  obtain p0 p1 p2 p3 p4 where
    "read_u32 bs pe 4 = Some (kPersistenceFormatVersion, p0)"
    "read_u64 bs pe p0 = Some (hd_ledger_id hdr, p1)" "read_u64 bs pe p1 = Some (hd_epoch hdr, p2)"
    "read_u64 bs pe p2 = Some (hd_ledger_generation hdr, p3)" "read_u64 bs pe p3 = Some (hd_account_generation hdr, p4)"
    "read_u64 bs pe p4 = Some (n, pos)" "n \<le> kMaxEntryCount"
    using assms(1) unfolding parse_header_def
    by (auto simp: not_less split: option.splits if_splits)
  with can(1) [of 4] can(2) [of p0] can(2) [of p1] can(2) [of p2] can(2) [of p3] can(2) [of p4] assms(3)
  show ?thesis by (clarsimp simp: header_bytes_def)
qed

lemma parse_header_round:
  assumes "n \<le> kMaxEntryCount" and "48 \<le> pe"
  shows "parse_header (header_bytes hdr n @ rest) pe = Inr (hdr, n, 48)"
proof -
  let ?b = "header_bytes hdr n @ rest"
  have "read_u32 ?b pe 4 = Some (kPersistenceFormatVersion, 8)"
    using read_u32_put [of kMagic] assms(2) by (simp add: header_bytes_def)
  moreover have "read_u64 ?b pe 8 = Some (hd_ledger_id hdr, 16)"
    using read_u64_put [of "kMagic @ put_u32 kPersistenceFormatVersion"] assms(2) by (simp add: header_bytes_def)
  moreover have "read_u64 ?b pe 16 = Some (hd_epoch hdr, 24)"
    using read_u64_put [of "kMagic @ put_u32 kPersistenceFormatVersion @ put_u64 (hd_ledger_id hdr)"] assms(2)
    by (simp add: header_bytes_def)
  moreover have "read_u64 ?b pe 24 = Some (hd_ledger_generation hdr, 32)"
    using read_u64_put [of "kMagic @ put_u32 kPersistenceFormatVersion @ put_u64 (hd_ledger_id hdr) @ put_u64 (hd_epoch hdr)"] assms(2)
    by (simp add: header_bytes_def)
  moreover have "read_u64 ?b pe 32 = Some (hd_account_generation hdr, 40)"
    using read_u64_put [of "kMagic @ put_u32 kPersistenceFormatVersion @ put_u64 (hd_ledger_id hdr) @ put_u64 (hd_epoch hdr) @
      put_u64 (hd_ledger_generation hdr)"] assms(2) by (simp add: header_bytes_def)
  moreover have "read_u64 ?b pe 40 = Some (n, 48)"
    using read_u64_put [of "kMagic @ put_u32 kPersistenceFormatVersion @ put_u64 (hd_ledger_id hdr) @ put_u64 (hd_epoch hdr) @
      put_u64 (hd_ledger_generation hdr) @ put_u64 (hd_account_generation hdr)"] assms(2) by (simp add: header_bytes_def)
  ultimately show ?thesis
    using assms(1) by (simp add: parse_header_def)
qed

text \<open>The records that parse are the encodings, and each record has one reading.\<close>

lemma parse_record_iff:
  "parse_record bs = Inr (hdr, es) \<longleftrightarrow>
     bs = record_of hdr es \<and> list_all encodable es \<and> length es \<le> unat kMaxEntryCount"
proof
  assume parse: "parse_record bs = Inr (hdr, es)"
  let ?pe = "length bs - 4"
  from parse obtain n where len: "52 \<le> length bs"
    and crc: "get_le 4 (drop ?pe bs) = crc32c (take ?pe bs) 0" and magic: "take 4 bs = kMagic"
    and head: "parse_header bs ?pe = Inr (hdr, n, 48)" and load: "load_entries bs (unat n) 0 48 = Inr (es, ?pe)"
  proof -
    have "52 \<le> length bs" "get_le 4 (drop ?pe bs) = crc32c (take ?pe bs) 0" "take 4 bs = kMagic"
      using parse by (auto simp: parse_record_def Let_def kHeaderLen_def kFooterLen_def split: if_splits)
    moreover from this parse obtain n pos where head: "parse_header bs ?pe = Inr (hdr, n, pos)"
      and "load_entries bs (unat n) 0 pos = Inr (es, ?pe)"
      by (auto simp: parse_record_def Let_def kHeaderLen_def kFooterLen_def split: if_splits sum.splits)
    moreover have "pos = 48"
      using parse_header_canonical [OF head] \<open>take 4 bs = kMagic\<close> by simp
    ultimately show ?thesis using that by blast
  qed
  have header: "take 48 bs = header_bytes hdr n" and small: "n \<le> kMaxEntryCount"
    using parse_header_canonical [OF head _ magic] by simp_all
  have ents: "length es = unat n" "list_all encodable es" "take ?pe bs = fold encode_entry es (take 48 bs)"
    using load_entries_canonical [OF load] len by simp_all
  have "bs = take ?pe bs @ drop ?pe bs" by simp
  also have "drop ?pe bs = put_u32 (crc32c (take ?pe bs) 0)"
    using len put_get_le [where ?'a = 32, of 4 "drop ?pe bs"] by (simp add: put_u32_def crc [symmetric])
  also have "n = word_of_nat (length es)" using ents(1) by simp
  then have "take ?pe bs = fold encode_entry es (header_bytes hdr (word_of_nat (length es)))"
    using ents(3) header by simp
  finally show "bs = record_of hdr es \<and> list_all encodable es \<and> length es \<le> unat kMaxEntryCount"
    using ents small by (simp add: record_of_def Let_def word_le_nat_alt)
next
  assume asm: "bs = record_of hdr es \<and> list_all encodable es \<and> length es \<le> unat kMaxEntryCount"
  let ?n = "word_of_nat (length es) :: u64"
  let ?out = "fold encode_entry es (header_bytes hdr ?n)"
  have bs: "bs = ?out @ put_u32 (crc32c ?out 0)" using asm by (simp add: record_of_def Let_def)
  have n: "unat ?n = length es" "?n \<le> kMaxEntryCount"
  proof -
    have "length es < 2 ^ 64" using asm by (simp add: kMaxEntryCount_def)
    then show "unat ?n = length es" by (simp add: unat_of_nat take_bit_eq_mod)
    then show "?n \<le> kMaxEntryCount" using asm by (simp add: word_le_nat_alt)
  qed
  have out: "?out = header_bytes hdr ?n @ concat (map (\<lambda>e. encode_entry e []) es)"
    by (rule fold_encode_entry)
  have head: "parse_header bs (length ?out) = Inr (hdr, ?n, 48)"
    unfolding bs unfolding out append_assoc by (rule parse_header_round) (use n in simp_all)
  have "take 4 ?out = kMagic"
    unfolding out by (simp add: header_bytes_def)
  then have magic: "take 4 bs = kMagic"
    unfolding bs by (simp add: out)
  have "load_entries bs (length es) 0 48 = Inr (es, length ?out)"
    using load_entries_round [of es "header_bytes hdr ?n" "put_u32 (crc32c ?out 0)" 0] asm bs by simp
  moreover have "get_le 4 (drop (length ?out) bs) = crc32c ?out 0"
    using get_put_le [of 4 "crc32c ?out 0" "[]"] unfolding bs by (simp add: put_u32_def)
  moreover have "length bs - 4 = length ?out" "take (length ?out) bs = ?out" "\<not> length bs < 52"
    unfolding bs by (simp_all add: out)
  ultimately show "parse_record bs = Inr (hdr, es)"
    using head magic n by (simp add: parse_record_def Let_def kHeaderLen_def kFooterLen_def)
qed

lemma take_record: "take 48 (record_of hdr es) = header_bytes hdr (word_of_nat (length es))"
  by (simp add: record_of_def Let_def fold_encode_entry)

text \<open>Records are self-delimiting: no record is a proper prefix of another.\<close>

lemma records_self_delimiting:
  assumes "parse_record bs = Inr x" and "parse_record (bs @ bs') = Inr y"
  shows "bs' = []"
proof -
  obtain hdr es hdr' es' where x: "x = (hdr, es)" and y: "y = (hdr', es')" by fastforce
  have r1: "bs = record_of hdr es" "list_all encodable es" "length es \<le> unat kMaxEntryCount"
    and r2: "bs @ bs' = record_of hdr' es'" "list_all encodable es'" "length es' \<le> unat kMaxEntryCount"
    using assms parse_record_iff x y by blast+
  have "48 \<le> length bs"
    by (simp add: r1(1) record_of_def Let_def fold_encode_entry)
  then have "take 48 (bs @ bs') = take 48 bs" by simp
  then have "header_bytes hdr (word_of_nat (length es)) = header_bytes hdr' (word_of_nat (length es'))"
    unfolding r2(1) unfolding r1(1) take_record by (rule sym)
  then have "drop 40 (header_bytes hdr (word_of_nat (length es))) = drop 40 (header_bytes hdr' (word_of_nat (length es')))"
    by simp
  then have "put_u64 (word_of_nat (length es)) = put_u64 (word_of_nat (length es'))"
    by (simp add: header_bytes_def)
  then have "(word_of_nat (length es) :: u64) = word_of_nat (length es')"
    using u64.prefix_free [of "word_of_nat (length es)" "[]" "word_of_nat (length es')" "[]"] by simp
  then have "unat (word_of_nat (length es) :: u64) = unat (word_of_nat (length es') :: u64)" by simp
  then have len: "length es = length es'"
    using r1(3) r2(3) by (simp add: unat_of_nat take_bit_eq_mod kMaxEntryCount_def)
  let ?h = "header_bytes hdr (word_of_nat (length es))" and ?h' = "header_bytes hdr' (word_of_nat (length es'))"
  have "load_entries bs (length es) 0 48 = Inr (es, length (fold encode_entry es ?h))"
    using load_entries_round [OF r1(2), of ?h "put_u32 (crc32c (fold encode_entry es ?h) 0)" 0]
    unfolding r1(1) record_of_def Let_def by simp
  then have l1: "load_entries (bs @ bs') (length es) 0 48 = Inr (es, length (fold encode_entry es ?h))"
    by (rule load_entries_stable)
  have l2: "load_entries (bs @ bs') (length es') 0 48 = Inr (es', length (fold encode_entry es' ?h'))"
    using load_entries_round [OF r2(2), of ?h' "put_u32 (crc32c (fold encode_entry es' ?h') 0)" 0]
    unfolding r2(1) record_of_def Let_def by simp
  have "Inr (es, length (fold encode_entry es ?h)) = (Inr (es', length (fold encode_entry es' ?h')) :: nat + LedgerEntry list \<times> nat)"
    by (rule trans [OF l1 [symmetric]]) (use l2 in \<open>simp only: len\<close>)
  then have "length (fold encode_entry es ?h) = length (fold encode_entry es' ?h')"
    unfolding sum.inject prod.inject by (rule conjunct2)
  then have "length (bs @ bs') = length bs"
    unfolding r2(1) unfolding r1(1) by (simp add: record_of_def Let_def)
  then show ?thesis by simp
qed

text \<open>One damaged byte anywhere in a record, its own checksum included, is a checksum mismatch.\<close>

lemma parse_record_damaged:
  assumes "parse_record (xs @ b # ys) = Inr r" and "b' \<noteq> b"
  shows "parse_record (xs @ b' # ys) = Inl (corrupt ''CRC-32C mismatch'', Some ''checksum mismatch'')"
proof -
  let ?old = "xs @ b # ys" and ?new = "xs @ b' # ys"
  let ?pe = "length ?old - 4"
  have len: "52 \<le> length ?old" and crc: "get_le 4 (drop ?pe ?old) = crc32c (take ?pe ?old) 0"
    using assms(1) by (auto simp: parse_record_def Let_def kHeaderLen_def kFooterLen_def split: if_splits)
  have same: "length ?new = length ?old" by simp
  have "(get_le 4 (drop ?pe ?new) :: u32) \<noteq> crc32c (take ?pe ?new) 0"
  proof (cases "length xs < ?pe")
    case True
    then have ys: "3 < length ys" by simp
    let ?zs = "take (length ys - 3 - 1) ys"
    have "drop ?pe ?new = drop ?pe ?old"
      using ys by (simp add: drop_Cons')
    moreover have "take ?pe ?old = xs @ b # ?zs" "take ?pe ?new = xs @ b' # ?zs"
      using ys by (simp_all add: take_Cons')
    ultimately show ?thesis
      using crc crc32c_one_byte [OF assms(2) [symmetric], of xs ?zs 0] by metis
  next
    case False
    then have "take ?pe ?new = take ?pe ?old" by simp
    moreover have "(get_le 4 (drop ?pe ?new) :: u32) \<noteq> get_le 4 (drop ?pe ?old)"
    proof
      assume eq: "(get_le 4 (drop ?pe ?new) :: u32) = get_le 4 (drop ?pe ?old)"
      have four: "length (drop ?pe ?new) = 4" "length (drop ?pe ?old) = 4"
        using len unfolding length_drop same by linarith+
      have "put_le 4 (get_le 4 (drop ?pe ?new) :: u32) = take 4 (drop ?pe ?new)"
        "put_le 4 (get_le 4 (drop ?pe ?old) :: u32) = take 4 (drop ?pe ?old)"
        by (rule put_get_le; use four in simp)+
      then have "drop ?pe ?new = drop ?pe ?old"
        using four eq by (metis order_refl take_all)
      with \<open>take ?pe ?new = take ?pe ?old\<close> have "?new = ?old"
        by (metis append_take_drop_id)
      with assms(2) show False by simp
    qed
    ultimately show ?thesis using crc by simp
  qed
  then show ?thesis
    using len by (simp add: parse_record_def Let_def kHeaderLen_def kFooterLen_def)
qed

lemma load_entries_blocked:
  assumes "list_all encodable es" and "\<And>out rest. decode_entry (encode_entry e out @ rest) (length out) LedgerEntry_default = None"
  shows "load_entries (fold encode_entry (es @ e # es') out @ rest) (length es + Suc n) i (length out) = Inl (i + length es)"
  using assms(1)
proof (induction es arbitrary: out i)
  case Nil
  have "decode_entry (fold encode_entry (e # es') out @ rest) (length out) LedgerEntry_default = None"
    using assms(2) [of out "concat (map (\<lambda>e. encode_entry e []) es') @ rest"] by (simp add: fold_encode_entry)
  then show ?case by simp
next
  case (Cons x es)
  have "fold encode_entry ((x # es) @ e # es') out @ rest =
      encode_entry x out @ concat (map (\<lambda>e. encode_entry e []) (es @ e # es')) @ rest"
    by (simp only: append_Cons fold_encode_entry list.map concat.simps append_assoc encode_entry_def append_Nil)
  then have "decode_entry (fold encode_entry ((x # es) @ e # es') out @ rest) (length out) LedgerEntry_default =
      Some (x, length (encode_entry x out))"
    using Cons.prems by (simp only: list.pred_inject decode_encode_entry)
  with Cons show ?case by simp
qed

text \<open>What is left of the checks for a record with a correct checksum and header.\<close>

lemma parse_record_entries:
  assumes bs: "bs = out @ put_u32 (crc32c out 0)" and out: "out = header_bytes hdr n @ body" and n: "n \<le> kMaxEntryCount"
  shows "parse_record bs =
    (case load_entries bs (unat n) 0 48 of
       Inl i \<Rightarrow> Inl (corrupt (''corrupt entry at index '' @ decimal i), Some ''decode entry'')
     | Inr (entries, pos') \<Rightarrow>
         if pos' \<noteq> length out then Inl (corrupt ''trailing garbage after entries'', Some ''trailing garbage'')
         else Inr (hdr, entries))"
proof -
  have "48 \<le> length out" by (simp add: out)
  then have "parse_header bs (length out) = Inr (hdr, n, 48)"
    unfolding bs out append_assoc by (rule parse_header_round [OF n])
  moreover have "take 4 bs = kMagic"
    unfolding bs out by (simp add: header_bytes_def)
  moreover have "get_le 4 (drop (length out) bs) = crc32c out 0"
    unfolding bs by (simp add: put_u32_def get_put_le [where rest = "[]", simplified])
  moreover have pe: "length bs - 4 = length out" by (simp add: bs)
  moreover have "take (length out) bs = out" "52 \<le> length bs"
    unfolding bs using \<open>48 \<le> length out\<close> by simp_all
  ultimately show ?thesis
    unfolding parse_record_def kHeaderLen_def kFooterLen_def Let_def pe by simp
qed

text \<open>A record in which some entry carries a note the reader does not accept is refused as a whole.\<close>

lemma parse_record_blocked:
  assumes "list_all encodable es" and "encodable (e\<lparr>e_note := []\<rparr>)"
    and "kMaxNoteLen < length (e_note e)" and "length (e_note e) < 2 ^ 31" and "length es + Suc (length es') \<le> unat kMaxEntryCount"
  shows "parse_record (record_of hdr (es @ e # es')) =
    Inl (corrupt (''corrupt entry at index '' @ decimal (length es)), Some ''decode entry'')"
proof -
  define n :: u64 where "n = word_of_nat (length es + Suc (length es'))"
  let ?out = "fold encode_entry (es @ e # es') (header_bytes hdr n)"
  have n: "unat n = length es + Suc (length es')"
    unfolding n_def using assms(5) by (subst unat_of_nat) (simp add: take_bit_eq_mod kMaxEntryCount_def)
  have rec: "record_of hdr (es @ e # es') = ?out @ put_u32 (crc32c ?out 0)"
    by (simp add: record_of_def Let_def n_def)
  have "load_entries (record_of hdr (es @ e # es')) (unat n) 0 48 = Inl (length es)"
    unfolding rec n using load_entries_blocked [OF assms(1) decode_long_note [OF assms(2-4)], of es' "header_bytes hdr n"
        "put_u32 (crc32c ?out 0)" "length es'" 0] by simp
  moreover have "n \<le> kMaxEntryCount" using n assms(5) by (simp add: word_le_nat_alt)
  ultimately show ?thesis
    by (simp add: parse_record_entries [OF rec fold_encode_entry])
qed

section \<open>Saving and loading a ledger\<close>

text \<open>A ledger whose record can be read back and replayed under its own header.\<close>

definition loadable :: "EfficiencyLedger \<Rightarrow> bool" where
  "loadable l \<longleftrightarrow> list_all encodable (l_history l) \<and> length (l_history l) \<le> unat kMaxEntryCount \<and>
     list_all (fences_current l) (l_history l)"

lemma save_load:
  assumes "replays l" and "loadable l"
  obtains l1 where "load_from_string ho (snd (save_to_string l)) l0 = (Status_success, None, l1)"
    and "books_equiv l l1" and "l_ledger_id l1 = l_ledger_id l" and "l_epoch l1 = l_epoch l"
    and "l_ledger_generation l1 = l_ledger_generation l" and "l_account_generation l1 = l_account_generation l"
    and "\<not> l_shutting_down l1" and "l_live_workers l1 = l_live_workers l0"
proof -
  have parse: "parse_record (snd (save_to_string l)) = Inr (header_of l, l_history l)"
    using assms(2) by (simp add: parse_record_iff save_record loadable_def)
  let ?l0 = "adopt_header (l_ledger_id l) (l_epoch l) (l_ledger_generation l) (l_account_generation l) l0"
  have cur: "fences_current ?l0 e" if "e \<in> set (l_history l)" for e
    using that assms(2) by (auto simp: loadable_def list_all_iff fences_current_def adopt_header_def clear_books_def)
  have "\<not> l_shutting_down ?l0" by (simp add: adopt_header_def clear_books_def)
  from load_history_replays [OF assms(1) this cur, of ho] obtain l1 where
    run: "load_history ho (l_history l) ?l0 = (Status_success, l1)" and eq: "books_equiv l l1"
    and au: "same_authority (?l0\<lparr>l_replaying := False\<rparr>) l1" by blast
  have load: "load_from_string ho (snd (save_to_string l)) l0 = (Status_success, None, l1)"
    using run by (simp add: load_from_string_def parse header_of_def Status_ok_def Status_success_def)
  show ?thesis
    by (rule that [OF load eq]) (use au in \<open>simp_all add: same_authority_def adopt_header_def clear_books_def\<close>)
qed

lemma load_refused:
  assumes "parse_record bs = Inl (st, err)"
  shows "load_from_string ho bs l = (st, err, l)"
  by (simp add: load_from_string_def assms)

text \<open>A record with an entry whose fences name another epoch or generation parses but is refused by the replay.\<close>

lemma load_stale:
  assumes parse: "parse_record bs = Inr (hdr, es)" and e: "e \<in> set es"
    and stale: "id_valid (f_epoch (e_fences e)) \<and> f_epoch (e_fences e) \<noteq> Identity (hd_epoch hdr)"
  shows "status_code (fst (load_from_string ho bs l)) = ErrorCode_kPersistenceCorrupt"
proof -
  let ?l0 = "adopt_header (Identity (hd_ledger_id hdr)) (Identity (hd_epoch hdr))
    (Identity (hd_ledger_generation hdr)) (Identity (hd_account_generation hdr)) l"
  obtain st l1 where run: "append_all ho es ((clear_books ?l0)\<lparr>l_replaying := True\<rparr>) = (st, l1)" by fastforce
  have "\<not> fences_current ((clear_books ?l0)\<lparr>l_replaying := True\<rparr>) e"
    using stale by (simp add: fences_current_def adopt_header_def clear_books_def)
  then have "\<not> Status_ok st"
    using append_all_stale [OF e _ run] by blast
  then show ?thesis
    by (simp add: load_from_string_def parse load_history_def run corrupt_def Status_ok_def)
qed

section \<open>Files\<close>

text \<open>
  A file system as the contents of its files, and what the calls of \<open>save\<close> may report: whether the
  temporary file opens, how many bytes reach it if the write fails, how many reach it if only the
  flush of the closing stream fails (which nobody looks at), whether the old file can be removed,
  whether the rename succeeds, and whether the temporary file can be removed after that.
\<close>

type_synonym filesystem = "string \<rightharpoonup> bytes"

record save_env =
  sv_open :: bool
  sv_short_write :: "nat option"
  sv_short_flush :: "nat option"
  sv_remove :: bool
  sv_rename :: bool
  sv_cleanup :: bool
  sv_reason :: string

definition save :: "save_env \<Rightarrow> string \<Rightarrow> EfficiencyLedger \<Rightarrow> filesystem \<Rightarrow> Status \<times> filesystem" where
  "save env path l fs =
     (let (st, bs) = save_to_string l; tmp = path @ ''.tmp''
      in if \<not> Status_ok st then (st, fs)
         else if \<not> sv_open env then (corrupt ''cannot open file for write'', fs)
         else case sv_short_write env of
           Some n \<Rightarrow> (corrupt ''write failed'', fs(tmp \<mapsto> take n bs))
         | None \<Rightarrow>
             (let written = (case sv_short_flush env of None \<Rightarrow> bs | Some n \<Rightarrow> take n bs);
                  fs1 = fs(tmp \<mapsto> written);
                  fs2 = (if sv_remove env then fs1(path := None) else fs1)
              in if sv_rename env then (Status_success, (fs2(path \<mapsto> written))(tmp := None))
                 else (corrupt (''atomic replace failed: '' @ sv_reason env),
                       if sv_cleanup env then fs2(tmp := None) else fs2)))"

text \<open>Every call succeeds.\<close>

definition no_io_error :: save_env where
  "no_io_error = \<lparr>sv_open = True, sv_short_write = None, sv_short_flush = None, sv_remove = True,
     sv_rename = True, sv_cleanup = True, sv_reason = []\<rparr>"

definition load ::
    "AccountId hash_order \<Rightarrow> string \<Rightarrow> filesystem \<Rightarrow> EfficiencyLedger \<Rightarrow> Status \<times> EfficiencyLedger" where
  "load ho path fs l =
     (case fs path of
        None \<Rightarrow> (corrupt ''cannot open file for read'', l)
      | Some bs \<Rightarrow> (case load_from_string ho bs l of (st, _, l1) \<Rightarrow> (st, l1)))"

lemma save_no_io_error:
  "save no_io_error path l fs =
     (Status_success, (fs(path \<mapsto> snd (save_to_string l)))(path @ ''.tmp'' := None))"
  by (simp add: save_def no_io_error_def save_record Let_def Status_ok_def Status_success_def fun_upd_twist fun_eq_iff)

text \<open>A failing \<open>save\<close> that got as far as the rename keeps the old file only if it could not remove it.\<close>

section \<open>A rename that fails\<close>

text \<open>
  \<open>save\<close> removes the old file before it renames the temporary one: if the rename fails, both are gone.
\<close>

lemma failed_rename_loses_file:
  assumes "sv_open env" and "sv_short_write env = None" and "sv_remove env" and "\<not> sv_rename env" and "sv_cleanup env"
  shows "\<not> Status_ok (fst (save env path l fs))" and "snd (save env path l fs) path = None"
    and "snd (save env path l fs) (path @ ''.tmp'') = None"
  using assms by (simp_all add: save_def save_record Let_def Status_ok_def Status_success_def corrupt_def)

section \<open>Records that are refused\<close>

text \<open>No proper prefix of a record is a record.\<close>

lemma truncated_record_refused:
  assumes "parse_record (xs @ ys) = Inr r" and "ys \<noteq> []"
  shows "\<exists>st err. load_from_string ho xs l = (st, err, l) \<and> parse_record xs = Inl (st, err)"
proof (cases "parse_record xs")
  case (Inl e)
  then show ?thesis by (cases e) (auto intro: load_refused)
next
  case (Inr x)
  with records_self_delimiting [OF Inr assms(1)] assms(2) show ?thesis by simp
qed

text \<open>
  A note longer than one MiB passes \<open>append\<close> and \<open>save\<close>; the record is corrupt at the index of its entry.
\<close>

lemma long_note_blocks_load:
  assumes "l_history l = es @ e # es'" and "list_all encodable es" and "encodable (e\<lparr>e_note := []\<rparr>)"
    and "kMaxNoteLen < length (e_note e)" and "length (e_note e) < 2 ^ 31" and "length (l_history l) \<le> unat kMaxEntryCount"
  shows "load_from_string ho (snd (save_to_string l)) l0 =
    (corrupt (''corrupt entry at index '' @ decimal (length es)), Some ''decode entry'', l0)"
  by (rule load_refused) (use parse_record_blocked [OF assms(2-5), of es'] assms(1,6) in \<open>simp add: save_record\<close>)

section \<open>Digests of different histories\<close>

text \<open>
  Two histories of the same length whose encodings differ in exactly one byte have different digests.
\<close>

lemma digests_differ:
  assumes "length (l_history l) = length (l_history l')" and "b \<noteq> b'"
    and "concat (map (\<lambda>e. encode_entry e []) (l_history l)) = xs @ b # ys"
    and "concat (map (\<lambda>e. encode_entry e []) (l_history l')) = xs @ b' # ys"
  shows "digest l \<noteq> digest l'"
proof -
  have "fold (\<lambda>e. mix_bytes (encode_entry e [])) es s = mix_bytes (concat (map (\<lambda>e. encode_entry e []) es)) s" for es s
    by (induction es arbitrary: s) (simp_all add: mix_bytes_append, simp add: mix_bytes_def)
  then show ?thesis
    using fnv.one_byte_separates [OF assms(2)] assms by (simp add: digest_def mix_bytes_def)
qed

end
