(* ===== verification/EL_Concurrent.thy ===== *)
theory EL_Concurrent
  imports EL_Persistence EL_Scenarios
begin

text \<open>
  The ledger under concurrent calls. Every public operation is split where the code takes the
  mutex: what runs under one \<open>lock_guard\<close> is one step. \<open>reclassify\<close> looks up its target before it takes
  the mutex, and a state of the model knows which threads are ordered after the last write of the
  ledger: a look-up that is not, and a write while another thread is between its look-up and its
  lock, are data races, which the state records. After a race C++ promises nothing; the model lets the
  look-up return any entry. \<open>load_from_string\<close> is two critical sections, between which other threads run.
  The atomic ledger performs an operation in one step, and a forward simulation shows that callers
  who do not load from a record cannot tell the two apart as long as there is no data race.
\<close>

section \<open>The public operations\<close>

definition EfficiencyLedger_epoch :: "EfficiencyLedger \<Rightarrow> CoordinatorEpoch" where
  "EfficiencyLedger_epoch l = l_epoch l"

definition EfficiencyLedger_ledger_id :: "EfficiencyLedger \<Rightarrow> LedgerId" where
  "EfficiencyLedger_ledger_id l = l_ledger_id l"

definition EfficiencyLedger_ledger_generation :: "EfficiencyLedger \<Rightarrow> LedgerGeneration" where
  "EfficiencyLedger_ledger_generation l = l_ledger_generation l"

definition EfficiencyLedger_account_generation :: "EfficiencyLedger \<Rightarrow> AccountGeneration" where
  "EfficiencyLedger_account_generation l = l_account_generation l"

definition EfficiencyLedger_history :: "EfficiencyLedger \<Rightarrow> LedgerEntry list" where
  "EfficiencyLedger_history l = l_history l"

definition EfficiencyLedger_shutting_down :: "EfficiencyLedger \<Rightarrow> bool" where
  "EfficiencyLedger_shutting_down l = l_shutting_down l"

datatype query =
    Epoch | Ledger_id | Ledger_generation | Account_generation
  | Has_worker WorkerBootId
  | Contains AccountingEntryId
  | Get AccountingEntryId
  | Entry_count | History | Account_summaries
  | Account_summary AccountId
  | Has_account AccountId
  | Reconcile | Digest | Save_to_string | Shutting_down

datatype operation = Call ledger_call | Query query | LoadFromString bytes

datatype answer =
    AStatus Status
  | AEpoch CoordinatorEpoch | ALedgerId LedgerId
  | ALedgerGeneration LedgerGeneration | AAccountGeneration AccountGeneration
  | ABool bool
  | AEntry "LedgerEntry option"
  | ACount nat
  | AHistory "LedgerEntry list"
  | ASummaries "AccountSummary list" | ASummary AccountSummary
  | AReconciliation Reconciliation
  | ADigest u64
  | ARecord Status bytes
  | ALoad Status "string option"

fun ask :: "AccountId hash_order \<Rightarrow> query \<Rightarrow> EfficiencyLedger \<Rightarrow> answer" where
  "ask ho Epoch l = AEpoch (EfficiencyLedger_epoch l)"
| "ask ho Ledger_id l = ALedgerId (EfficiencyLedger_ledger_id l)"
| "ask ho Ledger_generation l = ALedgerGeneration (EfficiencyLedger_ledger_generation l)"
| "ask ho Account_generation l = AAccountGeneration (EfficiencyLedger_account_generation l)"
| "ask ho (Has_worker boot) l = ABool (has_worker boot l)"
| "ask ho (Contains eid) l = ABool (contains eid l)"
| "ask ho (Get eid) l = AEntry (get eid l)"
| "ask ho Entry_count l = ACount (entry_count l)"
| "ask ho History l = AHistory (EfficiencyLedger_history l)"
| "ask ho Account_summaries l = ASummaries (account_summaries ho l)"
| "ask ho (Account_summary acc) l = ASummary (account_summary acc l)"
| "ask ho (Has_account acc) l = ABool (has_account acc l)"
| "ask ho Reconcile l = AReconciliation (reconcile ho l)"
| "ask ho Digest l = ADigest (digest l)"
| "ask ho Save_to_string l = (case save_to_string l of (st, out) \<Rightarrow> ARecord st out)"
| "ask ho Shutting_down l = ABool (EfficiencyLedger_shutting_down l)"

text \<open>An operation that nothing interrupts.\<close>

fun perform :: "AccountId hash_order \<Rightarrow> operation \<Rightarrow> EfficiencyLedger \<Rightarrow> answer \<times> EfficiencyLedger" where
  "perform ho (Call c) l = (case call ho c l of (st, l1) \<Rightarrow> (AStatus st, l1))"
| "perform ho (Query q) l = (ask ho q l, l)"
| "perform ho (LoadFromString bs) l = (case load_from_string ho bs l of (st, err, l1) \<Rightarrow> (ALoad st err, l1))"

section \<open>Threads\<close>

text \<open>
  Where a thread is in its operation. \<open>FoundAt\<close>: \<open>reclassify\<close> has looked up its target in \<open>index_\<close> and is
  about to read \<open>history_[pos]\<close>. \<open>RevisionBuilt\<close>: it waits for the lock. \<open>HeaderAdopted\<close>: \<open>load_from_string\<close>
  has left its first critical section. \<open>OutOfRange\<close>: the read is past the end of the vector, which C++
  leaves undefined; the model stops the thread there.
\<close>

datatype thread_phase =
    Idle
  | Invoked operation
  | FoundAt ReclassifyRequest nat
  | RevisionBuilt ReclassifyRequest LedgerEntry
  | HeaderAdopted "LedgerEntry list"
  | OutOfRange ReclassifyRequest
  | Finished answer

definition revision_built :: "ReclassifyRequest \<Rightarrow> LedgerEntry option \<Rightarrow> LedgerEntry" where
  "revision_built req target =
     (let rev = LedgerEntry_default
           \<lparr>e_id := rq_revision_id req, e_event := EventType_kReclassify,
            e_classification := rq_new_classification req, e_subcategory := rq_new_subcategory req,
            e_provenance := rq_provenance req, e_fences := rq_fences req,
            e_revision_target := Some (rq_target req), e_note := rq_note req\<rparr>
      in case target of
           None \<Rightarrow> rev
         | Some t \<Rightarrow>
             rev\<lparr>e_account := (if id_valid (e_account t) then e_account t else Identity kResidualAccountValue),
                 e_attempt := e_attempt t\<rparr>)"

definition load_answer :: "Status \<Rightarrow> answer" where
  "load_answer st =
     (if \<not> Status_ok st
      then ALoad (corrupt (''replay rejected loaded history: '' @ status_message st)) (Some (''replay: '' @ status_message st))
      else ALoad Status_success None)"

text \<open>
  The next step of a thread, with the traversal order its loops happen to use. For the look-up of
  \<open>reclassify\<close> this is what it does when it does not race.
\<close>

fun thread_advance ::
    "AccountId hash_order \<Rightarrow> thread_phase \<Rightarrow> EfficiencyLedger \<Rightarrow> thread_phase \<times> EfficiencyLedger" where
  "thread_advance ho (Invoked (Call (Reclassify req))) l =
     (case l_index l (rq_target req) of
        None \<Rightarrow> (RevisionBuilt req (revision_built req None), l)
      | Some pos \<Rightarrow> (FoundAt req pos, l))"
| "thread_advance ho (Invoked (LoadFromString bs)) l =
     (case parse_record bs of
        Inl (st, err) \<Rightarrow> (Finished (ALoad st err), l)
      | Inr (hdr, entries) \<Rightarrow>
          (HeaderAdopted entries,
           adopt_header (Identity (hd_ledger_id hdr)) (Identity (hd_epoch hdr))
             (Identity (hd_ledger_generation hdr)) (Identity (hd_account_generation hdr)) l))"
| "thread_advance ho (Invoked op) l = (case perform ho op l of (a, l1) \<Rightarrow> (Finished a, l1))"
| "thread_advance ho (FoundAt req pos) l =
     (if pos < length (l_history l) then (RevisionBuilt req (revision_built req (Some (l_history l ! pos))), l)
      else (OutOfRange req, l))"
| "thread_advance ho (RevisionBuilt req r) l =
     (case append_locked ho r l of (st, l1) \<Rightarrow> (Finished (AStatus st), l1))"
| "thread_advance ho (HeaderAdopted entries) l =
     (case load_history ho entries l of (st, l1) \<Rightarrow> (Finished (load_answer st), l1))"
| "thread_advance ho p l = (p, l)"

text \<open>Which steps run under the mutex; which read the ledger without it, and which threads have done so.\<close>

fun takes_lock :: "thread_phase \<Rightarrow> bool" where
  "takes_lock (Invoked (Call (Reclassify req))) = False"
| "takes_lock (Invoked (LoadFromString bs)) = (case parse_record bs of Inl _ \<Rightarrow> False | Inr _ \<Rightarrow> True)"
| "takes_lock (Invoked op) = True"
| "takes_lock (RevisionBuilt req r) = True"
| "takes_lock (HeaderAdopted es) = True"
| "takes_lock p = False"

fun looks_up :: "thread_phase \<Rightarrow> ReclassifyRequest option" where
  "looks_up (Invoked (Call (Reclassify req))) = Some req"
| "looks_up (FoundAt req pos) = Some req"
| "looks_up p = None"

fun has_looked :: "thread_phase \<Rightarrow> bool" where
  "has_looked (FoundAt req pos) = True"
| "has_looked (RevisionBuilt req r) = True"
| "has_looked p = False"

text \<open>A critical section that changes \<open>index_\<close> or \<open>history_\<close>; clearing them is a change in any case.\<close>

fun clears :: "thread_phase \<Rightarrow> bool" where
  "clears (Invoked (Call (LoadHistory es))) = True"
| "clears (Invoked (LoadFromString bs)) = True"
| "clears (HeaderAdopted es) = True"
| "clears p = False"

definition writes :: "thread_phase \<Rightarrow> EfficiencyLedger \<Rightarrow> EfficiencyLedger \<Rightarrow> bool" where
  "writes p l l' \<longleftrightarrow> clears p \<or> l_history l' \<noteq> l_history l"

text \<open>
  The ledger and its threads. \<open>th_fresh s t\<close>: the last write of \<open>index_\<close> and \<open>history_\<close> is ordered before what
  thread \<open>t\<close> does next, by the mutex or by some synchronisation outside the ledger. \<open>th_raced s\<close>: there
  has been a data race.
\<close>

record threads =
  th_ledger :: EfficiencyLedger
  th_phase :: "nat \<Rightarrow> thread_phase"
  th_fresh :: "nat \<Rightarrow> bool"
  th_raced :: bool

datatype event = Invoke nat operation | Return nat answer | Synchronize nat

fun public :: "operation \<Rightarrow> bool" where
  "public (Call (AdoptHeader lid ep lg ag)) = False"
| "public op = True"

text \<open>
  One step of one thread. \<open>critical\<close>: a critical section; it orders the thread after all writes before
  it, and a write leaves no other thread ordered after it. \<open>look_up\<close>: a read of \<open>reclassify\<close> that is ordered
  after the last write. \<open>racing_look_up\<close>: one that is not. \<open>synchronize\<close>: a thread between two calls gets
  ordered after the writes so far, as when it waits for the thread that made them.
\<close>

inductive concurrent_step :: "threads \<Rightarrow> event option \<Rightarrow> threads \<Rightarrow> bool" where
  invoke: "th_phase s t = Idle \<Longrightarrow> public op \<Longrightarrow>
    concurrent_step s (Some (Invoke t op)) (s\<lparr>th_phase := (th_phase s)(t := Invoked op)\<rparr>)"
| critical: "takes_lock (th_phase s t) \<Longrightarrow> thread_advance ho (th_phase s t) (th_ledger s) = (p, l) \<Longrightarrow>
    w = writes (th_phase s t) (th_ledger s) l \<Longrightarrow>
    concurrent_step s None
      \<lparr>th_ledger = l, th_phase = (th_phase s)(t := p),
       th_fresh = (\<lambda>u. u = t \<or> (th_fresh s u \<and> \<not> w)),
       th_raced = (th_raced s \<or> (w \<and> (\<exists>u. u \<noteq> t \<and> has_looked (th_phase s u))))\<rparr>"
| look_up: "looks_up (th_phase s t) = Some req \<Longrightarrow> th_fresh s t \<Longrightarrow>
    thread_advance ho (th_phase s t) (th_ledger s) = (p, th_ledger s) \<Longrightarrow>
    concurrent_step s None (s\<lparr>th_phase := (th_phase s)(t := p)\<rparr>)"
| racing_look_up: "looks_up (th_phase s t) = Some req \<Longrightarrow> \<not> th_fresh s t \<Longrightarrow>
    concurrent_step s None (s\<lparr>th_phase := (th_phase s)(t := RevisionBuilt req r), th_raced := True\<rparr>)"
| local: "\<not> takes_lock (th_phase s t) \<Longrightarrow> looks_up (th_phase s t) = None \<Longrightarrow> th_phase s t \<noteq> Idle \<Longrightarrow>
    thread_advance ho (th_phase s t) (th_ledger s) = (p, th_ledger s) \<Longrightarrow>
    concurrent_step s None (s\<lparr>th_phase := (th_phase s)(t := p)\<rparr>)"
| synchronize: "th_phase s t = Idle \<Longrightarrow>
    concurrent_step s (Some (Synchronize t)) (s\<lparr>th_fresh := (th_fresh s)(t := True)\<rparr>)"
| answer: "th_phase s t = Finished a \<Longrightarrow>
    concurrent_step s (Some (Return t a)) (s\<lparr>th_phase := (th_phase s)(t := Idle)\<rparr>)"

definition idle_threads :: "EfficiencyLedger \<Rightarrow> threads" where
  "idle_threads l = \<lparr>th_ledger = l, th_phase = (\<lambda>_. Idle), th_fresh = (\<lambda>_. True), th_raced = False\<rparr>"

text \<open>The atomic ledger: an operation takes effect in one step between its call and its answer.\<close>

record atomic_threads =
  am_ledger :: EfficiencyLedger
  am_phase :: "nat \<Rightarrow> thread_phase"

inductive atomic_step :: "atomic_threads \<Rightarrow> event option \<Rightarrow> atomic_threads \<Rightarrow> bool" where
  invoke: "am_phase s t = Idle \<Longrightarrow> public op \<Longrightarrow>
    atomic_step s (Some (Invoke t op)) (s\<lparr>am_phase := (am_phase s)(t := Invoked op)\<rparr>)"
| effect: "am_phase s t = Invoked op \<Longrightarrow> perform ho op (am_ledger s) = (a, l) \<Longrightarrow>
    atomic_step s None \<lparr>am_ledger = l, am_phase = (am_phase s)(t := Finished a)\<rparr>"
| synchronize: "am_phase s t = Idle \<Longrightarrow> atomic_step s (Some (Synchronize t)) s"
| answer: "am_phase s t = Finished a \<Longrightarrow>
    atomic_step s (Some (Return t a)) (s\<lparr>am_phase := (am_phase s)(t := Idle)\<rparr>)"

definition idle_atomic :: "EfficiencyLedger \<Rightarrow> atomic_threads" where
  "idle_atomic l = \<lparr>am_ledger = l, am_phase = (\<lambda>_. Idle)\<rparr>"

text \<open>An execution, with what the callers see of it.\<close>

inductive executes :: "('s \<Rightarrow> 'e option \<Rightarrow> 's \<Rightarrow> bool) \<Rightarrow> 's \<Rightarrow> 'e list \<Rightarrow> 's \<Rightarrow> bool" for step where
  stop: "executes step s [] s"
| more: "executes step s tr s1 \<Longrightarrow> step s1 ev s2 \<Longrightarrow> executes step s (tr @ (case ev of None \<Rightarrow> [] | Some x \<Rightarrow> [x])) s2"

section \<open>Forward simulation\<close>

text \<open>
  The concrete system implements the abstract one: every concrete step from related states is
  matched by one abstract step, or none. \<open>ok\<close> restricts what the environment does; \<open>good\<close> is a property of
  concrete states that, once lost, does not come back, so that in an execution that ends in a good
  state all states are good.
\<close>

locale forward_simulation =
  fixes cstep :: "'c \<Rightarrow> 'e option \<Rightarrow> 'c \<Rightarrow> bool" and astep :: "'a \<Rightarrow> 'e option \<Rightarrow> 'a \<Rightarrow> bool"
    and rel :: "'c \<Rightarrow> 'a \<Rightarrow> bool" and ok :: "'e \<Rightarrow> bool" and good :: "'c \<Rightarrow> bool"
  assumes good_before: "cstep c ev c' \<Longrightarrow> good c' \<Longrightarrow> good c"
    and simulates: "rel c a \<Longrightarrow> cstep c ev c' \<Longrightarrow> pred_option ok ev \<Longrightarrow> good c' \<Longrightarrow>
      \<exists>a'. rel c' a' \<and> (astep a ev a' \<or> ev = None \<and> a' = a)"
begin

lemma simulates_executes:
  "executes cstep c tr c' \<Longrightarrow> rel c a \<Longrightarrow> list_all ok tr \<Longrightarrow> good c' \<Longrightarrow> \<exists>a'. rel c' a' \<and> executes astep a tr a'"
proof (induction rule: executes.induct)
  case (stop c)
  then show ?case by (blast intro: executes.stop)
next
  case (more c tr c1 ev c2)
  have ok: "list_all ok tr" "pred_option ok ev"
    using more.prems(2) by (cases ev; simp)+
  have "good c1" using more.hyps(2) more.prems(3) by (rule good_before)
  then obtain a1 where a1: "rel c1 a1" "executes astep a tr a1"
    using more.IH [OF more.prems(1) ok(1)] by blast
  obtain a2 where "rel c2 a2" "astep a1 ev a2 \<or> ev = None \<and> a2 = a1"
    using simulates [OF a1(1) more.hyps(2) ok(2) more.prems(3)] by blast
  with a1(2) show ?case by (auto intro: executes.more)
qed

end

section \<open>The revision that is built without the lock\<close>

lemma revision_entry_of:
  "revision_entry req l = revision_built req (map_option ((!) (l_history l)) (l_index l (rq_target req)))"
  by (simp add: revision_entry_def revision_built_def Let_def split: option.split)

text \<open>The index is determined by the history, so a critical section that does not write changes neither.\<close>

lemma index_of_history:
  assumes "wf_ledger l" and "wf_ledger l'" and "l_history l' = l_history l"
  shows "l_index l' = l_index l"
proof
  fix k
  have "l_index l' k = Some i \<longleftrightarrow> l_index l k = Some i" for i
    using assms by (simp add: wf_ledger_def index_ok_def)
  then show "l_index l' k = l_index l k" by (metis option.exhaust)
qed

lemma perform_wf:
  assumes "wf_ledger l" and "perform ho op l = (a, l')" and "\<nexists>bs. op = LoadFromString bs"
  shows "wf_ledger l'"
proof (cases op)
  case (Call c)
  with assms show ?thesis
    by (cases "call ho c l") (auto dest: wf.call_keeps)
qed (use assms in auto)

lemma thread_advance_Invoked:
  assumes "\<nexists>bs. op = LoadFromString bs" and "\<nexists>req. op = Call (Reclassify req)"
  shows "thread_advance ho (Invoked op) l = (case perform ho op l of (a, l1) \<Rightarrow> (Finished a, l1))"
    and "takes_lock (Invoked op)"
proof -
  have "thread_advance ho (Invoked op) l = (case perform ho op l of (a, l1) \<Rightarrow> (Finished a, l1)) \<and> takes_lock (Invoked op)"
  proof (cases op)
    case (Call c)
    with assms show ?thesis by (cases c) simp_all
  qed (use assms in simp_all)
  then show "thread_advance ho (Invoked op) l = (case perform ho op l of (a, l1) \<Rightarrow> (Finished a, l1))"
    and "takes_lock (Invoked op)" by simp_all
qed

section \<open>The simulation\<close>

text \<open>A thread that has looked up its target has not taken effect yet, and what it has read is current.\<close>

fun phase_rel :: "EfficiencyLedger \<Rightarrow> thread_phase \<Rightarrow> thread_phase \<Rightarrow> bool" where
  "phase_rel l (FoundAt req pos) q \<longleftrightarrow> q = Invoked (Call (Reclassify req)) \<and> l_index l (rq_target req) = Some pos"
| "phase_rel l (RevisionBuilt req r) q \<longleftrightarrow> q = Invoked (Call (Reclassify req)) \<and> r = revision_entry req l"
| "phase_rel l (Invoked (LoadFromString bs)) q \<longleftrightarrow> False"
| "phase_rel l (HeaderAdopted es) q \<longleftrightarrow> False"
| "phase_rel l (OutOfRange req) q \<longleftrightarrow> False"
| "phase_rel l p q \<longleftrightarrow> q = p"

definition threads_rel :: "threads \<Rightarrow> atomic_threads \<Rightarrow> bool" where
  "threads_rel s a \<longleftrightarrow> am_ledger a = th_ledger s \<and> wf_ledger (th_ledger s) \<and>
     (\<forall>t. phase_rel (th_ledger s) (th_phase s t) (am_phase a t))"

definition loads_no_record :: "event \<Rightarrow> bool" where
  "loads_no_record ev = (case ev of Invoke t op \<Rightarrow> (\<nexists>bs. op = LoadFromString bs) | _ \<Rightarrow> True)"

lemma phase_rel_Invoked: "\<nexists>bs. op = LoadFromString bs \<Longrightarrow> phase_rel l (Invoked op) q \<longleftrightarrow> q = Invoked op"
  by (cases op) simp_all

lemma phase_rel_frame:
  assumes "phase_rel l p q" and "has_looked p \<Longrightarrow> l_history l' = l_history l" and "wf_ledger l" and "wf_ledger l'"
  shows "phase_rel l' p q"
proof (cases p)
  case (Invoked op)
  with assms(1) show ?thesis by (cases op) simp_all
qed (use assms index_of_history [OF assms(3,4)] in \<open>auto simp: revision_entry_of\<close>)

text \<open>A critical section is the effect of the operation.\<close>

lemma critical_effect:
  assumes "takes_lock p" and "thread_advance ho p l = (p', l')" and "phase_rel l p q" and "wf_ledger l"
  obtains op a where "q = Invoked op" and "perform ho op l = (a, l')" and "p' = Finished a" and "wf_ledger l'"
proof (cases p)
  case (Invoked op)
  have op: "\<nexists>bs. op = LoadFromString bs" "\<nexists>req. op = Call (Reclassify req)"
    using assms(1,3) Invoked by auto
  obtain a where a: "perform ho op l = (a, l')" "p' = Finished a"
    using assms(2) Invoked by (auto simp: thread_advance_Invoked(1) [OF op] split: prod.splits)
  have "q = Invoked op" using assms(3) Invoked op(1) by (simp add: phase_rel_Invoked)
  from that [OF this a perform_wf [OF assms(4) a(1) op(1)]] show ?thesis .
next
  case (RevisionBuilt req r)
  obtain st where st: "append_locked ho r l = (st, l')" "p' = Finished (AStatus st)"
    using assms(2) RevisionBuilt by (auto split: prod.splits)
  have q: "q = Invoked (Call (Reclassify req))" "r = revision_entry req l"
    using assms(3) RevisionBuilt by simp_all
  show ?thesis
    by (rule that [OF q(1) _ st(2) append_wf [OF assms(4) st(1)]]) (use st(1) q(2) in \<open>simp add: reclassify_def\<close>)
qed (use assms in auto)

lemma look_up_rel:
  assumes "looks_up p = Some req" and "thread_advance ho p l = (p', l)" and "phase_rel l p q" and "wf_ledger l"
  shows "phase_rel l p' q"
proof (cases p)
  case (Invoked op)
  then obtain req where op: "op = Call (Reclassify req)"
    using assms(1) by (cases p rule: looks_up.cases) auto
  with Invoked assms(2,3) show ?thesis by (auto simp: revision_entry_of split: option.splits)
next
  case (FoundAt req' pos)
  then have "l_index l (rq_target req') = Some pos" using assms(3) by simp
  moreover from this have "pos < length (l_history l)" using assms(4) by (simp add: wf_ledger_def index_ok_def)
  ultimately show ?thesis using FoundAt assms(2,3) by (auto simp: revision_entry_of)
qed (use assms(1) in simp_all)

lemma local_rel:
  assumes "\<not> takes_lock p" and "looks_up p = None" and "thread_advance ho p l = (p', l)" and "phase_rel l p q"
  shows "p' = p"
proof (cases p)
  case (Invoked op)
  have op: "\<nexists>bs. op = LoadFromString bs" "\<nexists>req. op = Call (Reclassify req)"
    using assms(2,4) Invoked by auto
  then show ?thesis using thread_advance_Invoked(2) [OF op] assms(1) Invoked by simp
qed (use assms in auto)

interpretation atomic: forward_simulation concurrent_step atomic_step threads_rel loads_no_record "\<lambda>s. \<not> th_raced s"
proof
  fix s ev s'
  assume step: "concurrent_step s ev s'" and calm: "\<not> th_raced s'"
  then show "\<not> th_raced s" by cases auto
  fix a
  assume rel: "threads_rel s a" and ok: "pred_option loads_no_record ev"
  have l: "am_ledger a = th_ledger s" "wf_ledger (th_ledger s)"
    and p: "\<And>u. phase_rel (th_ledger s) (th_phase s u) (am_phase a u)"
    using rel by (simp_all add: threads_rel_def)
  from step show "\<exists>a'. threads_rel s' a' \<and> (atomic_step a ev a' \<or> ev = None \<and> a' = a)"
  proof cases
    case (invoke t op)
    have "am_phase a t = Idle" using p [of t] invoke by simp
    moreover have "threads_rel s' (a\<lparr>am_phase := (am_phase a)(t := Invoked op)\<rparr>)"
      using l p ok invoke by (simp add: threads_rel_def loads_no_record_def phase_rel_Invoked)
    ultimately show ?thesis using atomic_step.invoke invoke by blast
  next
    case (critical t ho p' l' w)
    obtain op x where q: "am_phase a t = Invoked op" "perform ho op (th_ledger s) = (x, l')" "p' = Finished x" "wf_ledger l'"
      by (rule critical_effect [OF critical(3,4) p l(2)])
    have "phase_rel l' (th_phase s u) (am_phase a u)" if "u \<noteq> t" for u
    proof (rule phase_rel_frame [OF p])
      show "l_history l' = l_history (th_ledger s)" if "has_looked (th_phase s u)"
        using that calm critical(2,5) \<open>u \<noteq> t\<close> by (auto simp: writes_def)
    qed (use l q in simp_all)
    then have "threads_rel s' \<lparr>am_ledger = l', am_phase = (am_phase a)(t := Finished x)\<rparr>"
      using q critical(2) by (simp add: threads_rel_def)
    moreover have "atomic_step a None \<lparr>am_ledger = l', am_phase = (am_phase a)(t := Finished x)\<rparr>"
      using q l by (intro atomic_step.effect) simp_all
    ultimately show ?thesis using critical by blast
  next
    case (look_up t req ho p')
    have "phase_rel (th_ledger s) p' (am_phase a t)"
      by (rule look_up_rel [OF look_up(3,5) p l(2)])
    then have "threads_rel s' a" using l p look_up(2) by (simp add: threads_rel_def)
    with look_up show ?thesis by blast
  next
    case (local t ho p')
    have "p' = th_phase s t" by (rule local_rel [OF local(3,4,6) p])
    then have "threads_rel s' a" using rel local(2) by (simp add: fun_upd_idem)
    with local show ?thesis by blast
  next
    case (synchronize t)
    have "am_phase a t = Idle" using p [of t] synchronize by simp
    moreover have "threads_rel s' a" using rel synchronize by (simp add: threads_rel_def)
    ultimately show ?thesis using atomic_step.synchronize synchronize by blast
  next
    case (answer t x)
    have "am_phase a t = Finished x" using p [of t] answer by simp
    moreover have "threads_rel s' (a\<lparr>am_phase := (am_phase a)(t := Idle)\<rparr>)"
      using l p answer by (simp add: threads_rel_def)
    ultimately show ?thesis using atomic_step.answer answer by blast
  qed (use calm in auto)
qed

lemma rel_idle: "wf_ledger l \<Longrightarrow> threads_rel (idle_threads l) (idle_atomic l)"
  by (simp add: threads_rel_def idle_threads_def idle_atomic_def)

lemma linearizes:
  assumes "executes concurrent_step (idle_threads l) tr s" and "wf_ledger l" and "list_all loads_no_record tr"
    and "\<not> th_raced s"
  shows "\<exists>a. executes atomic_step (idle_atomic l) tr a \<and> threads_rel s a"
  using atomic.simulates_executes [OF assms(1) rel_idle [OF assms(2)] assms(3,4)] by blast

text \<open>Only \<open>reclassify\<close> reads without the mutex: without it there is no race.\<close>

definition never_looks :: "threads \<Rightarrow> bool" where
  "never_looks s \<longleftrightarrow> \<not> th_raced s \<and> (\<forall>t. looks_up (th_phase s t) = None \<and> \<not> has_looked (th_phase s t))"

fun no_reclassify :: "event \<Rightarrow> bool" where
  "no_reclassify (Invoke t (Call (Reclassify req))) = False"
| "no_reclassify ev = True"

lemma no_reclassify_iff: "no_reclassify ev \<longleftrightarrow> (\<nexists>t req. ev = Invoke t (Call (Reclassify req)))"
  by (cases ev rule: no_reclassify.cases) auto

lemma advance_never_looks:
  assumes "thread_advance ho p l = (p', l')" and "looks_up p = None" and "\<not> has_looked p"
  shows "looks_up p' = None \<and> \<not> has_looked p'"
proof (cases p)
  case (Invoked op)
  have "\<nexists>req. op = Call (Reclassify req)" using assms(2) Invoked by auto
  then show ?thesis
    using assms(1) Invoked thread_advance_Invoked(1) [of op ho l]
    by (cases "\<exists>bs. op = LoadFromString bs") (auto split: prod.splits sum.splits)
qed (use assms in \<open>auto split: prod.splits\<close>)

lemma race_free:
  assumes "executes concurrent_step (idle_threads l) tr s" and "list_all no_reclassify tr"
  shows "\<not> th_raced s"
proof -
  have "never_looks s' \<Longrightarrow> list_all no_reclassify tr \<Longrightarrow> never_looks s"
    if "executes concurrent_step s' tr s" for s'
    using that
  proof (induction rule: executes.induct)
    case (more s' tr s1 ev s2)
    then have IH: "never_looks s1" and ev: "pred_option no_reclassify ev" by (cases ev; simp)+
    from more.hyps(2) show ?case
    proof cases
      case (invoke t op)
      with ev have "looks_up (Invoked op) = None" by (cases op rule: public.cases) (auto elim: looks_up.elims)
      with IH invoke show ?thesis by (simp add: never_looks_def)
    next
      case (critical t ho p l' w)
      with IH advance_never_looks [OF critical(4)] show ?thesis by (simp add: never_looks_def)
    next
      case (local t ho p)
      with IH advance_never_looks [OF local(6)] show ?thesis by (simp add: never_looks_def)
    qed (use IH in \<open>auto simp: never_looks_def\<close>)
  qed
  moreover have "never_looks (idle_threads l)" by (simp add: never_looks_def idle_threads_def)
  ultimately show ?thesis using assms by (simp add: never_looks_def)
qed

section \<open>Every interleaving is a sequence of calls\<close>

text \<open>
  Each step of a thread, also of one that loads or races, does to the ledger nothing or what one
  call does.
\<close>

lemma advance_calls:
  assumes "thread_advance ho p l = (p', l')"
  shows "l' = l \<or> (\<exists>c st. call ho c l = (st, l'))"
proof (cases p)
  case (Invoked op)
  show ?thesis
  proof (cases op)
    case (Call c)
    with Invoked assms show ?thesis
      by (cases c) (auto split: prod.splits option.splits, (metis call.simps)+)
  next
    case (LoadFromString bs)
    with Invoked assms show ?thesis
      by (auto split: sum.splits prod.splits) (metis call.simps(5))
  qed (use Invoked assms in auto)
next
  case (RevisionBuilt req r)
  with assms show ?thesis by (auto split: prod.splits) (metis call.simps(1))
next
  case (HeaderAdopted es)
  with assms show ?thesis by (auto split: prod.splits) (metis call.simps(4))
qed (use assms in \<open>auto split: if_splits\<close>)

lemma executes_reachable:
  "executes concurrent_step s tr s' \<Longrightarrow> reachable {} (th_ledger s) \<Longrightarrow> reachable {} (th_ledger s')"
proof (induction rule: executes.induct)
  case (more s tr s1 ev s2)
  from more.hyps(2) more.IH [OF more.prems] show ?case
  proof cases
    case (critical t ho p l w)
    with advance_calls [OF critical(4)] more.IH [OF more.prems] show ?thesis
      by (auto intro: reachable.step)
  qed auto
qed

section \<open>Schedules\<close>

text \<open>An execution as a list of choices: who calls what, who takes the next step, who gets the answer.\<close>

datatype choice = Start nat operation | Work nat "AccountId hash_order" | Race nat LedgerEntry | Deliver nat

definition schedule_step :: "choice \<Rightarrow> threads \<Rightarrow> (event list \<times> threads) option" where
  "schedule_step ch s =
     (case ch of
        Start t op \<Rightarrow>
          if th_phase s t = Idle \<and> public op
          then Some ([Invoke t op], s\<lparr>th_phase := (th_phase s)(t := Invoked op)\<rparr>) else None
      | Work t ho \<Rightarrow> (case thread_advance ho (th_phase s t) (th_ledger s) of
            (p, l) \<Rightarrow>
              if takes_lock (th_phase s t) then
                (let w = writes (th_phase s t) (th_ledger s) l
                 in Some ([], \<lparr>th_ledger = l, th_phase = (th_phase s)(t := p),
                      th_fresh = (\<lambda>u. u = t \<or> (th_fresh s u \<and> \<not> w)),
                      th_raced = (th_raced s \<or> (w \<and> (\<exists>u. u \<noteq> t \<and> has_looked (th_phase s u))))\<rparr>))
              else if looks_up (th_phase s t) \<noteq> None \<and> th_fresh s t
              then Some ([], s\<lparr>th_phase := (th_phase s)(t := p)\<rparr>) else None)
      | Race t r \<Rightarrow> (case looks_up (th_phase s t) of
            Some req \<Rightarrow>
              if \<not> th_fresh s t
              then Some ([], s\<lparr>th_phase := (th_phase s)(t := RevisionBuilt req r), th_raced := True\<rparr>) else None
          | None \<Rightarrow> None)
      | Deliver t \<Rightarrow> (case th_phase s t of
            Finished a \<Rightarrow> Some ([Return t a], s\<lparr>th_phase := (th_phase s)(t := Idle)\<rparr>)
          | _ \<Rightarrow> None))"

fun run_schedule :: "choice list \<Rightarrow> event list \<Rightarrow> threads \<Rightarrow> (event list \<times> threads) option" where
  "run_schedule [] tr s = Some (tr, s)"
| "run_schedule (ch # chs) tr s =
     (case schedule_step ch s of
        None \<Rightarrow> None
      | Some (evs, s1) \<Rightarrow> run_schedule chs (tr @ evs) s1)"

lemma advance_unlocked:
  assumes "thread_advance ho p l = (p', l')" and "looks_up p \<noteq> None"
  shows "l' = l"
  using assms by (cases p rule: looks_up.cases) (auto split: option.splits if_splits)

lemma schedule_step_executes:
  assumes "schedule_step ch s = Some (evs, s1)" and "executes concurrent_step s0 tr s"
  shows "executes concurrent_step s0 (tr @ evs) s1"
proof -
  note go = executes.more [OF assms(2)]
  show ?thesis
  proof (cases ch)
    case (Start t op)
    with assms(1) go [OF concurrent_step.invoke, of t op] show ?thesis
      by (auto simp: schedule_step_def split: if_splits)
  next
    case (Work t ho)
    obtain p l where adv: "thread_advance ho (th_phase s t) (th_ledger s) = (p, l)" by fastforce
    show ?thesis
    proof (cases "takes_lock (th_phase s t)")
      case True
      with assms(1) Work adv go [OF concurrent_step.critical [OF True adv refl]] show ?thesis
        by (auto simp: schedule_step_def Let_def)
    next
      case False
      with assms(1) Work adv obtain req where req: "looks_up (th_phase s t) = Some req" "th_fresh s t"
        and s1: "evs = []" "s1 = s\<lparr>th_phase := (th_phase s)(t := p)\<rparr>"
        by (auto simp: schedule_step_def split: if_splits)
      have "l = th_ledger s" using advance_unlocked [OF adv] req(1) by simp
      with go [OF concurrent_step.look_up [OF req]] adv s1 show ?thesis by simp
    qed
  next
    case (Race t r)
    with assms(1) go [OF concurrent_step.racing_look_up, of t _ r] show ?thesis
      by (auto simp: schedule_step_def split: option.splits if_splits)
  next
    case (Deliver t)
    with assms(1) go [OF concurrent_step.answer, of t] show ?thesis
      by (auto simp: schedule_step_def split: thread_phase.splits)
  qed
qed

lemma run_schedule_executes:
  "run_schedule chs tr s = Some (tr', s') \<Longrightarrow> executes concurrent_step s0 tr s \<Longrightarrow> executes concurrent_step s0 tr' s'"
proof (induction chs arbitrary: tr s)
  case (Cons ch chs)
  then show ?case by (auto split: option.splits intro: schedule_step_executes)
qed simp

section \<open>A load is two critical sections\<close>

text \<open>
  A ledger with one entry, and a thread that loads the record of this very ledger. Whenever a load
  is atomic the entry is there, so appending it again is refused; between the two critical sections
  the books are empty and the entry is accepted.
\<close>

definition one_entry_ledger :: EfficiencyLedger where
  "one_entry_ledger = snd (append_locked insertion_order shared_work (EfficiencyLedger_new (Identity 1)))"

lemma one_entry_append: "append_locked insertion_order shared_work (EfficiencyLedger_new (Identity 1)) = (Status_success, one_entry_ledger)"
proof -
  have "fst (append_locked insertion_order shared_work (EfficiencyLedger_new (Identity 1))) = Status_success"
    by code_simp
  then show ?thesis unfolding one_entry_ledger_def by (metis prod.collapse)
qed

lemma one_entry_reachable: "ErrorCode_kOk \<notin> faults \<Longrightarrow> reachable faults one_entry_ledger"
  by (rule reachable.step [OF reachable.start, of insertion_order "Append shared_work" "Identity 1" Status_success])
    (simp_all add: one_entry_append, simp add: Status_success_def)

lemma one_entry_history: "l_history one_entry_ledger = [shared_work]"
  using append_contribution(2) [OF wf_new one_entry_append]
  by (simp add: Status_ok_def Status_success_def EfficiencyLedger_new_def)

definition own_record :: bytes where
  "own_record = snd (save_to_string one_entry_ledger)"

lemma one_entry_authority: "same_authority (EfficiencyLedger_new (Identity 1)) one_entry_ledger"
  by (rule append_same_authority [OF one_entry_append])

lemma one_entry_wf: "wf_ledger one_entry_ledger"
  by (rule append_wf [OF wf_new one_entry_append])

lemma one_entry_contains: "contains (e_id shared_work) one_entry_ledger"
  using one_entry_wf by (simp add: wf_ledger_def index_ok_def one_entry_history contains_def)

lemma one_entry_loadable: "loadable one_entry_ledger"
proof -
  have "fences_current one_entry_ledger shared_work"
    unfolding fences_current_authority [OF one_entry_authority]
    by (simp add: EfficiencyLedger_new_def fences_current_def shared_work_def
        LedgerEntry_default_def AuthorityFences_default_def id_valid_def id_invalid_def)
  moreover have "LedgerEntry_validate shared_work"
    using one_entry_wf by (simp add: wf_ledger_def entry_ok_def one_entry_history)
  then have "encodable shared_work"
    by (simp add: validate_encodable shared_work_def LedgerEntry_default_def)
  ultimately show ?thesis
    by (simp add: loadable_def one_entry_history kMaxEntryCount_def)
qed

lemma own_record_loads:
  obtains l1 where "load_from_string ho own_record l0 = (Status_success, None, l1)" and "contains (e_id shared_work) l1"
proof -
  have "replays one_entry_ledger"
    by (rule replay.reachable_keeps [OF one_entry_reachable]) simp
  then obtain l1 where "load_from_string ho own_record l0 = (Status_success, None, l1)" "books_equiv one_entry_ledger l1"
    unfolding own_record_def using save_load [OF _ one_entry_loadable, of ho l0] by metis
  moreover from this(2) have "contains (e_id shared_work) l1"
    using one_entry_contains by (simp add: books_equiv_def contains_def)
  ultimately show ?thesis by (intro that)
qed

text \<open>What the atomic ledger can answer to the loader and to the thread that appends the entry again.\<close>

fun entry_phase :: "thread_phase \<Rightarrow> bool" where
  "entry_phase Idle = True"
| "entry_phase (Invoked op) = (op = LoadFromString own_record \<or> op = Call (Append shared_work))"
| "entry_phase (Finished a) = (a \<noteq> AStatus Status_success)"
| "entry_phase p = False"

definition entry_stays :: "atomic_threads \<Rightarrow> bool" where
  "entry_stays a \<longleftrightarrow> contains (e_id shared_work) (am_ledger a) \<and> (\<forall>t. entry_phase (am_phase a t))"

lemma append_keeps_index:
  assumes "append_locked ho e l = (st, l')" and "contains k l"
  shows "contains k l'"
  using assms(1)
proof (cases rule: append_cases)
  case (entry accs)
  with assms(2) show ?thesis
    by (auto simp: contains_def record_attempt_def record_lifecycle_def push_history_def)
next
  case (revision accs tid pos t)
  with assms(2) show ?thesis by (auto simp: contains_def push_history_def)
qed (use assms(2) in \<open>simp_all add: contains_def\<close>)

lemma perform_entry:
  assumes "entry_phase (Invoked op)" and "contains (e_id shared_work) l" and "perform ho op l = (a, l')"
  shows "a \<noteq> AStatus Status_success \<and> contains (e_id shared_work) l'"
proof (cases "op = Call (Append shared_work)")
  case True
  obtain st where st: "append_locked ho shared_work l = (st, l')" "a = AStatus st"
    using True assms(3) by (auto split: prod.splits)
  have "l_index l (e_id shared_work) \<noteq> None"
    using assms(2) by (simp add: contains_def)
  with st(1) have "st \<noteq> Status_success"
    by (auto simp: append_locked_def Status_success_def split: if_splits)
  then show ?thesis using st append_keeps_index [OF st(1) assms(2)] by simp
next
  case False
  obtain l1 where "load_from_string ho own_record l = (Status_success, None, l1)" "contains (e_id shared_work) l1"
    by (rule own_record_loads)
  with False assms(1,3) show ?thesis by auto
qed

fun entry_event :: "event \<Rightarrow> bool" where
  "entry_event (Invoke t op) = (op = LoadFromString own_record \<or> op = Call (Append shared_work))"
| "entry_event ev = True"

lemma atomic_never_accepts:
  "executes atomic_step s tr a \<Longrightarrow> entry_stays s \<Longrightarrow> list_all entry_event tr \<Longrightarrow>
   entry_stays a \<and> Return t (AStatus Status_success) \<notin> set tr"
proof (induction rule: executes.induct)
  case (more s tr s1 ev s2)
  then have IH: "entry_stays s1 \<and> Return t (AStatus Status_success) \<notin> set tr" by simp
  from more.hyps(2) show ?case
  proof cases
    case (effect u op x l)
    then have "entry_phase (Invoked op)" using IH by (metis entry_stays_def)
    with IH effect perform_entry [OF this _ effect(4)] show ?thesis by (simp add: entry_stays_def)
  next
    case (answer u x)
    then have "entry_phase (Finished x)"
      using IH by (metis entry_stays_def)
    with IH answer show ?thesis by (auto simp: entry_stays_def)
  qed (use IH more.prems in \<open>auto simp: entry_stays_def\<close>)
qed simp

definition torn_schedule :: "choice list" where
  "torn_schedule = [Start 0 (LoadFromString own_record), Work 0 insertion_order,
     Start 1 (Call (Append shared_work)), Work 1 insertion_order, Deliver 1]"

definition torn_trace :: "event list" where
  "torn_trace = [Invoke 0 (LoadFromString own_record), Invoke 1 (Call (Append shared_work)),
     Return 1 (AStatus Status_success)]"

lemma torn_schedule_run:
  "\<exists>s. run_schedule torn_schedule [] (idle_threads one_entry_ledger) = Some (torn_trace, s)"
proof -
  have parse: "parse_record own_record = Inr (header_of one_entry_ledger, [shared_work])"
    using one_entry_loadable by (simp add: own_record_def parse_record_iff save_record loadable_def one_entry_history)
  have "adopt_header (Identity (hd_ledger_id (header_of one_entry_ledger))) (Identity (hd_epoch (header_of one_entry_ledger)))
      (Identity (hd_ledger_generation (header_of one_entry_ledger)))
      (Identity (hd_account_generation (header_of one_entry_ledger))) one_entry_ledger = EfficiencyLedger_new (Identity 1)"
    using one_entry_authority
    by (simp add: same_authority_def adopt_header_def clear_books_def header_of_def EfficiencyLedger_new_def)
  with parse one_entry_append show ?thesis
    by (simp add: torn_schedule_def torn_trace_def schedule_step_def idle_threads_def)
qed

section \<open>A revision and a shutdown\<close>

text \<open>
  A thread looks up the target of its revision, another shuts the ledger down, and the first gets the
  lock afterwards: the shutdown writes nothing that the look-up has read, so this is no race, and the
  revision is refused as if it had been made after the shutdown.
\<close>

definition waste_request :: ReclassifyRequest where
  "waste_request =
     \<lparr>rq_revision_id = Identity 4, rq_target = Identity 1, rq_new_classification = EfficiencyClass_kAvoidableWaste,
      rq_new_subcategory = Subcategory_default, rq_fences = AuthorityFences_default,
      rq_provenance = Provenance_kDerived, rq_note = []\<rparr>"

definition shutdown_schedule :: "choice list" where
  "shutdown_schedule = [Start 0 (Call (Reclassify waste_request)), Work 0 insertion_order,
     Start 1 (Call SetShuttingDown), Work 0 insertion_order, Work 1 insertion_order, Deliver 1,
     Work 0 insertion_order, Deliver 0]"

definition shutdown_trace :: "event list" where
  "shutdown_trace = [Invoke 0 (Call (Reclassify waste_request)), Invoke 1 (Call SetShuttingDown),
     Return 1 (AStatus Status_success),
     Return 0 (AStatus (Status ErrorCode_kShuttingDown ''ledger is shutting down''))]"

lemma shutdown_schedule_run:
  "\<exists>s. run_schedule shutdown_schedule [] (idle_threads one_entry_ledger) = Some (shutdown_trace, s) \<and>
     \<not> th_raced s \<and> th_ledger s = set_shutting_down one_entry_ledger"
proof -
  have "l_index one_entry_ledger (rq_target waste_request) = Some 0"
    using one_entry_wf by (simp add: wf_ledger_def index_ok_def one_entry_history waste_request_def shared_work_def)
  then show ?thesis
    by (simp add: shutdown_schedule_def shutdown_trace_def schedule_step_def idle_threads_def writes_def Let_def
        set_shutting_down_def append_locked_def one_entry_history)
qed

section \<open>A data race\<close>

text \<open>
  Another thread appends while the first is about to look up its target: the look-up is not ordered
  after the write, and whatever it returns, it is a data race.
\<close>

definition race_schedule :: "choice list" where
  "race_schedule = [Start 0 (Call (Reclassify waste_request)),
     Start 1 (Call (Append shared_work)), Work 1 insertion_order, Deliver 1, Race 0 LedgerEntry_default]"

lemma race_schedule_run:
  "\<exists>tr s. run_schedule race_schedule [] (idle_threads (EfficiencyLedger_new (Identity 1))) = Some (tr, s) \<and>
     th_raced s \<and> th_ledger s = one_entry_ledger"
  using one_entry_append
  by (simp add: race_schedule_def schedule_step_def idle_threads_def writes_def Let_def one_entry_history)
    (simp add: EfficiencyLedger_new_def)

lemma reclassify_races:
  "\<exists>tr s. executes concurrent_step (idle_threads (EfficiencyLedger_new (Identity 1))) tr s \<and> th_raced s \<and>
     th_ledger s = one_entry_ledger"
  using race_schedule_run run_schedule_executes [OF _ executes.stop] by blast

end
