(* ===== verification/EL_Protocol.thy ===== *)
theory EL_Protocol
  imports EL_Codec EL_Integrity
begin

text \<open>
  The wire protocol (\<^verbatim>\<open>protocol.cpp\<close>, \<^verbatim>\<open>frame_io.hpp\<close>) and the byte loops of
  \<^verbatim>\<open>socket.hpp\<close>: frames are canonical, a stream of frames is read back whatever pieces the
  network delivers it in, and a status is read back as long as its length word does not wrap.
\<close>

section \<open>Frames\<close>

definition kProtocolVersion :: u32 where
  "kProtocolVersion = 1"

definition kMaxFramePayload :: u32 where
  "kMaxFramePayload = 2 ^ 20"

definition get_u32 :: "bytes \<Rightarrow> nat \<Rightarrow> u32 option" where
  "get_u32 s pos = (if pos + 4 > length s then None else Some (get_le 4 (drop pos s)))"

definition get_u64 :: "bytes \<Rightarrow> nat \<Rightarrow> u64 option" where
  "get_u64 s pos = (if pos + 8 > length s then None else Some (get_le 8 (drop pos s)))"

definition encode_frame :: "u32 \<Rightarrow> u64 \<Rightarrow> bytes \<Rightarrow> bytes option" where
  "encode_frame kind request_id body =
     (let payload = put_u32 kProtocolVersion @ put_u32 kind @ put_u64 request_id @ body
      in if length payload > unat kMaxFramePayload then None
         else Some (put_u32 (word_of_nat (length payload)) @ put_u32 (crc32c payload 0) @ payload))"

definition decode_frame :: "bytes \<Rightarrow> (u32 \<times> u64 \<times> bytes) option" where
  "decode_frame inp =
     (if length inp < 8 then None
      else case get_u32 inp 0 of None \<Rightarrow> None | Some payload_len \<Rightarrow>
        if payload_len > kMaxFramePayload then None
        else if unat (payload_len + 8) \<noteq> length inp then None
        else case get_u32 inp 4 of None \<Rightarrow> None | Some crc \<Rightarrow>
          (let payload = take (unat payload_len) (drop 8 inp)
           in if crc32c payload 0 \<noteq> crc then None
              else case get_u32 payload 0 of None \<Rightarrow> None | Some version \<Rightarrow>
                if version \<noteq> kProtocolVersion then None
                else case get_u32 payload 4 of None \<Rightarrow> None | Some kind \<Rightarrow>
                  case get_u64 payload 8 of None \<Rightarrow> None | Some request_id \<Rightarrow>
                    Some (kind, request_id, if length payload \<ge> 16 then drop 16 payload else [])))"

section \<open>Status bodies\<close>

abbreviation text_bytes :: "string \<Rightarrow> bytes" where
  "text_bytes s \<equiv> map byte_of_char s"

definition encode_status_payload :: "Status \<Rightarrow> bytes \<Rightarrow> bytes" where
  "encode_status_payload st payload =
     put_u32 (ucast (ErrorCode_code (status_code st))) @
     put_u32 (word_of_nat (length (status_message st))) @ text_bytes (status_message st) @ payload"

definition encode_status :: "Status \<Rightarrow> bytes" where
  "encode_status st =
     put_u32 (ucast (ErrorCode_code (status_code st))) @
     put_u32 (word_of_nat (length (status_message st))) @ text_bytes (status_message st)"

text \<open>The sum \<open>8u + msg_len\<close> is a 32-bit sum; the code is narrowed to 16 bits by the cast to the enum.\<close>

definition decode_status :: "bytes \<Rightarrow> (Status \<times> bytes) option" where
  "decode_status inp =
     (if length inp < 8 then None
      else case get_u32 inp 0 of None \<Rightarrow> None | Some code \<Rightarrow>
        case get_u32 inp 4 of None \<Rightarrow> None | Some msg_len \<Rightarrow>
          if unat (8 + msg_len) > length inp then None
          else Some (Status (ErrorCode (ucast code)) (map char_of_byte (take (unat msg_len) (drop 8 inp))),
                     if unat (8 + msg_len) < length inp then drop (unat (8 + msg_len)) inp else []))"

section \<open>The byte loops of a socket\<close>

text \<open>
  The receiving side of a connection is the list of pieces the operating system still has to
  deliver: \<open>recv\<close> returns the first piece, or the part of it that fits, and 0 at the end of the
  stream. \<open>recv_all\<close> loops until it has the bytes it was asked for.
\<close>

fun os_recv :: "nat \<Rightarrow> bytes list \<Rightarrow> bytes \<times> bytes list" where
  "os_recv n [] = ([], [])"
| "os_recv n (c # cs) = (if length c \<le> n then (c, cs) else (take n c, drop n c # cs))"

function recv_loop :: "nat \<Rightarrow> bytes \<Rightarrow> bytes list \<Rightarrow> bool \<times> bytes \<times> bytes list" where
  "recv_loop len got cs =
     (if length got < len then
        (case os_recv (len - length got) cs of (piece, cs') \<Rightarrow>
           if piece = [] then (False, got, cs') else recv_loop len (got @ piece) cs')
      else (True, got, cs))"
  by auto
termination
  by (relation "measure (\<lambda>(len, got, cs). len - length got)") (auto intro!: diff_less_mono2)

declare recv_loop.simps [simp del]

definition recv_all :: "nat \<Rightarrow> bytes list \<Rightarrow> bool \<times> bytes \<times> bytes list" where
  "recv_all len cs = recv_loop len [] cs"

text \<open>
  \<open>send_all\<close>, with the number of bytes each call of \<open>send\<close> accepts as a stream of answers of the
  operating system; an answer of 0 stands for an error or a closed peer.
\<close>

fun send_loop :: "bytes \<Rightarrow> nat list \<Rightarrow> bytes \<Rightarrow> bool \<times> bytes" where
  "send_loop data answers sent =
     (if data = [] then (True, sent)
      else case answers of
        [] \<Rightarrow> (False, sent)
      | n # ns \<Rightarrow>
          if n = 0 then (False, sent)
          else send_loop (drop n data) ns (sent @ take n data))"

declare send_loop.simps [simp del]

definition send_all :: "bytes \<Rightarrow> nat list \<Rightarrow> bool \<times> bytes" where
  "send_all data answers = send_loop data answers []"

definition read_frame :: "bytes list \<Rightarrow> (u32 \<times> u64 \<times> bytes) option \<times> bytes list" where
  "read_frame cs =
     (case recv_all 8 cs of
        (False, _, cs1) \<Rightarrow> (None, cs1)
      | (True, header, cs1) \<Rightarrow>
          (let payload_len = get_le 4 header :: u32
           in if payload_len > kMaxFramePayload then (None, cs1)
              else case recv_all (unat payload_len) cs1 of
                (False, _, cs2) \<Rightarrow> (None, cs2)
              | (True, payload, cs2) \<Rightarrow> (decode_frame (header @ payload), cs2)))"

definition read_status :: "bytes list \<Rightarrow> (Status \<times> bytes) option \<times> bytes list" where
  "read_status cs =
     (case read_frame cs of
        (None, cs1) \<Rightarrow> (None, cs1)
      | (Some (kind, req, body), cs1) \<Rightarrow> (decode_status body, cs1))"

definition write_frame :: "u32 \<Rightarrow> u64 \<Rightarrow> bytes \<Rightarrow> nat list \<Rightarrow> bool \<times> bytes" where
  "write_frame kind req body answers =
     (case encode_frame kind req body of None \<Rightarrow> (False, []) | Some frame \<Rightarrow> send_all frame answers)"

definition write_status :: "Status \<Rightarrow> bytes \<Rightarrow> nat list \<Rightarrow> bool \<times> bytes" where
  "write_status st payload answers = write_frame 0 0 (encode_status_payload st payload) answers"

section \<open>Frames are canonical\<close>

lemma get_u32_put: "get_u32 (xs @ put_u32 v @ ys) (length xs) = Some v"
  by (simp add: get_u32_def put_u32_def get_put_le)

lemma get_u64_put: "get_u64 (xs @ put_u64 v @ ys) (length xs) = Some v"
  by (simp add: get_u64_def put_u64_def get_put_le)

lemma get_u32_canonical: "get_u32 s pos = Some v \<Longrightarrow> take (pos + 4) s = take pos s @ put_u32 v \<and> pos + 4 \<le> length s"
  by (auto simp: get_u32_def put_u32_def put_get_le take_add split: if_splits)

lemma get_u64_canonical: "get_u64 s pos = Some v \<Longrightarrow> take (pos + 8) s = take pos s @ put_u64 v \<and> pos + 8 \<le> length s"
  by (auto simp: get_u64_def put_u64_def put_get_le take_add split: if_splits)

lemma unat_plus_8:
  fixes n :: u32
  assumes "n \<le> kMaxFramePayload"
  shows "unat (n + 8) = unat n + 8"
  using assms by (subst unat_add_lem [THEN iffD1]) (simp_all add: word_le_nat_alt kMaxFramePayload_def)

lemma encode_decode_frame:
  assumes "encode_frame kind req body = Some frame"
  shows "decode_frame frame = Some (kind, req, body)"
proof -
  let ?p = "put_u32 kProtocolVersion @ put_u32 kind @ put_u64 req @ body"
  have len: "length ?p \<le> 1048576" and frame: "frame = put_u32 (word_of_nat (length ?p)) @ put_u32 (crc32c ?p 0) @ ?p"
    using assms by (auto simp: encode_frame_def Let_def kMaxFramePayload_def split: if_splits)
  have n: "unat (word_of_nat (length ?p) :: u32) = length ?p"
    using len by (intro unat_length_u32) simp
  then have small: "(word_of_nat (length ?p) :: u32) \<le> kMaxFramePayload"
    using len by (simp add: word_le_nat_alt kMaxFramePayload_def)
  have heads: "get_u32 frame 0 = Some (word_of_nat (length ?p))" "get_u32 frame 4 = Some (crc32c ?p 0)"
    using get_u32_put [of "[]"] get_u32_put [of "put_u32 (word_of_nat (length ?p))"] unfolding frame by simp_all
  have fields: "get_u32 ?p 0 = Some kProtocolVersion" "get_u32 ?p 4 = Some kind" "get_u64 ?p 8 = Some req"
    using get_u32_put [of "[]" kProtocolVersion] get_u32_put [of "put_u32 kProtocolVersion"]
      get_u64_put [of "put_u32 kProtocolVersion @ put_u32 kind"] by simp_all
  have "take (length ?p) (drop 8 frame) = ?p" "length frame = length ?p + 8" "drop 16 ?p = body"
    unfolding frame by simp_all
  then show ?thesis
    using heads fields small n unat_plus_8 [OF small]
    by (simp add: decode_frame_def Let_def not_less)
qed

lemma decode_encode_frame:
  assumes "decode_frame frame = Some (kind, req, body)"
  shows "encode_frame kind req body = Some frame"
proof -
  obtain n where n: "get_u32 frame 0 = Some n" "n \<le> kMaxFramePayload" "unat (n + 8) = length frame"
    and rest: "get_u32 frame 4 = Some (crc32c (take (unat n) (drop 8 frame)) 0)"
      "get_u32 (take (unat n) (drop 8 frame)) 0 = Some kProtocolVersion"
      "get_u32 (take (unat n) (drop 8 frame)) 4 = Some kind" "get_u64 (take (unat n) (drop 8 frame)) 8 = Some req"
    and body: "body = (if length (take (unat n) (drop 8 frame)) \<ge> 16 then drop 16 (take (unat n) (drop 8 frame)) else [])"
    using assms by (auto simp: decode_frame_def Let_def not_less split: if_splits option.splits)
  let ?p = "drop 8 frame"
  have len: "length frame = unat n + 8" using n(3) unat_plus_8 [OF n(2)] by simp
  then have p: "take (unat n) (drop 8 frame) = ?p" by simp
  note r = rest [unfolded p]
  have "16 \<le> length ?p" using get_u64_canonical [OF r(4)] by simp
  then have body': "body = drop 16 ?p" using body p by simp
  have "take 16 ?p = put_u32 kProtocolVersion @ put_u32 kind @ put_u64 req"
    using get_u32_canonical [OF r(2)] get_u32_canonical [OF r(3)] get_u64_canonical [OF r(4)] by simp
  then have payload: "put_u32 kProtocolVersion @ put_u32 kind @ put_u64 req @ body = ?p"
    using append_take_drop_id [of 16 ?p] by (simp add: body')
  have "take 8 frame = put_u32 n @ put_u32 (crc32c ?p 0)"
    using get_u32_canonical [OF n(1)] get_u32_canonical [OF r(1)] by simp
  then have "frame = put_u32 n @ put_u32 (crc32c ?p 0) @ ?p"
    using append_take_drop_id [of 8 frame] by simp
  moreover have "word_of_nat (length ?p) = n" using len by simp
  moreover have "length ?p \<le> unat kMaxFramePayload" using len n(2) by (simp add: word_le_nat_alt)
  ultimately show ?thesis
    by (simp add: encode_frame_def Let_def payload)
qed

text \<open>A frame with one damaged byte is not a frame.\<close>

lemma decode_frame_damaged:
  assumes "decode_frame (xs @ b # ys) = Some r" and "b' \<noteq> b"
  shows "decode_frame (xs @ b' # ys) = None"
proof (rule ccontr)
  assume "decode_frame (xs @ b' # ys) \<noteq> None"
  then obtain r' where r': "decode_frame (xs @ b' # ys) = Some r'" by blast
  have shape: "\<exists>p. f = put_u32 (word_of_nat (length p)) @ put_u32 (crc32c p 0) @ p" if "decode_frame f = Some q" for f q
  proof -
    obtain k rq bd where "q = (k, rq, bd)" by (metis prod_cases3)
    with decode_encode_frame that show ?thesis by (fastforce simp: encode_frame_def Let_def split: if_splits)
  qed
  from shape [OF assms(1)] shape [OF r'] obtain p p' where
    old: "xs @ b # ys = put_u32 (word_of_nat (length p)) @ put_u32 (crc32c p 0) @ p" and
    new: "xs @ b' # ys = put_u32 (word_of_nat (length p')) @ put_u32 (crc32c p' 0) @ p'" by blast
  have drops: "p = drop 8 (xs @ b # ys)" "p' = drop 8 (xs @ b' # ys)"
    unfolding old new by simp_all
  show False
  proof (cases "length xs < 8")
    case True
    then have "p = p'" unfolding drops by (simp add: drop_Cons')
    then have "xs @ b # ys = xs @ b' # ys" using old new by simp
    with assms(2) show False by simp
  next
    case False
    then have "take 8 (xs @ b # ys) = take 8 (xs @ b' # ys)" by simp
    then have "put_u32 (word_of_nat (length p)) @ put_u32 (crc32c p 0) = put_u32 (word_of_nat (length p')) @ put_u32 (crc32c p' 0)"
      unfolding old new by simp
    then have "put_u32 (crc32c p 0) = put_u32 (crc32c p' 0)" by simp
    then have "crc32c p 0 = crc32c p' 0"
      using u32.prefix_free [of _ "[]" _ "[]"] by simp
    moreover have "p = drop 8 xs @ b # ys" "p' = drop 8 xs @ b' # ys"
      unfolding drops using False by simp_all
    ultimately show False
      using crc32c_one_byte [OF assms(2) [symmetric], of "drop 8 xs" ys 0] by simp
  qed
qed

section \<open>Byte loops deliver the stream\<close>

lemma recv_loop_spec:
  assumes "[] \<notin> set cs" and "length got \<le> len"
  shows "\<exists>cs'. [] \<notin> set cs' \<and>
     (if len \<le> length got + length (concat cs)
      then recv_loop len got cs = (True, take len (got @ concat cs), cs') \<and> concat cs' = drop (len - length got) (concat cs)
      else recv_loop len got cs = (False, got @ concat cs, []))"
  using assms
proof (induction len got cs rule: recv_loop.induct)
  case (1 len got cs)
  show ?case
  proof (cases "length got < len")
    case False
    with 1(2,3) show ?thesis by (intro exI [of _ cs]) (simp add: recv_loop.simps)
  next
    case more: True
    show ?thesis
    proof (cases cs)
      case Nil
      with more show ?thesis by (intro exI [of _ "[]"]) (simp add: recv_loop.simps)
    next
      case (Cons c cs1)
      let ?n = "len - length got"
      have c: "c \<noteq> []" using 1(2) Cons by auto
      obtain piece cs' where recv: "os_recv ?n cs = (piece, cs')" by fastforce
      have piece: "piece \<noteq> []" "length got + length piece \<le> len" "concat cs = piece @ concat cs'" "[] \<notin> set cs'"
        using recv Cons c more 1(2) by (auto split: if_splits)
      have step: "recv_loop len got cs = recv_loop len (got @ piece) cs'"
        using more piece(1) recv by (subst recv_loop.simps) simp
      obtain cs2 where "[] \<notin> set cs2" and
        "if len \<le> length (got @ piece) + length (concat cs')
         then recv_loop len (got @ piece) cs' = (True, take len ((got @ piece) @ concat cs'), cs2) \<and>
              concat cs2 = drop (len - length (got @ piece)) (concat cs')
         else recv_loop len (got @ piece) cs' = (False, (got @ piece) @ concat cs', [])"
        using 1(1) [OF more recv [symmetric] piece(1,4)] piece(2) by auto
      then show ?thesis
        using piece(2,3) by (intro exI [of _ cs2]) (auto simp: step split: if_splits)
    qed
  qed
qed

lemma recv_all_ok:
  assumes "[] \<notin> set cs" and "concat cs = xs @ ys" and "length xs = n"
  obtains cs' where "recv_all n cs = (True, xs, cs')" and "concat cs' = ys" and "[] \<notin> set cs'"
  using recv_loop_spec [OF assms(1), of "[]" n] assms(2,3) by (auto simp: recv_all_def)

lemma read_frame_ok:
  assumes "[] \<notin> set cs" and "encode_frame kind req body = Some frame" and "concat cs = frame @ rest"
  obtains cs' where "read_frame cs = (Some (kind, req, body), cs')" and "concat cs' = rest" and "[] \<notin> set cs'"
proof -
  let ?p = "put_u32 kProtocolVersion @ put_u32 kind @ put_u64 req @ body"
  have len: "length ?p \<le> 1048576" and frame: "frame = put_u32 (word_of_nat (length ?p)) @ put_u32 (crc32c ?p 0) @ ?p"
    using assms(2) by (auto simp: encode_frame_def Let_def kMaxFramePayload_def split: if_splits)
  let ?h = "put_u32 (word_of_nat (length ?p)) @ put_u32 (crc32c ?p 0)"
  have n: "unat (word_of_nat (length ?p) :: u32) = length ?p"
    using len by (intro unat_length_u32) simp
  then have small: "(word_of_nat (length ?p) :: u32) \<le> kMaxFramePayload"
    using len by (simp add: word_le_nat_alt kMaxFramePayload_def)
  have "concat cs = ?h @ (?p @ rest)" using assms(3) frame by simp
  then obtain cs1 where one: "recv_all 8 cs = (True, ?h, cs1)" "concat cs1 = ?p @ rest" "[] \<notin> set cs1"
    by (rule recv_all_ok [OF assms(1)]) simp_all
  obtain cs2 where two: "recv_all (length ?p) cs1 = (True, ?p, cs2)" "concat cs2 = rest" "[] \<notin> set cs2"
    by (rule recv_all_ok [OF one(3,2)]) simp_all
  have "get_le 4 ?h = (word_of_nat (length ?p) :: u32)"
    by (simp add: put_u32_def get_put_le)
  moreover have "?h @ ?p = frame" unfolding frame by simp
  ultimately have "read_frame cs = (decode_frame frame, cs2)"
    using one(1) two(1) n small unfolding read_frame_def Let_def by (simp only: prod.case bool.case not_less [symmetric] if_False n)
  then show ?thesis
    using that two(2,3) encode_decode_frame [OF assms(2)] by simp
qed

lemma send_loop_ok:
  "send_loop data answers sent = (True, out) \<Longrightarrow> out = sent @ data"
proof (induction data answers sent rule: send_loop.induct)
  case (1 data answers sent)
  show ?case
  proof (cases "data = []")
    case True
    with 1(2) show ?thesis by (simp add: send_loop.simps)
  next
    case False
    then obtain n ns where "answers = n # ns" "n \<noteq> 0" "send_loop (drop n data) ns (sent @ take n data) = (True, out)"
      using 1(2) by (subst (asm) send_loop.simps) (auto split: list.splits if_splits)
    with 1(1) [OF False] show ?thesis by fastforce
  qed
qed

lemma send_loop_enough:
  "0 \<notin> set answers \<Longrightarrow> length data \<le> sum_list answers \<Longrightarrow> fst (send_loop data answers sent)"
proof (induction data answers sent rule: send_loop.induct)
  case (1 data answers sent)
  show ?case
  proof (cases "data = []")
    case True
    then show ?thesis by (simp add: send_loop.simps)
  next
    case False
    then obtain n ns where ans: "answers = n # ns" "n \<noteq> 0"
      using 1(2,3) by (cases answers) auto
    with 1(1) [OF False ans] 1(2,3) have "fst (send_loop (drop n data) ns (sent @ take n data))" by simp
    with False ans show ?thesis by (subst send_loop.simps) simp
  qed
qed

section \<open>Status bodies\<close>

lemma decode_encode_status:
  assumes "length (status_message st) < 4294967288"
  shows "decode_status (encode_status_payload st payload) = Some (st, payload)"
proof -
  obtain c msg where st: "st = Status (ErrorCode c) msg" by (metis ErrorCode.exhaust Status.exhaust)
  let ?n = "word_of_nat (length msg) :: u32"
  let ?b = "encode_status_payload st payload"
  have n: "unat ?n = length msg"
    using assms st by (intro unat_length_u32) simp
  have sum8: "unat (8 + ?n) = length msg + 8"
    using assms st n by (subst unat_add_lem [THEN iffD1]) simp_all
  have reads: "get_u32 ?b 0 = Some (ucast c)" "get_u32 ?b 4 = Some ?n"
    using get_u32_put [of "[]"] get_u32_put [of "put_u32 (ucast c)"]
    by (simp_all add: st encode_status_payload_def)
  have narrow: "ucast (ucast c :: u32) = c"
    by (rule bit_eqI) (auto simp: bit_simps dest: bit_imp_le_length)
  have "drop 8 ?b = text_bytes msg @ payload" "length ?b = 8 + length msg + length payload"
    "drop (length msg + 8) ?b = payload"
    by (simp_all add: st encode_status_payload_def)
  with reads n sum8 show ?thesis
    by (simp add: decode_status_def narrow st o_def)
qed

section \<open>The bound check of a status wraps\<close>

text \<open>
  Eight bytes that announce a message of 4294967288 bytes are accepted, with an empty message and with
  the header itself as the payload.
\<close>

lemma status_length_wraps:
  "decode_status (put_u32 0 @ put_u32 4294967288) = Some (Status ErrorCode_kOk [], put_u32 0 @ put_u32 4294967288)"
proof -
  have "get_u32 (put_u32 0 @ put_u32 4294967288) 0 = Some 0" "get_u32 (put_u32 0 @ put_u32 4294967288) 4 = Some 4294967288"
    using get_u32_put [of "[]" 0 "put_u32 4294967288"] get_u32_put [of "put_u32 0" 4294967288 "[]"] by simp_all
  then show ?thesis by (simp add: decode_status_def)
qed

end
