(* ===== verification/EL_Coordinator.thy ===== *)
theory EL_Coordinator
  imports EL_Persistence EL_Protocol
begin

text \<open>
  The programs under \<^verbatim>\<open>tools\<close>: the coordinator that serves a ledger over connections, the entries
  its worker sends, and the commands of the inspection tool. The operating system is seen through
  the frames that arrive, the answers of the file system (\<open>save_env\<close>), and the arguments.
\<close>

section \<open>The coordinator\<close>

definition kRegister :: u32 where
  "kRegister = 1"

definition kAppend :: u32 where
  "kAppend = 2"

definition kQueryDigest :: u32 where
  "kQueryDigest = 3"

definition kQueryTotals :: u32 where
  "kQueryTotals = 4"

definition kReclassify :: u32 where
  "kReclassify = 5"

definition kShutdown :: u32 where
  "kShutdown = 6"

record Coordinator =
  co_ledger :: EfficiencyLedger
  co_fs :: filesystem
  co_running :: bool

record Connection =
  cn_boot :: WorkerBootId
  cn_registered :: bool

definition Connection_new :: Connection where
  "Connection_new = \<lparr>cn_boot = id_invalid, cn_registered = False\<rparr>"

definition u64_from :: "bytes \<Rightarrow> u64" where
  "u64_from s = get_le 8 s"

text \<open>Saving if a path was given; the status of \<open>save\<close> is not looked at.\<close>

definition save_if_path :: "save_env \<Rightarrow> string \<Rightarrow> Coordinator \<Rightarrow> Coordinator" where
  "save_if_path env path co =
     (if path \<noteq> [] then co\<lparr>co_fs := snd (save env path (co_ledger co) (co_fs co))\<rparr> else co)"

text \<open>
  One pass of the inner loop after a frame was read: the reply, whether the loop is left, and the
  new state.
\<close>

definition handle_frame ::
    "AccountId hash_order \<Rightarrow> save_env \<Rightarrow> string \<Rightarrow> u32 \<Rightarrow> bytes \<Rightarrow> Coordinator \<times> Connection \<Rightarrow>
     (Status \<times> bytes) \<times> bool \<times> Coordinator \<times> Connection" where
  "handle_frame ho env path kind body s =
     (case s of (co, cn) \<Rightarrow>
        if kind = kRegister then
          if length body \<ge> 8 then
            (let boot = Identity (u64_from (take 8 body))
             in ((Status_success, []), False,
                 co\<lparr>co_ledger := register_worker boot (co_ledger co)\<rparr>, \<lparr>cn_boot = boot, cn_registered = True\<rparr>))
          else ((Status ErrorCode_kProtocolError ''bad register'', []), False, co, cn)
        else if kind = kAppend \<or> kind = kReclassify then
          (case decode_entry body 0 LedgerEntry_default of
             None \<Rightarrow> ((Status ErrorCode_kProtocolError ''bad entry'', []), False, co, cn)
           | Some (e, off) \<Rightarrow>
               if off = length body then
                 (case append_locked ho e (co_ledger co) of (st, l) \<Rightarrow>
                    (let co1 = co\<lparr>co_ledger := l\<rparr>
                     in ((st, []), False, if Status_ok st then save_if_path env path co1 else co1, cn)))
               else ((Status ErrorCode_kProtocolError ''bad entry'', []), False, co, cn))
        else if kind = kQueryDigest then
          ((Status_success, put_u64 (digest (co_ledger co)) @ put_u64 (word_of_nat (entry_count (co_ledger co)))),
           False, co, cn)
        else if kind = kShutdown then
          ((Status_success, []), True, (save_if_path env path co)\<lparr>co_running := False\<rparr>, cn)
        else ((Status ErrorCode_kProtocolError ''unknown message'', []), False, co, cn))"

text \<open>What happens when no frame can be read: the peer closed, or sent something malformed.\<close>

definition close_connection :: "Coordinator \<times> Connection \<Rightarrow> Coordinator" where
  "close_connection s =
     (case s of (co, cn) \<Rightarrow>
        if cn_registered cn \<and> id_valid (cn_boot cn)
        then co\<lparr>co_ledger := unregister_worker (cn_boot cn) (co_ledger co)\<rparr> else co)"

text \<open>A frame as it arrives, with the answers the file system gives while it is handled.\<close>

type_synonym arrival = "save_env \<times> u32 \<times> bytes"

fun serve_frames ::
    "AccountId hash_order \<Rightarrow> string \<Rightarrow> arrival list \<Rightarrow> Coordinator \<times> Connection \<Rightarrow> (Status \<times> bytes) list \<times> Coordinator" where
  "serve_frames ho path [] s = ([], close_connection s)"
| "serve_frames ho path ((env, kind, body) # fs) s =
     (case handle_frame ho env path kind body s of (reply, left, s') \<Rightarrow>
        if left then ([reply], fst s')
        else case serve_frames ho path fs s' of (replies, co) \<Rightarrow> (reply # replies, co))"

text \<open>The outer loop over accepted connections, and the last save after it.\<close>

fun serve_connections ::
    "AccountId hash_order \<Rightarrow> string \<Rightarrow> arrival list list \<Rightarrow> Coordinator \<Rightarrow> (Status \<times> bytes) list list \<times> Coordinator" where
  "serve_connections ho path [] co = ([], co)"
| "serve_connections ho path (fs # conns) co =
     (if \<not> co_running co then ([], co)
      else case serve_frames ho path fs (co, Connection_new) of (replies, co1) \<Rightarrow>
        (case serve_connections ho path conns co1 of (rest, co2) \<Rightarrow> (replies # rest, co2)))"

definition coordinator_start ::
    "AccountId hash_order \<Rightarrow> bool \<Rightarrow> string \<Rightarrow> u64 \<Rightarrow> filesystem \<Rightarrow> Coordinator" where
  "coordinator_start ho load_flag path epoch fs =
     (let led = EfficiencyLedger_new kDefaultLedgerId;
          led1 = (if load_flag \<and> path \<noteq> [] then snd (load ho path fs led) else led);
          led2 = (if epoch \<noteq> 0 then set_epoch (Identity epoch) led1 else led1)
      in \<lparr>co_ledger = led2, co_fs = fs, co_running = True\<rparr>)"

definition coordinator_main ::
    "AccountId hash_order \<Rightarrow> bool \<Rightarrow> string \<Rightarrow> u64 \<Rightarrow> arrival list list \<Rightarrow> save_env \<Rightarrow> filesystem \<Rightarrow>
     (Status \<times> bytes) list list \<times> Coordinator" where
  "coordinator_main ho load_flag path epoch conns last_env fs =
     (case serve_connections ho path conns (coordinator_start ho load_flag path epoch fs) of
        (replies, co) \<Rightarrow> (replies, save_if_path last_env path co))"

section \<open>The worker\<close>

definition mk ::
    "u64 \<Rightarrow> EventType \<Rightarrow> EfficiencyClass \<Rightarrow> u64 \<Rightarrow> AccountId \<Rightarrow> u64 \<Rightarrow> WorkerBootId \<Rightarrow> AttemptId \<Rightarrow>
     AttemptOutcome \<Rightarrow> LedgerEntry" where
  "mk eid ev cls ns acc pub boot att out =
     (let e = LedgerEntry_default
           \<lparr>e_id := Identity eid, e_event := ev, e_classification := cls,
            e_usage := ResourceUsage_set (e_usage LedgerEntry_default) 0 ns, e_account := acc,
            e_fences := (e_fences LedgerEntry_default)\<lparr>f_publication := Identity pub, f_worker_boot := boot\<rparr>,
            e_attempt := (e_attempt LedgerEntry_default)\<lparr>at_id := att\<rparr>, e_attempt_outcome := out\<rparr>;
          e1 = (if cls = EfficiencyClass_kUseful
                then e\<lparr>e_subcategory := (e_subcategory e)\<lparr>sc_useful := UsefulReason_kAuthoritativeExecution\<rparr>\<rparr> else e)
      in if cls = EfficiencyClass_kAvoidableWaste
         then e1\<lparr>e_subcategory := (e_subcategory e1)\<lparr>sc_waste := WasteReason_kFailedAttempt\<rparr>\<rparr> else e1)"

definition u64_body :: "u64 \<Rightarrow> bytes" where
  "u64_body v = put_u64 v"

text \<open>The four entries of the mode \<open>scenario\<close>, as the frames that carry them.\<close>

definition append_frame :: "save_env \<Rightarrow> LedgerEntry \<Rightarrow> arrival" where
  "append_frame env e = (env, kAppend, encode_entry e [])"

definition scenario_entries :: "u64 \<Rightarrow> LedgerEntry list" where
  "scenario_entries boot =
     (let acc = Identity 3; wb = Identity boot
      in [mk 1 EventType_kAttemptFailed EfficiencyClass_kAvoidableWaste 300 acc 0 wb (Identity 11) AttemptOutcome_kFailed,
          mk 2 EventType_kOutputPublished EfficiencyClass_kUseful 200 acc 1 wb (Identity 12) AttemptOutcome_kSucceeded,
          mk 3 EventType_kExecutionCompleted EfficiencyClass_kUseful 200 acc 1 wb (Identity 12) AttemptOutcome_kSucceeded,
          mk 1 EventType_kAttemptFailed EfficiencyClass_kAvoidableWaste 300 acc 0 wb (Identity 11) AttemptOutcome_kFailed])"

section \<open>What the coordinator's ledger goes through\<close>

text \<open>Every state of the served ledger is reachable by calls of the library.\<close>

lemma reachable_load_history:
  "reachable {} l \<Longrightarrow> load_history ho es l = (st, l') \<Longrightarrow> reachable {} l'"
  by (rule reachable.step [where c = "LoadHistory es"]) auto

lemma reachable_load:
  assumes "reachable {} l"
  shows "reachable {} (snd (load ho path fs l))"
proof (cases "fs path")
  case (Some bs)
  show ?thesis
  proof (cases "parse_record bs")
    case (Inl r)
    with Some assms show ?thesis
      by (cases r) (simp add: load_def load_from_string_def)
  next
    case (Inr r)
    obtain hdr es where r: "r = (hdr, es)" by fastforce
    let ?l0 = "adopt_header (Identity (hd_ledger_id hdr)) (Identity (hd_epoch hdr))
      (Identity (hd_ledger_generation hdr)) (Identity (hd_account_generation hdr)) l"
    obtain st l1 where run: "load_history ho es ?l0 = (st, l1)" by fastforce
    have "reachable {} ?l0"
      using assms by (rule reachable.step [where c = "AdoptHeader (Identity (hd_ledger_id hdr)) (Identity (hd_epoch hdr))
        (Identity (hd_ledger_generation hdr)) (Identity (hd_account_generation hdr))"]) auto
    then have "reachable {} l1" using run by (rule reachable_load_history)
    with Some Inr r run show ?thesis
      by (simp add: load_def load_from_string_def)
  qed
qed (use assms in \<open>simp add: load_def\<close>)

lemma reachable_start: "reachable {} (co_ledger (coordinator_start ho load_flag path epoch fs))"
proof -
  have new: "reachable {} (EfficiencyLedger_new kDefaultLedgerId)" by (rule reachable.start)
  have set: "reachable {} (set_epoch ep l)" if "reachable {} l" for ep l
    using that by (rule reachable.step [where c = "SetEpoch ep"]) auto
  show ?thesis
    using new reachable_load [OF new] by (auto simp: coordinator_start_def Let_def intro: set)
qed

lemma save_if_path_ledger [simp]: "co_ledger (save_if_path env path co) = co_ledger co"
  by (simp add: save_if_path_def)

lemma reachable_handle_frame:
  assumes "reachable {} (co_ledger co)" and "handle_frame ho env path kind body (co, cn) = (reply, left, co', cn')"
  shows "reachable {} (co_ledger co')"
proof -
  have reg: "reachable {} (register_worker b (co_ledger co))" for b
    using assms(1) by (rule reachable.step [where c = "RegisterWorker b"]) auto
  have app: "reachable {} l" if "append_locked ho e (co_ledger co) = (st, l)" for e st l
    using assms(1) by (rule reachable.step [where c = "Append e"]) (use that in auto)
  show ?thesis
    using assms reg app
    by (auto simp: handle_frame_def Let_def split: if_splits option.splits prod.splits)
qed

lemma reachable_serve_frames:
  "reachable {} (co_ledger (fst s)) \<Longrightarrow> reachable {} (co_ledger (snd (serve_frames ho path fs s)))"
proof (induction ho path fs s rule: serve_frames.induct)
  case (1 ho path s)
  obtain co cn where s: "s = (co, cn)" by fastforce
  have "reachable {} (unregister_worker b (co_ledger co))" for b
    by (rule reachable.step [where c = "UnregisterWorker b" and l = "co_ledger co"]) (use 1 s in auto)
  with 1 s show ?case by (simp add: close_connection_def)
next
  case (2 ho path env kind body fs s)
  obtain co cn where s: "s = (co, cn)" by fastforce
  obtain reply left co' cn' where h: "handle_frame ho env path kind body s = (reply, left, co', cn')"
    by (metis prod_cases4)
  have "reachable {} (co_ledger co')"
    using reachable_handle_frame [of co ho env path kind body cn] 2(2) h s by simp
  then have "\<not> left \<Longrightarrow> reachable {} (co_ledger (snd (serve_frames ho path fs (co', cn'))))"
    using 2(1) [OF h [symmetric] refl] h by simp
  with \<open>reachable {} (co_ledger co')\<close> h show ?case by (auto split: prod.splits)
qed

lemma reachable_serve:
  "reachable {} (co_ledger co) \<Longrightarrow> reachable {} (co_ledger (snd (serve_connections ho path conns co)))"
proof (induction conns arbitrary: co)
  case (Cons fs conns)
  have "reachable {} (co_ledger (snd (serve_frames ho path fs (co, Connection_new))))"
    using Cons.prems by (intro reachable_serve_frames) simp
  then have "reachable {} (co_ledger (snd (serve_connections ho path conns (snd (serve_frames ho path fs (co, Connection_new))))))"
    by (rule Cons.IH)
  with Cons.prems show ?case by (auto split: prod.splits)
qed simp

end
