(* ===== verification/EL_Service.thy ===== *)
theory EL_Service
  imports EL_Coordinator
begin

text \<open>
  The coordinator and its worker over byte streams: the inner loop of the coordinator reading frames
  from the pieces the network delivers, the worker's exchange of a request and a reply, and the
  command lines of both. The loop over bytes does what the loop over frames does, for every way of
  cutting the stream into pieces.
\<close>

section \<open>Reading consumes the stream\<close>

lemma os_recv_concat: "os_recv n cs = (piece, cs') \<Longrightarrow> concat cs = piece @ concat cs'"
  by (cases cs) (auto split: if_splits)

lemma recv_loop_concat: "recv_loop len got cs = (b, got', cs') \<Longrightarrow> got' @ concat cs' = got @ concat cs"
proof (induction len got cs arbitrary: got' cs' b rule: recv_loop.induct)
  case (1 len got cs)
  obtain piece cs1 where recv: "os_recv (len - length got) cs = (piece, cs1)" by fastforce
  show ?case
  proof (cases "length got < len \<and> piece \<noteq> []")
    case True
    then have "recv_loop len (got @ piece) cs1 = (b, got', cs')"
      using "1.prems" recv by (subst (asm) recv_loop.simps) simp
    with "1.IH" [OF _ recv [symmetric]] True os_recv_concat [OF recv] show ?thesis by simp
  next
    case False
    with "1.prems" recv os_recv_concat [OF recv] show ?thesis
      by (subst (asm) recv_loop.simps) (auto split: if_splits)
  qed
qed

lemma recv_loop_length: "recv_loop len got cs = (True, got', cs') \<Longrightarrow> len \<le> length got'"
proof (induction len got cs arbitrary: got' cs' rule: recv_loop.induct)
  case (1 len got cs)
  show ?case
    using 1(2) 1(1) by (subst (asm) recv_loop.simps) (auto split: if_splits prod.splits)
qed

lemma read_frame_consumes:
  assumes "read_frame cs = (Some r, cs')"
  shows "length (concat cs') < length (concat cs)"
proof -
  obtain header cs1 where one: "recv_all 8 cs = (True, header, cs1)"
    using assms by (auto simp: read_frame_def split: prod.splits bool.splits)
  obtain payload where two: "recv_all (unat (get_le 4 header :: u32)) cs1 = (True, payload, cs')"
    using assms one by (auto simp: read_frame_def Let_def split: prod.splits bool.splits if_splits)
  have "header @ concat cs1 = concat cs" "payload @ concat cs' = concat cs1"
    using recv_loop_concat [of 8 "[]" cs] recv_loop_concat [of "unat (get_le 4 header :: u32)" "[]" cs1] one two
    by (simp_all add: recv_all_def)
  moreover have "8 \<le> length header"
    using recv_loop_length one by (simp add: recv_all_def)
  ultimately have "length (concat cs) = length header + (length payload + length (concat cs'))"
    by (metis length_append)
  with \<open>8 \<le> length header\<close> show ?thesis by linarith
qed

section \<open>The coordinator on a byte stream\<close>

text \<open>
  The inner loop with its \<open>read_frame\<close>: \<open>env i\<close> are the answers of the file system while the \<open>i\<close>-th
  frame of the connection is handled. Every frame takes bytes from the stream, so the loop ends.
\<close>

function serve_bytes ::
    "AccountId hash_order \<Rightarrow> string \<Rightarrow> (nat \<Rightarrow> save_env) \<Rightarrow> nat \<Rightarrow> bytes list \<Rightarrow> Coordinator \<times> Connection \<Rightarrow>
     (Status \<times> bytes) list \<times> Coordinator" where
  "serve_bytes ho path env i cs s =
     (case read_frame cs of
        (None, _) \<Rightarrow> ([], close_connection s)
      | (Some (kind, req, body), cs') \<Rightarrow>
          (case handle_frame ho (env i) path kind body s of (reply, left, s') \<Rightarrow>
             if left then ([reply], fst s')
             else case serve_bytes ho path env (Suc i) cs' s' of (replies, co) \<Rightarrow> (reply # replies, co)))"
  by auto
termination
  by (relation "measure (\<lambda>(ho, path, env, i, cs, s). length (concat cs))")
    (auto dest: read_frame_consumes [OF sym])

declare serve_bytes.simps [simp del]

text \<open>The frames of a connection as they are sent, and as the loop over frames sees them.\<close>

type_synonym message = "u32 \<times> u64 \<times> bytes"

fun frames_of :: "message list \<Rightarrow> bytes option" where
  "frames_of [] = Some []"
| "frames_of ((kind, req, body) # ms) =
     (case encode_frame kind req body of
        None \<Rightarrow> None
      | Some frame \<Rightarrow> map_option (\<lambda>rest. frame @ rest) (frames_of ms))"

fun arrivals :: "(nat \<Rightarrow> save_env) \<Rightarrow> nat \<Rightarrow> message list \<Rightarrow> arrival list" where
  "arrivals env i [] = []"
| "arrivals env i ((kind, req, body) # ms) = (env i, kind, body) # arrivals env (Suc i) ms"

lemma read_frame_end: "read_frame [] = (None, [])"
  by (simp add: read_frame_def recv_all_def recv_loop.simps)

lemma serve_bytes_frames:
  assumes "[] \<notin> set cs" and "frames_of ms = Some (concat cs)"
  shows "serve_bytes ho path env i cs s = serve_frames ho path (arrivals env i ms) s"
  using assms
proof (induction ms arbitrary: cs i s)
  case Nil
  then have "cs = []" by (cases cs) auto
  then show ?case by (simp add: serve_bytes.simps [of _ _ _ _ "[]"] read_frame_end)
next
  case (Cons m ms)
  obtain kind req body where m: "m = (kind, req, body)" by (metis prod_cases3)
  obtain frame rest where enc: "encode_frame kind req body = Some frame" and fr: "frames_of ms = Some rest"
    and cat: "concat cs = frame @ rest"
    using Cons.prems(2) m by (auto split: option.splits)
  obtain cs' where read: "read_frame cs = (Some (kind, req, body), cs')" and "concat cs' = rest" "[] \<notin> set cs'"
    by (rule read_frame_ok [OF Cons.prems(1) enc cat])
  then have IH: "serve_bytes ho path env (Suc i) cs' s' = serve_frames ho path (arrivals env (Suc i) ms) s'" for s'
    using fr by (intro Cons.IH) simp_all
  show ?case
    by (subst serve_bytes.simps) (simp add: m read IH split: prod.splits)
qed

section \<open>The worker\<close>

text \<open>
  One exchange: the bytes \<open>send\<close> accepts per call are \<open>answers\<close>, the stream of replies is \<open>cs\<close>.
  The result is what \<open>send_append\<close> returns, what went out, and what is left of the replies.
\<close>

definition send_append :: "nat list \<Rightarrow> LedgerEntry \<Rightarrow> bytes list \<Rightarrow> bool \<times> bytes \<times> bytes list" where
  "send_append answers e cs =
     (case write_frame kAppend 0 (encode_entry e []) answers of
        (False, out) \<Rightarrow> (False, out, cs)
      | (True, out) \<Rightarrow>
          (case read_status cs of
             (None, cs') \<Rightarrow> (False, out, cs')
           | (Some (st, payload), cs') \<Rightarrow> (Status_ok st, out, cs')))"

definition worker_entries :: "string \<Rightarrow> u64 \<Rightarrow> LedgerEntry list" where
  "worker_entries mode boot =
     (let acc = Identity 3; wb = Identity boot
      in if mode = ''scenario'' then scenario_entries boot
         else if mode = ''append''
         then [mk 10 EventType_kOutputPublished EfficiencyClass_kUseful 250 acc 5 wb (Identity 20) AttemptOutcome_kSucceeded]
         else if mode = ''killsleep''
         then [mk 20 EventType_kOutputPublished EfficiencyClass_kUseful 150 acc 6 wb (Identity 21) AttemptOutcome_kSucceeded]
         else [])"

text \<open>The calls of \<open>send_append\<close> one after the other; their results are not looked at.\<close>

fun send_entries :: "nat list list \<Rightarrow> LedgerEntry list \<Rightarrow> bytes list \<Rightarrow> bool list \<times> bytes" where
  "send_entries answers [] cs = ([], [])"
| "send_entries answers (e # es) cs =
     (case send_append (case answers of [] \<Rightarrow> [] | a # _ \<Rightarrow> a) e cs of (ok, out, cs') \<Rightarrow>
        (case send_entries (tl answers) es cs' of (oks, out') \<Rightarrow> (ok # oks, out @ out')))"

text \<open>The main program after the connection is made: exit code, results of the appends, bytes sent.\<close>

definition worker_main ::
    "nat list \<Rightarrow> nat list list \<Rightarrow> string \<Rightarrow> u64 \<Rightarrow> bytes list \<Rightarrow> nat \<times> bool list \<times> bytes" where
  "worker_main first answers mode boot cs =
     (case write_frame kRegister 0 (u64_body boot) first of
        (False, out) \<Rightarrow> (1, [], out)
      | (True, out) \<Rightarrow>
          (case read_status cs of
             (None, _) \<Rightarrow> (1, [], out)
           | (Some (st, payload), cs') \<Rightarrow>
               if \<not> Status_ok st then (1, [], out)
               else case send_entries answers (worker_entries mode boot) cs' of
                 (oks, out') \<Rightarrow> (0, oks, out @ out')))"

text \<open>What the coordinator does with the entry a worker sends, and what the worker reads back.\<close>

lemma handle_append:
  assumes "encodable e" and "append_locked ho e (co_ledger co) = (st, l)"
  shows "handle_frame ho env path kAppend (encode_entry e []) (co, cn) =
    ((st, []), False,
     if Status_ok st then save_if_path env path (co\<lparr>co_ledger := l\<rparr>) else co\<lparr>co_ledger := l\<rparr>, cn)"
  using decode_encode_entry [OF assms(1), of "[]" "[]"] assms(2)
  by (simp add: handle_frame_def kAppend_def kRegister_def)

lemma read_status_ok:
  assumes "[] \<notin> set cs" and "encode_frame 0 0 (encode_status_payload st payload) = Some frame" and "concat cs = frame @ rest"
  obtains cs' where "read_status cs = (Some (st, payload), cs')" and "concat cs' = rest" and "[] \<notin> set cs'"
proof -
  obtain cs' where read: "read_frame cs = (Some (0, 0, encode_status_payload st payload), cs')"
    and rest: "concat cs' = rest" "[] \<notin> set cs'"
    by (rule read_frame_ok [OF assms])
  have "length (encode_status_payload st payload) \<le> 1048576"
    using assms(2) by (auto simp: encode_frame_def Let_def kMaxFramePayload_def split: if_splits)
  then have "length (status_message st) < 4294967288"
    by (simp add: encode_status_payload_def)
  then have "read_status cs = (Some (st, payload), cs')"
    by (simp add: read_status_def read decode_encode_status)
  with rest show ?thesis by (intro that)
qed

lemma append_exchange:
  assumes "encodable e" and sent: "write_frame kAppend 0 (encode_entry e []) answers = (True, out)"
    and app: "append_locked ho e (co_ledger co) = (st, l)"
    and reply: "encode_frame 0 0 (encode_status_payload st []) = Some frame"
    and up: "[] \<notin> set cs" "concat cs = out" and down: "[] \<notin> set rs" "concat rs = frame @ rest"
  shows "fst (serve_bytes ho path env i cs (co, cn)) = [(st, [])]"
    and "fst (send_append answers e rs) = Status_ok st"
proof -
  obtain f where f: "encode_frame kAppend 0 (encode_entry e []) = Some f" and "out = f"
    using sent send_loop_ok [of f answers "[]" out] by (auto simp: write_frame_def send_all_def dest: send_loop_ok split: option.splits)
  then have "frames_of [(kAppend, 0, encode_entry e [])] = Some (concat cs)"
    using up(2) by simp
  note bytes_frames = serve_bytes_frames [OF up(1) this]
  show "fst (serve_bytes ho path env i cs (co, cn)) = [(st, [])]"
    by (simp add: bytes_frames handle_append [OF assms(1) app])
  obtain rs' where "read_status rs = (Some (st, []), rs')"
    by (rule read_status_ok [OF down(1) reply down(2)])
  then show "fst (send_append answers e rs) = Status_ok st"
    by (simp add: send_append_def sent)
qed

section \<open>Durability\<close>

lemma acknowledged_saved:
  assumes "handle_frame ho no_io_error path kind body (co, cn) = ((st, payload), left, co', cn')"
    and "kind = kAppend \<or> kind = kReclassify" and "Status_ok st" and "path \<noteq> []"
  shows "co_fs co' path = Some (snd (save_to_string (co_ledger co')))"
proof -
  have "kind \<noteq> kRegister" using assms(2) by (auto simp: kAppend_def kReclassify_def kRegister_def)
  then have "\<exists>co1. co' = save_if_path no_io_error path co1"
    using assms by (auto simp: handle_frame_def Status_ok_def Let_def split: option.splits prod.splits if_splits)
  then show ?thesis
    using assms(4) by (auto simp: save_if_path_def save_no_io_error)
qed

lemma restart_recovers:
  assumes "fs path = Some (snd (save_to_string l))" and "path \<noteq> []" and "replays l" and "loadable l"
  shows "books_equiv l (co_ledger (coordinator_start ho True path epoch fs))"
proof -
  from save_load [OF assms(3,4), of ho "EfficiencyLedger_new kDefaultLedgerId"] obtain l1 where
    "load_from_string ho (snd (save_to_string l)) (EfficiencyLedger_new kDefaultLedgerId) = (Status_success, None, l1)"
    and "books_equiv l l1" by blast
  with assms(1,2) show ?thesis
    by (simp add: coordinator_start_def load_def Let_def set_epoch_def books_equiv_def)
qed

section \<open>Command lines\<close>

record CoordinatorArgs =
  ca_port :: u16
  ca_path :: string
  ca_epoch :: u64
  ca_load :: bool

text \<open>\<open>std::atoi\<close> and \<open>std::stoull\<close> are the arguments \<open>atoi\<close> and \<open>stoull\<close>.\<close>

fun coordinator_args :: "(string \<Rightarrow> int) \<Rightarrow> (string \<Rightarrow> u64) \<Rightarrow> string list \<Rightarrow> CoordinatorArgs \<Rightarrow> CoordinatorArgs" where
  "coordinator_args atoi stoull [] c = c"
| "coordinator_args atoi stoull (a # rest) c =
     (case rest of
        v # rest' \<Rightarrow>
          if a = ''--port'' then coordinator_args atoi stoull rest' (c\<lparr>ca_port := word_of_int (atoi v)\<rparr>)
          else if a = ''--path'' then coordinator_args atoi stoull rest' (c\<lparr>ca_path := v\<rparr>)
          else if a = ''--epoch'' then coordinator_args atoi stoull rest' (c\<lparr>ca_epoch := stoull v\<rparr>)
          else coordinator_args atoi stoull rest (if a = ''--load'' then c\<lparr>ca_load := True\<rparr> else c)
      | [] \<Rightarrow> (if a = ''--load'' then c\<lparr>ca_load := True\<rparr> else c))"

definition CoordinatorArgs_default :: CoordinatorArgs where
  "CoordinatorArgs_default = \<lparr>ca_port = 37123, ca_path = [], ca_epoch = 0, ca_load = False\<rparr>"

record WorkerArgs =
  wa_port :: u16
  wa_boot :: u64
  wa_mode :: string

fun worker_args :: "(string \<Rightarrow> int) \<Rightarrow> (string \<Rightarrow> u64) \<Rightarrow> string list \<Rightarrow> WorkerArgs \<Rightarrow> WorkerArgs" where
  "worker_args atoi stoull [] c = c"
| "worker_args atoi stoull (a # rest) c =
     (case rest of
        v # rest' \<Rightarrow>
          if a = ''--port'' then worker_args atoi stoull rest' (c\<lparr>wa_port := word_of_int (atoi v)\<rparr>)
          else if a = ''--boot'' then worker_args atoi stoull rest' (c\<lparr>wa_boot := stoull v\<rparr>)
          else if a = ''--mode'' then worker_args atoi stoull rest' (c\<lparr>wa_mode := v\<rparr>)
          else worker_args atoi stoull rest c
      | [] \<Rightarrow> c)"

definition WorkerArgs_default :: WorkerArgs where
  "WorkerArgs_default = \<lparr>wa_port = 37123, wa_boot = 100, wa_mode = ''append''\<rparr>"

section \<open>Acknowledgement without a save\<close>

text \<open>An append is acknowledged also if the temporary file could not be opened; no file has changed then.\<close>

lemma acknowledged_without_save:
  assumes "encodable e" and "append_locked ho e (co_ledger co) = (st, l)" and "Status_ok st" and "\<not> sv_open env"
  shows "\<exists>co'. handle_frame ho env path kAppend (encode_entry e []) (co, cn) = ((st, []), False, co', cn) \<and>
    co_fs co' = co_fs co \<and> co_ledger co' = l"
  using handle_append [OF assms(1,2), of env path cn] assms(3,4)
  by (simp add: save_if_path_def save_def save_record Let_def Status_ok_def Status_success_def)

end
