(* ===== verification/EL_Socket.thy ===== *)
theory EL_Socket
  imports EL_Prelude
begin

text \<open>
  The life of socket descriptors (\<^verbatim>\<open>socket.hpp\<close>, its POSIX branch): opening, binding, accepting, connecting
  with retries, closing, and the moves of the RAII class. The operating system is an argument that
  answers each call as a function of all calls before it. The byte loops \<open>send_all\<close> and \<open>recv_all\<close> are
  in \<open>EL_Protocol\<close>.
\<close>

section \<open>The operating system\<close>

datatype os_call =
    OsSocket | OsSetReuse int | OsBind int u16 | OsListen int | OsAccept int | OsConnect int u16 | OsSleep | OsClose int

type_synonym os_trace = "(os_call \<times> int) list"
type_synonym os = "os_trace \<Rightarrow> os_call \<Rightarrow> int"

definition os_do :: "os \<Rightarrow> os_call \<Rightarrow> os_trace \<Rightarrow> int \<times> os_trace" where
  "os_do os c tr = (os tr c, tr @ [(c, os tr c)])"

section \<open>The class\<close>

type_synonym Socket = int

definition kInvalidSocket :: Socket where
  "kInvalidSocket = -1"

definition socket_valid :: "Socket \<Rightarrow> bool" where
  "socket_valid fd \<longleftrightarrow> fd \<noteq> kInvalidSocket"

definition socket_close :: "os \<Rightarrow> Socket \<Rightarrow> os_trace \<Rightarrow> Socket \<times> os_trace" where
  "socket_close os fd tr =
     (if fd \<noteq> kInvalidSocket then (kInvalidSocket, snd (os_do os (OsClose fd) tr)) else (fd, tr))"

text \<open>
  The move constructor gives the new socket and what is left of the old one; so does the assignment,
  which does nothing if both are the same object.
\<close>

definition socket_move :: "Socket \<Rightarrow> Socket \<times> Socket" where
  "socket_move other = (other, kInvalidSocket)"

definition socket_move_assign :: "os \<Rightarrow> bool \<Rightarrow> Socket \<Rightarrow> Socket \<Rightarrow> os_trace \<Rightarrow> Socket \<times> Socket \<times> os_trace" where
  "socket_move_assign os same this other tr =
     (if \<not> same then (case socket_close os this tr of (_, tr') \<Rightarrow> (other, kInvalidSocket, tr'))
      else (this, other, tr))"

definition bind_and_listen :: "os \<Rightarrow> u16 \<Rightarrow> os_trace \<Rightarrow> bool \<times> Socket \<times> os_trace" where
  "bind_and_listen os port tr =
     (case os_do os OsSocket tr of (fd, tr1) \<Rightarrow>
        if fd = kInvalidSocket then (False, fd, tr1)
        else case os_do os (OsSetReuse fd) tr1 of (_, tr2) \<Rightarrow>
          case os_do os (OsBind fd port) tr2 of (b, tr3) \<Rightarrow>
            if b \<noteq> 0 then (False, fd, tr3)
            else case os_do os (OsListen fd) tr3 of (r, tr4) \<Rightarrow> (r = 0, fd, tr4))"

definition socket_accept :: "os \<Rightarrow> Socket \<Rightarrow> Socket \<Rightarrow> os_trace \<Rightarrow> bool \<times> Socket \<times> os_trace" where
  "socket_accept os fd out tr =
     (case os_do os (OsAccept fd) tr of (c, tr') \<Rightarrow>
        if c = -1 then (False, out, tr') else (True, c, tr'))"

text \<open>The loop over \<open>attempt\<close>, with the number of attempts that are left.\<close>

fun connect_loop :: "os \<Rightarrow> Socket \<Rightarrow> u16 \<Rightarrow> nat \<Rightarrow> os_trace \<Rightarrow> bool \<times> os_trace" where
  "connect_loop os fd port 0 tr = (False, tr)"
| "connect_loop os fd port (Suc left) tr =
     (case os_do os (OsConnect fd port) tr of (r, tr1) \<Rightarrow>
        if r = 0 then (True, tr1)
        else connect_loop os fd port left (snd (os_do os OsSleep tr1)))"

definition connect_to :: "os \<Rightarrow> u16 \<Rightarrow> os_trace \<Rightarrow> bool \<times> Socket \<times> os_trace" where
  "connect_to os port tr =
     (case os_do os OsSocket tr of (fd, tr1) \<Rightarrow>
        if fd = kInvalidSocket then (False, fd, tr1)
        else case connect_loop os fd port 100 tr1 of (ok, tr2) \<Rightarrow> (ok, fd, tr2))"

section \<open>Connecting\<close>

lemma connect_loop_spec:
  "connect_loop os fd port left tr = (ok, tr') \<Longrightarrow>
     \<exists>rs. tr' = tr @ concat (map (\<lambda>(r, z). [(OsConnect fd port, r), (OsSleep, z)]) rs) @
         (if ok then [(OsConnect fd port, 0)] else []) \<and>
       (\<forall>(r, z) \<in> set rs. r \<noteq> 0) \<and> (if ok then length rs < left else length rs = left)"
proof (induction left arbitrary: tr)
  case (Suc left)
  let ?r = "os tr (OsConnect fd port)" and ?tr1 = "tr @ [(OsConnect fd port, os tr (OsConnect fd port))]"
  show ?case
  proof (cases "?r = 0")
    case True
    with Suc.prems show ?thesis by (intro exI [of _ "[]"]) (auto simp: os_do_def)
  next
    case False
    let ?z = "os ?tr1 OsSleep"
    have "connect_loop os fd port left (?tr1 @ [(OsSleep, ?z)]) = (ok, tr')"
      using Suc.prems False by (simp add: os_do_def)
    from Suc.IH [OF this] obtain rs where
      "tr' = (?tr1 @ [(OsSleep, ?z)]) @ concat (map (\<lambda>(r, z). [(OsConnect fd port, r), (OsSleep, z)]) rs) @
         (if ok then [(OsConnect fd port, 0)] else [])"
      "\<forall>(r, z) \<in> set rs. r \<noteq> 0" "if ok then length rs < left else length rs = left" by blast
    with False show ?thesis
      by (intro exI [of _ "(?r, ?z) # rs"]) (auto split: if_splits)
  qed
qed auto

section \<open>Descriptors that are open\<close>

fun opened :: "os_call \<times> int \<Rightarrow> int set" where
  "opened (OsSocket, r) = {r} - {-1}"
| "opened (OsAccept fd, r) = {r} - {-1}"
| "opened _ = {}"

fun closed_by :: "os_call \<times> int \<Rightarrow> int set" where
  "closed_by (OsClose fd, r) = {fd}"
| "closed_by _ = {}"

definition open_fds :: "os_trace \<Rightarrow> int set" where
  "open_fds tr = holding opened closed_by tr"

text \<open>The system never hands out a descriptor that is open.\<close>

definition fresh_descriptors :: "os \<Rightarrow> bool" where
  "fresh_descriptors os \<longleftrightarrow>
     (\<forall>tr. os tr OsSocket \<notin> open_fds tr - {-1}) \<and> (\<forall>tr fd. os tr (OsAccept fd) \<notin> open_fds tr - {-1})"

lemma open_fds_snoc: "open_fds (tr @ [c]) = (open_fds tr \<union> opened c) - closed_by c"
  by (simp add: open_fds_def)

lemma open_fds_invalid: "-1 \<notin> open_fds tr"
proof (induction tr rule: rev_induct)
  case (snoc c tr)
  have "-1 \<notin> opened c" by (cases c rule: opened.cases) auto
  with snoc show ?case by (simp add: open_fds_snoc)
qed (simp add: open_fds_def)

lemma open_after [simp]:
  "open_fds (snd (os_do os OsSocket tr)) = open_fds tr \<union> ({os tr OsSocket} - {-1})"
  "open_fds (snd (os_do os (OsAccept fd) tr)) = open_fds tr \<union> ({os tr (OsAccept fd)} - {-1})"
  "open_fds (snd (os_do os (OsClose fd) tr)) = open_fds tr - {fd}"
  "open_fds (snd (os_do os (OsSetReuse fd) tr)) = open_fds tr" "open_fds (snd (os_do os (OsBind fd port) tr)) = open_fds tr"
  "open_fds (snd (os_do os (OsListen fd) tr)) = open_fds tr" "open_fds (snd (os_do os (OsConnect fd port) tr)) = open_fds tr"
  "open_fds (snd (os_do os OsSleep tr)) = open_fds tr"
  by (simp_all add: os_do_def open_fds_snoc)

lemma socket_close_fds:
  "open_fds (snd (socket_close os fd tr)) = open_fds tr - {fd}" "fst (socket_close os fd tr) = kInvalidSocket"
  using open_fds_invalid [of tr] by (auto simp: socket_close_def kInvalidSocket_def)

lemma bind_and_listen_fds:
  assumes "fresh_descriptors os" and "bind_and_listen os port tr = (ok, fd, tr')"
  shows "open_fds tr' = open_fds tr \<union> ({fd} - {-1})" and "fd \<notin> open_fds tr"
proof -
  have "os tr OsSocket \<notin> open_fds tr" using assms(1) open_fds_invalid [of tr] by (auto simp: fresh_descriptors_def)
  then show "open_fds tr' = open_fds tr \<union> ({fd} - {-1})" "fd \<notin> open_fds tr"
    using assms(2) by (auto simp: bind_and_listen_def os_do_def open_fds_def holding_append kInvalidSocket_def split: if_splits)
qed

section \<open>A system with fresh descriptors\<close>

text \<open>Every new descriptor is above everything the system has answered so far.\<close>

definition largest_answer :: "os_trace \<Rightarrow> int" where
  "largest_answer tr = fold (\<lambda>(c, r) m. max r m) tr 0"

definition counting_os :: os where
  "counting_os tr c = (case c of OsSocket \<Rightarrow> largest_answer tr + 1 | OsAccept fd \<Rightarrow> largest_answer tr + 1 | _ \<Rightarrow> 0)"

lemma open_fds_largest: "fd \<in> open_fds tr \<Longrightarrow> fd \<le> largest_answer tr"
proof (induction tr rule: rev_induct)
  case (snoc c tr)
  have "fd \<in> opened c \<Longrightarrow> fd \<le> snd c" by (cases c rule: opened.cases) auto
  with snoc show ?case
    by (cases c) (auto simp: open_fds_snoc largest_answer_def)
qed (simp add: open_fds_def)

lemma counting_os_fresh: "fresh_descriptors counting_os"
  using open_fds_largest by (force simp: fresh_descriptors_def counting_os_def)

lemma connect_to_spec:
  assumes "connect_to os port tr = (ok, fd, tr')" and "fd \<noteq> kInvalidSocket"
  shows "\<exists>rs. tr' = tr @ (OsSocket, fd) # concat (map (\<lambda>(r, z). [(OsConnect fd port, r), (OsSleep, z)]) rs) @
      (if ok then [(OsConnect fd port, 0)] else []) \<and> (\<forall>(r, z) \<in> set rs. r \<noteq> 0) \<and>
    (if ok then length rs < 100 else length rs = 100)"
proof -
  have "fd = os tr OsSocket" "connect_loop os fd port 100 (tr @ [(OsSocket, fd)]) = (ok, tr')"
    using assms by (auto simp: connect_to_def os_do_def split: prod.splits if_splits)
  from connect_loop_spec [OF this(2)] show ?thesis by auto
qed

end
