(* ===== verification/EL_Programs.thy ===== *)
theory EL_Programs
  imports EL_Service EL_Socket
begin

text \<open>
  The main programs of the coordinator and the worker as a whole: command line, ledger, sockets and
  exit code together. The operating system answers the socket calls, the traffic on each connection
  is given, and the descriptors of the RAII class are closed where its objects go out of scope.
\<close>

section \<open>The coordinator\<close>

text \<open>
  The loop \<open>while (running)\<close> with one socket per connection. The first component tells whether the
  loop has ended; otherwise the coordinator waits in \<open>accept\<close> for a connection after the given ones.
\<close>

fun serve_accepted ::
    "os \<Rightarrow> AccountId hash_order \<Rightarrow> string \<Rightarrow> Socket \<Rightarrow> arrival list list \<Rightarrow> Coordinator \<Rightarrow> os_trace \<Rightarrow>
     bool \<times> (Status \<times> bytes) list list \<times> Coordinator \<times> os_trace" where
  "serve_accepted os ho path server [] co tr = (\<not> co_running co, [], co, tr)"
| "serve_accepted os ho path server (fs # conns) co tr =
     (if \<not> co_running co then (True, [], co, tr)
      else case socket_accept os server kInvalidSocket tr of
        (False, conn, tr1) \<Rightarrow> (True, [], co, snd (socket_close os conn tr1))
      | (True, conn, tr1) \<Rightarrow>
          (case serve_frames ho path fs (co, Connection_new) of (replies, co1) \<Rightarrow>
             (case serve_accepted os ho path server conns co1 (snd (socket_close os conn tr1)) of
                (ended, rest, co2, tr2) \<Rightarrow> (ended, replies # rest, co2, tr2))))"

text \<open>The exit code is \<open>None\<close> while the coordinator still waits.\<close>

definition coordinator_program ::
    "os \<Rightarrow> AccountId hash_order \<Rightarrow> (string \<Rightarrow> int) \<Rightarrow> (string \<Rightarrow> u64) \<Rightarrow> string list \<Rightarrow> arrival list list \<Rightarrow> save_env \<Rightarrow>
     filesystem \<Rightarrow> os_trace \<Rightarrow> nat option \<times> (Status \<times> bytes) list list \<times> Coordinator \<times> os_trace" where
  "coordinator_program os ho atoi stoull args conns last_env fs tr =
     (let c = coordinator_args atoi stoull args CoordinatorArgs_default;
          co = coordinator_start ho (ca_load c) (ca_path c) (ca_epoch c) fs
      in case bind_and_listen os (ca_port c) tr of
           (False, server, tr1) \<Rightarrow> (Some 1, [], co, snd (socket_close os server tr1))
         | (True, server, tr1) \<Rightarrow>
             (case serve_accepted os ho (ca_path c) server conns co tr1 of
                (False, replies, co1, tr2) \<Rightarrow> (None, replies, co1, tr2)
              | (True, replies, co1, tr2) \<Rightarrow>
                  (Some 0, replies, save_if_path last_env (ca_path c) co1, snd (socket_close os server tr2))))"

lemma serve_accepted_fds:
  assumes "fresh_descriptors os"
  shows "serve_accepted os ho path server conns co tr = (ended, replies, co', tr') \<Longrightarrow> open_fds tr' = open_fds tr"
proof (induction conns arbitrary: co tr replies)
  case (Cons fs conns)
  let ?c = "os tr (OsAccept server)" and ?tr1 = "snd (os_do os (OsAccept server) tr)"
  have fresh: "?c \<notin> open_fds tr" using assms open_fds_invalid [of tr] by (auto simp: fresh_descriptors_def)
  show ?case
  proof (cases "co_running co \<and> ?c \<noteq> -1")
    case True
    then have "open_fds (snd (socket_close os ?c ?tr1)) = open_fds tr"
      using fresh by (simp add: socket_close_fds)
    with True Cons show ?thesis
      by (fastforce simp: socket_accept_def os_do_def split: prod.splits)
  next
    case False
    with Cons.prems open_after(2) [of os server tr] show ?thesis
      by (auto simp: socket_accept_def os_do_def socket_close_def kInvalidSocket_def split: if_splits)
  qed
qed simp

text \<open>The coordinator serves the connections it accepts, in the order in which they come.\<close>

lemma serve_accepted_serves:
  "serve_accepted os ho path server conns co tr = (ended, replies, co', tr') \<Longrightarrow>
   serve_connections ho path (take (length replies) conns) co = (replies, co')"
proof (induction conns arbitrary: co tr replies)
  case (Cons fs conns)
  show ?case
  proof (cases "co_running co \<and> os tr (OsAccept server) \<noteq> -1")
    case True
    then obtain r1 co1 rest tr1 where
      "serve_frames ho path fs (co, Connection_new) = (r1, co1)" "replies = r1 # rest"
      "serve_accepted os ho path server conns co1 tr1 = (ended, rest, co', tr')"
      using Cons.prems by (auto simp: socket_accept_def os_do_def split: prod.splits)
    with Cons.IH [of co1 tr1 rest] True show ?thesis by simp
  next
    case False
    with Cons.prems show ?thesis
      by (auto simp: socket_accept_def os_do_def split: if_splits)
  qed
qed simp

lemma coordinator_program_main:
  assumes "coordinator_program os ho atoi stoull args conns last_env fs tr = (Some 0, replies, co', tr')"
    and "c = coordinator_args atoi stoull args CoordinatorArgs_default"
  shows "coordinator_main ho (ca_load c) (ca_path c) (ca_epoch c) (take (length replies) conns) last_env fs = (replies, co')"
proof -
  obtain server tr1 ended co1 tr2 where
    "serve_accepted os ho (ca_path c) server conns (coordinator_start ho (ca_load c) (ca_path c) (ca_epoch c) fs) tr1 =
       (ended, replies, co1, tr2)" and co': "co' = save_if_path last_env (ca_path c) co1"
    using assms by (auto simp: coordinator_program_def Let_def split: prod.splits bool.splits)
  from serve_accepted_serves [OF this(1)] co' show ?thesis
    by (simp add: coordinator_main_def)
qed

lemma coordinator_program_fds:
  assumes "fresh_descriptors os"
    and "coordinator_program os ho atoi stoull args conns last_env fs tr = (Some code, replies, co', tr')"
  shows "open_fds tr' = open_fds tr"
proof -
  let ?c = "coordinator_args atoi stoull args CoordinatorArgs_default"
  obtain ok server tr1 where b: "bind_and_listen os (ca_port ?c) tr = (ok, server, tr1)" by (metis prod_cases3)
  note bind = bind_and_listen_fds [OF assms(1) b]
  have closed: "open_fds (snd (socket_close os server tr2)) = open_fds tr" if "open_fds tr2 = open_fds tr1" for tr2
    using that bind by (auto simp: socket_close_fds)
  show ?thesis
    using assms(2) b closed serve_accepted_fds [OF assms(1)]
    by (fastforce simp: coordinator_program_def Let_def split: bool.splits prod.splits)
qed

section \<open>The worker\<close>

text \<open>\<open>first\<close>, \<open>answers\<close> and \<open>cs\<close> are what the network does with the bytes, as in \<open>worker_main\<close>.\<close>

definition worker_program ::
    "os \<Rightarrow> (string \<Rightarrow> int) \<Rightarrow> (string \<Rightarrow> u64) \<Rightarrow> string list \<Rightarrow> nat list \<Rightarrow> nat list list \<Rightarrow> bytes list \<Rightarrow> os_trace \<Rightarrow>
     nat \<times> bool list \<times> bytes \<times> os_trace" where
  "worker_program os atoi stoull args first answers cs tr =
     (let c = worker_args atoi stoull args WorkerArgs_default
      in case connect_to os (wa_port c) tr of
           (False, conn, tr1) \<Rightarrow> (1, [], [], snd (socket_close os conn tr1))
         | (True, conn, tr1) \<Rightarrow>
             (case worker_main first answers (wa_mode c) (wa_boot c) cs of (code, oks, out) \<Rightarrow>
                (code, oks, out, snd (socket_close os conn tr1))))"

lemma connect_loop_fds: "open_fds (snd (connect_loop os fd port left tr)) = open_fds tr"
  by (induction left arbitrary: tr) (simp_all add: os_do_def open_fds_def holding_append)

lemma connect_to_fds:
  assumes "fresh_descriptors os" and "connect_to os port tr = (ok, fd, tr')"
  shows "open_fds tr' = open_fds tr \<union> ({fd} - {-1})" and "fd \<notin> open_fds tr"
proof -
  have fresh: "os tr OsSocket \<notin> open_fds tr" using assms(1) open_fds_invalid [of tr] by (auto simp: fresh_descriptors_def)
  have fd: "fd = os tr OsSocket"
    using assms(2) by (auto simp: connect_to_def os_do_def split: if_splits prod.splits)
  have "tr' = snd (os_do os OsSocket tr) \<or> tr' = snd (connect_loop os fd port 100 (snd (os_do os OsSocket tr)))"
    using assms(2) by (auto simp: connect_to_def os_do_def split: if_splits prod.splits)
  then show "open_fds tr' = open_fds tr \<union> ({fd} - {-1})" "fd \<notin> open_fds tr"
    using fresh fd by (auto simp: connect_loop_fds)
qed

lemma worker_program_fds:
  assumes "fresh_descriptors os"
  shows "open_fds (snd (snd (snd (worker_program os atoi stoull args first answers cs tr)))) = open_fds tr"
proof -
  let ?c = "worker_args atoi stoull args WorkerArgs_default"
  obtain ok fd tr1 where con: "connect_to os (wa_port ?c) tr = (ok, fd, tr1)" by (metis prod_cases3)
  then have "snd (snd (snd (worker_program os atoi stoull args first answers cs tr))) = snd (socket_close os fd tr1)"
    by (auto simp: worker_program_def Let_def split: bool.splits prod.splits)
  with connect_to_fds [OF assms con] show ?thesis by (auto simp: socket_close_fds)
qed

section \<open>Version strings\<close>

definition kVersionMajor :: u32 where "kVersionMajor = 1"
definition kVersionMinor :: u32 where "kVersionMinor = 0"
definition kVersionPatch :: u32 where "kVersionPatch = 1"

definition kVersionString :: string where "kVersionString = ''1.0.1''"

definition version_string :: string where "version_string = kVersionString"

text \<open>The version string is the three numbers.\<close>

lemma version_string_numbers:
  "version_string = decimal (unat kVersionMajor) @ ''.'' @ decimal (unat kVersionMinor) @ ''.'' @ decimal (unat kVersionPatch)"
  by code_simp

end
