(* ===== verification/EL_Acceptance.thy ===== *)
theory EL_Acceptance
  imports EL_Replay EL_Gates EL_Books
begin

text \<open>
  When an ordinary entry is accepted, in terms of the history alone: the counters, the index, the
  attempt table and the four completion sets are caches of it. From that, a condition on a whole
  sequence of entries under which a fresh ledger accepts all of them.
\<close>

section \<open>The attempt table is a cache of the history\<close>

text \<open>What the state of an attempt records comes from an entry of that attempt.\<close>

lemma attempt_state_sources:
  "(st_outcome (attempt_state_of es) \<noteq> AttemptOutcome_kPending \<or> id_valid (st_generation (attempt_state_of es)) \<longrightarrow>
     (\<exists>x \<in> set es. has_outcome x \<and> st_generation (attempt_state_of es) = at_generation (e_attempt x))) \<and>
   (id_valid (st_last_publication (attempt_state_of es)) \<longrightarrow>
     (\<exists>x \<in> set es. st_last_publication (attempt_state_of es) = f_publication (e_fences x)))"
proof (induction es rule: rev_induct)
  case Nil
  then show ?case by (simp add: attempt_state_of_def AttemptState_default_def id_valid_def id_invalid_def)
next
  case (snoc e es)
  have "attempt_state_of (es @ [e]) = update_attempt e (attempt_state_of es)"
    by (simp add: attempt_state_of_def)
  with snoc.IH show ?case
    by (auto simp: update_attempt_def Let_def)
qed

lemma attempt_authority_iff:
  assumes "sorted_wrt may_follow es"
  shows "Status_ok (check_attempt_authority (attempt_state_of es) e) \<longleftrightarrow> (\<forall>x \<in> set es. may_follow x e)"
proof
  assume "Status_ok (check_attempt_authority (attempt_state_of es) e)"
  then show "\<forall>x \<in> set es. may_follow x e"
    using authority_follows summarizes_state [OF assms] by blast
next
  assume follow: "\<forall>x \<in> set es. may_follow x e"
  let ?st = "attempt_state_of es"
  note src = attempt_state_sources [of es]
  have "\<not> (id_valid (st_generation ?st) \<and> id_valid (at_generation (e_attempt e)) \<and> st_generation ?st \<noteq> at_generation (e_attempt e))"
    using src follow by (auto simp: may_follow_def)
  moreover have "\<not> (st_outcome ?st \<noteq> AttemptOutcome_kPending \<and> (has_outcome e \<or> is_completion_signal e))"
    using src follow by (auto simp: may_follow_def)
  moreover have "\<not> (id_valid (f_publication (e_fences e)) \<and> id_valid (st_last_publication ?st) \<and>
      f_publication (e_fences e) \<le> st_last_publication ?st)"
    using src follow by (fastforce simp: may_follow_def not_le)
  ultimately show "Status_ok (check_attempt_authority ?st e)"
    by (auto simp: check_attempt_authority_def Status_ok_def Status_success_def)
qed

section \<open>Acceptance in terms of the history\<close>

definition not_done :: "(LedgerEntry \<Rightarrow> bool) \<Rightarrow> (LedgerEntry \<Rightarrow> 'tag Identity) \<Rightarrow> LedgerEntry list \<Rightarrow> LedgerEntry \<Rightarrow> bool" where
  "not_done completes owner h e \<longleftrightarrow> (completes e \<longrightarrow> (\<forall>x \<in> set h. completes x \<longrightarrow> owner x \<noteq> owner e))"

definition history_admits :: "LedgerEntry list \<Rightarrow> LedgerEntry \<Rightarrow> bool" where
  "history_admits h e \<longleftrightarrow>
     (\<forall>x \<in> set h. e_id x \<noteq> e_id e) \<and>
     (has_attempt e \<longrightarrow> (\<forall>x \<in> set (attempt_entries (at_id (e_attempt e)) h). may_follow x e)) \<and>
     not_done completes_transfer (\<lambda>x. o_transfer (e_owners x)) h e \<and>
     not_done releases_reservation (\<lambda>x. o_reservation (e_owners x)) h e \<and>
     not_done releases_allocation (\<lambda>x. o_allocation (e_owners x)) h e \<and>
     not_done ends_recovery (\<lambda>x. o_recovery (e_owners x)) h e \<and>
     (\<forall>k f d. book_totals h k f d + int (attributed e k f d) < 18446744073709551616)"

definition entry_admissible :: "EfficiencyLedger \<Rightarrow> LedgerEntry \<Rightarrow> bool" where
  "entry_admissible l e \<longleftrightarrow>
     \<not> l_shutting_down l \<and> LedgerEntry_validate e \<and> Status_ok (check_classification_consistency e) \<and>
     fences_current l e \<and>
     (l_replaying l \<or> \<not> id_valid (f_worker_boot (e_fences e)) \<or> f_worker_boot (e_fences e) \<in> l_live_workers l)"

lemma lifecycle_gate_None_iff:
  "lifecycle_gate e l = None \<longleftrightarrow>
     (completes_transfer e \<longrightarrow> o_transfer (e_owners e) \<notin> l_transfer_completed l) \<and>
     (releases_reservation e \<longrightarrow> o_reservation (e_owners e) \<notin> l_reservation_released l) \<and>
     (releases_allocation e \<longrightarrow> o_allocation (e_owners e) \<notin> l_allocation_released l) \<and>
     (ends_recovery e \<longrightarrow> o_recovery (e_owners e) \<notin> l_recovery_completed l)"
  by (auto simp: lifecycle_gate_def completion_defs)

lemma recorded_once_iff:
  "recorded_once completes owner recorded l \<Longrightarrow> completes e \<Longrightarrow>
   owner e \<notin> recorded l \<longleftrightarrow> (\<forall>x \<in> set (l_history l). completes x \<longrightarrow> owner x \<noteq> owner e)"
  unfolding recorded_once_def by (elim conjE, drule sym [of "set _"]) (auto simp: image_iff)

text \<open>All the invariants that make the caches exact, and that any call keeps.\<close>

definition cached_ledger :: "EfficiencyLedger \<Rightarrow> bool" where
  "cached_ledger l \<longleftrightarrow> exact_ledger l \<and> attempts_ok l \<and>
     recorded_once completes_transfer (\<lambda>x. o_transfer (e_owners x)) l_transfer_completed l \<and>
     recorded_once releases_reservation (\<lambda>x. o_reservation (e_owners x)) l_reservation_released l \<and>
     recorded_once releases_allocation (\<lambda>x. o_allocation (e_owners x)) l_allocation_released l \<and>
     recorded_once ends_recovery (\<lambda>x. o_recovery (e_owners x)) l_recovery_completed l"

interpretation cached: ledger_invariant "{ErrorCode_kOverflow, ErrorCode_kReconciliationFailure}" cached_ledger
proof
  show "cached_ledger (clear_books l)" for l
    using exact.cleared attempts.cleared transfer.once.cleared reservation.once.cleared
      allocation.once.cleared recovery.once.cleared
    unfolding cached_ledger_def by blast
  show "cached_ledger l'" if "cached_ledger l" "same_books l l'" for l l'
    using that exact.books_only attempts.books_only transfer.once.books_only reservation.once.books_only
      allocation.once.books_only recovery.once.books_only
    unfolding cached_ledger_def by blast
  show "cached_ledger l'"
    if "cached_ledger l" "append_locked ho e l = (st, l')"
      "status_code st \<notin> {ErrorCode_kOverflow, ErrorCode_kReconciliationFailure}" for l ho e st l'
    using that append_exact [of l ho e st l'] append_attempts [of l ho e st l'] transfer.append_once [of l ho e st l']
      reservation.append_once [of l ho e st l'] allocation.append_once [of l ho e st l'] recovery.append_once [of l ho e st l']
    by (simp add: cached_ledger_def)
qed simp

lemma append_iff_admits:
  assumes inv: "cached_ledger l" and ord: "e_event e \<noteq> EventType_kReclassify"
  shows "Status_ok (fst (append_locked ho e l)) \<longleftrightarrow> entry_admissible l e \<and> history_admits (l_history l) e"
proof -
  have wf: "wf_ledger l" and cells: "\<And>k f d. int (cell_of (l_accounts l) k f d) = book_totals (l_history l) k f d"
    using inv by (simp_all add: cached_ledger_def exact_ledger_def)
  have ids: "l_index l (e_id e) = None \<longleftrightarrow> (\<forall>x \<in> set (l_history l). e_id x \<noteq> e_id e)"
    using wf unfolding wf_ledger_def index_ok_def by (metis in_set_conv_nth not_Some_eq)
  have gate: "lifecycle_gate e l = None \<longleftrightarrow>
      not_done completes_transfer (\<lambda>x. o_transfer (e_owners x)) (l_history l) e \<and>
      not_done releases_reservation (\<lambda>x. o_reservation (e_owners x)) (l_history l) e \<and>
      not_done releases_allocation (\<lambda>x. o_allocation (e_owners x)) (l_history l) e \<and>
      not_done ends_recovery (\<lambda>x. o_recovery (e_owners x)) (l_history l) e"
    using inv recorded_once_iff [of completes_transfer "\<lambda>x. o_transfer (e_owners x)" l_transfer_completed l e]
      recorded_once_iff [of releases_reservation "\<lambda>x. o_reservation (e_owners x)" l_reservation_released l e]
      recorded_once_iff [of releases_allocation "\<lambda>x. o_allocation (e_owners x)" l_allocation_released l e]
      recorded_once_iff [of ends_recovery "\<lambda>x. o_recovery (e_owners x)" l_recovery_completed l e]
    unfolding lifecycle_gate_None_iff not_done_def by (simp add: cached_ledger_def)
  have attempt: "(case l_attempts l a of None \<Rightarrow> True | Some st \<Rightarrow> Status_ok (check_attempt_authority st e)) \<longleftrightarrow>
      (\<forall>x \<in> set (attempt_entries a (l_history l)). may_follow x e)" for a
    using inv attempt_authority_iff [of "attempt_entries a (l_history l)" e]
    by (auto simp: cached_ledger_def attempts_ok_def)
  have fits: "entry_fits (l_accounts l) e \<longleftrightarrow>
      (\<forall>k f d. book_totals (l_history l) k f d + int (attributed e k f d) < 18446744073709551616)"
    unfolding entry_fits_def cells [symmetric] of_nat_add [symmetric] of_nat_less_numeral_iff ..
  have valid: "\<not> ar_invalid (compute_attribution e)"
    by (simp add: compute_attribution_def Let_def split: prod.splits)
  show ?thesis
    unfolding append_ordinary_iff [OF wf ord] check_authority_iff entry_admissible_def history_admits_def
      ids gate attempt fits
    by (simp only: valid simp_thms conj_assoc) (intro iffI; elim conjE; intro conjI; assumption)
qed

section \<open>Sequences of entries that must be accepted\<close>

text \<open>The most that an entry can add to any counter of a dimension.\<close>

definition demand :: "LedgerEntry \<Rightarrow> ResourceDimension \<Rightarrow> nat" where
  "demand e d = unat (e_usage e d) + unat (usage_or_zero (e_avoided_work e) d) + unat (usage_or_zero (e_stranded_capacity e) d)"

lemma attributed_demand: "attributed e k f d \<le> demand e d"
proof -
  have "attributed e k f d \<le> attributed e k FPhysical d" if "f \<in> {FUseful, FOverhead, FWaste, FUnknown}"
    using that by (auto simp: attributed_def share_sum_def share_value_def intro!: sum_list_mono)
  with attributed_le [of e k d] show ?thesis
    by (cases f) (auto simp: demand_def)
qed

lemma book_totals_demand:
  "list_all (\<lambda>e. e_event e \<noteq> EventType_kReclassify) h \<Longrightarrow> book_totals h k f d \<le> int (\<Sum>e \<leftarrow> h. demand e d)"
proof (induction h rule: rev_induct)
  case (snoc e h)
  then show ?case
    using attributed_demand [of e k f d] by (simp add: contribution_def)
qed simp

definition run_ok :: "LedgerEntry list \<Rightarrow> bool" where
  "run_ok es \<longleftrightarrow>
     list_all (\<lambda>e. e_event e \<noteq> EventType_kReclassify) es \<and> distinct (map e_id es) \<and>
     sorted_wrt (\<lambda>x y. has_attempt x \<and> has_attempt y \<and> at_id (e_attempt x) = at_id (e_attempt y) \<longrightarrow> may_follow x y) es \<and>
     distinct (map (\<lambda>x. o_transfer (e_owners x)) (filter completes_transfer es)) \<and>
     distinct (map (\<lambda>x. o_reservation (e_owners x)) (filter releases_reservation es)) \<and>
     distinct (map (\<lambda>x. o_allocation (e_owners x)) (filter releases_allocation es)) \<and>
     distinct (map (\<lambda>x. o_recovery (e_owners x)) (filter ends_recovery es)) \<and>
     (\<forall>d. (\<Sum>e \<leftarrow> es. demand e d) < 18446744073709551616)"

lemma not_done_snoc: "distinct (map owner (filter completes (es @ [e]))) \<Longrightarrow> not_done completes owner es e"
  by (force simp: not_done_def)

lemma run_ok_snoc:
  assumes "run_ok (es @ [e])"
  shows "run_ok es" and "e_event e \<noteq> EventType_kReclassify" and "history_admits es e"
proof -
  have "(\<Sum>x \<leftarrow> es. demand x d) < 18446744073709551616" for d
  proof -
    have "(\<Sum>x \<leftarrow> es @ [e]. demand x d) < 18446744073709551616"
      using assms unfolding run_ok_def by blast
    then show ?thesis by simp
  qed
  then show "run_ok es"
    using assms by (simp add: run_ok_def sorted_wrt_append split: if_splits)
  show "e_event e \<noteq> EventType_kReclassify"
    using assms by (simp add: run_ok_def)
  have fit: "book_totals es k f d + int (attributed e k f d) < 18446744073709551616" for k f d
  proof -
    have "list_all (\<lambda>e. e_event e \<noteq> EventType_kReclassify) es"
      using assms by (simp add: run_ok_def)
    then have "book_totals es k f d + int (attributed e k f d) \<le> int (\<Sum>x \<leftarrow> es @ [e]. demand x d)"
      using book_totals_demand [of es k f d] attributed_demand [of e k f d] by simp
    also have "\<dots> < 18446744073709551616"
      using assms unfolding run_ok_def of_nat_less_numeral_iff by blast
    finally show ?thesis .
  qed
  have "may_follow x e" if "has_attempt e" "x \<in> set (attempt_entries (at_id (e_attempt e)) es)" for x
    using assms that by (auto simp: run_ok_def sorted_wrt_append attempt_entries_def)
  moreover have "e_id x \<noteq> e_id e" if "x \<in> set es" for x
  proof -
    have "distinct (map e_id (es @ [e]))" using assms unfolding run_ok_def by blast
    then have "e_id e \<notin> e_id ` set es" by simp
    then show ?thesis using that by (metis imageI)
  qed
  moreover have "distinct (map (\<lambda>x. o_transfer (e_owners x)) (filter completes_transfer (es @ [e])))"
    "distinct (map (\<lambda>x. o_reservation (e_owners x)) (filter releases_reservation (es @ [e])))"
    "distinct (map (\<lambda>x. o_allocation (e_owners x)) (filter releases_allocation (es @ [e])))"
    "distinct (map (\<lambda>x. o_recovery (e_owners x)) (filter ends_recovery (es @ [e])))"
    using assms unfolding run_ok_def by blast+
  note this [THEN not_done_snoc]
  ultimately show "history_admits es e"
    unfolding history_admits_def using fit by blast
qed

lemma entry_admissible_authority: "same_authority l l' \<Longrightarrow> entry_admissible l' e = entry_admissible l e"
  using fences_current_authority [of l l' e] by (simp add: entry_admissible_def same_authority_def)

lemma append_ok_success:
  assumes "append_locked ho e l = (st, l')" and "Status_ok st"
  shows "st = Status_success"
  using assms(1) by (cases rule: append_cases) (use assms(2) in \<open>simp_all add: Status_ok_def\<close>)

lemma append_without_authority:
  "\<not> Status_ok (check_authority l e) \<Longrightarrow> \<exists>st. append_locked ho e l = (st, l) \<and> \<not> Status_ok st"
  by (auto simp: append_locked_def Status_ok_def)

text \<open>A ledger with an empty history accepts such a sequence, whatever the traversal order.\<close>

lemma run_accepted:
  assumes "cached_ledger l" and "l_history l = []" and "run_ok es" and "\<forall>e \<in> set es. entry_admissible l e"
  shows "\<exists>l'. append_all ho es l = (Status_success, l') \<and> cached_ledger l' \<and> l_history l' = es \<and> same_authority l l'"
  using assms(3,4)
proof (induction es rule: rev_induct)
  case Nil
  with assms(1,2) show ?case by simp
next
  case (snoc e es)
  note ok = run_ok_snoc [OF snoc.prems(1)]
  obtain l1 where run: "append_all ho es l = (Status_success, l1)" and inv: "cached_ledger l1"
    and hist: "l_history l1 = es" and au: "same_authority l l1"
    using snoc.IH [OF ok(1)] snoc.prems(2) by auto
  obtain st l2 where step: "append_locked ho e l1 = (st, l2)" by fastforce
  have "entry_admissible l1 e"
    using snoc.prems(2) entry_admissible_authority [OF au] by simp
  then have good: "Status_ok st"
    using append_iff_admits [OF inv ok(2), of ho] ok(3) hist step by simp
  have wf: "wf_ledger l1" using inv by (simp add: cached_ledger_def exact_ledger_def)
  have st: "st = Status_success" using step good by (rule append_ok_success)
  have "append_all ho (es @ [e]) l = (Status_success, l2)"
    by (simp add: append_all_append run step st Status_ok_def Status_success_def)
  moreover have "cached_ledger l2"
    by (rule cached.append_keeps [OF inv step]) (simp add: st Status_success_def)
  moreover have "l_history l2 = es @ [e]"
    using append_contribution(2) [OF wf step good] hist by simp
  moreover have "same_authority l l2"
    using au append_same_authority [OF step] by (rule same_authority_trans)
  ultimately show ?case by blast
qed

lemma cached_new: "cached_ledger (EfficiencyLedger_new lid)"
  by (rule cached.reachable_keeps) (rule reachable.start)

end
