(* ===== verification/EL_Cli.thy ===== *)
theory EL_Cli
  imports EL_Persistence
begin

text \<open>
  The inspection tool \<^verbatim>\<open>el_cli.cpp\<close>: its commands as functions of the arguments and the file, with
  the values it prints instead of the formatted lines.
\<close>

definition class_value :: "EfficiencyClass \<Rightarrow> AccountSummary \<Rightarrow> u64" where
  "class_value cls s =
     (let d = kAcceleratorNanoseconds
      in if cls = EfficiencyClass_kUseful then sm_useful s d
         else if cls = EfficiencyClass_kNecessaryOverhead then sm_overhead s d
         else if cls = EfficiencyClass_kAvoidableWaste then sm_waste s d
         else if cls = EfficiencyClass_kAvoidedWork then sm_avoided s d
         else if cls = EfficiencyClass_kStrandedCapacity then sm_stranded s d
         else sm_unknown s d)"

definition print_class :: "AccountSummary list \<Rightarrow> EfficiencyClass \<Rightarrow> (u64 \<times> string \<times> u64) list" where
  "print_class sums cls =
     map (\<lambda>s. (id_value (sm_account s), to_string_EfficiencyClass cls, class_value cls s))
       (filter (\<lambda>s. class_value cls s \<noteq> 0) sums)"

definition print_summary :: "AccountSummary list \<Rightarrow> (u64 \<times> u64 list) list" where
  "print_summary sums =
     map (\<lambda>s. let d = kAcceleratorNanoseconds
              in (id_value (sm_account s),
                  [sm_physical s d, sm_useful s d, sm_overhead s d, sm_waste s d, sm_unknown s d, sm_avoided s d, sm_stranded s d]))
       sums"

definition account_lines :: "AccountSummary \<Rightarrow> (string \<times> u64 list) list" where
  "account_lines s =
     map (\<lambda>d. (to_string_ResourceDimension d,
               [sm_physical s d, sm_useful s d, sm_overhead s d, sm_waste s d, sm_unknown s d, sm_avoided s d, sm_stranded s d]))
       (filter (\<lambda>d. sm_physical s d \<noteq> 0 \<or> sm_useful s d \<noteq> 0 \<or> sm_overhead s d \<noteq> 0 \<or> sm_waste s d \<noteq> 0 \<or>
                    sm_unknown s d \<noteq> 0 \<or> sm_avoided s d \<noteq> 0 \<or> sm_stranded s d \<noteq> 0) dims)"

datatype report =
    Usage
  | LoadFailed string
  | SummaryTable "(u64 \<times> u64 list) list"
  | DigestLine string nat
  | ReconcileReport bool "string list"
  | ValidateState bool
  | ReplayReport string bool
  | AccountLines "(string \<times> u64 list) list"
  | ClassLines "(u64 \<times> string \<times> u64) list"
  | MissingAccount
  | UnknownCommand string

text \<open>\<open>std::stoull\<close> is the argument \<open>stoull\<close>; the exit code and what is printed are the result.\<close>

definition el_main ::
    "AccountId hash_order \<Rightarrow> (string \<Rightarrow> u64) \<Rightarrow> string list \<Rightarrow> filesystem \<Rightarrow> nat \<times> report" where
  "el_main ho stoull args fs =
     (case args of
        cmd # path # more_args \<Rightarrow>
          (case load ho path fs (EfficiencyLedger_new kDefaultLedgerId) of (st, led) \<Rightarrow>
             if \<not> Status_ok st then (1, LoadFailed (status_message st))
             else let sums = account_summaries ho led in
               if cmd = ''summary'' then (0, SummaryTable (print_summary sums))
               else if cmd = ''digest'' then (0, DigestLine (hex (digest led)) (entry_count led))
               else if cmd = ''reconcile''
               then (0, ReconcileReport (rc_closed (reconcile ho led)) (rc_messages (reconcile ho led)))
               else if cmd = ''validate-state'' then (0, ValidateState (rc_closed (reconcile ho led)))
               else if cmd = ''replay''
               then (case load_history ho (l_history led) (EfficiencyLedger_new kDefaultLedgerId) of (st2, led2) \<Rightarrow>
                       (0, ReplayReport (if Status_ok st2 then ''OK'' else status_message st2) (digest led2 = digest led)))
               else if cmd = ''show-account''
               then (case more_args of
                       [] \<Rightarrow> (2, MissingAccount)
                     | acc # _ \<Rightarrow> (0, AccountLines (account_lines (account_summary (Identity (stoull acc)) led))))
               else if cmd = ''show-waste'' then (0, ClassLines (print_class sums EfficiencyClass_kAvoidableWaste))
               else if cmd = ''show-useful'' then (0, ClassLines (print_class sums EfficiencyClass_kUseful))
               else if cmd = ''show-overhead'' then (0, ClassLines (print_class sums EfficiencyClass_kNecessaryOverhead))
               else if cmd = ''show-avoided'' then (0, ClassLines (print_class sums EfficiencyClass_kAvoidedWork))
               else if cmd = ''show-stranded'' then (0, ClassLines (print_class sums EfficiencyClass_kStrandedCapacity))
               else (2, UnknownCommand cmd))
      | _ \<Rightarrow> (2, Usage))"

lemma digest_history: "l_history l = l_history l' \<Longrightarrow> digest l = digest l'"
  by (simp add: digest_def)

lemma reconcile_books_equiv:
  assumes "books_equiv l l'" and "distinct (map fst (l_accounts l'))" and "closed_ledger l"
  shows "rc_closed (reconcile ho l')"
proof (rule reconcile_closed(1) [OF assms(2)])
  show "closed_accounts (l_accounts l')"
    unfolding closed_accounts_def
  proof clarify
    fix k a assume "(k, a) \<in> set (l_accounts l')"
    then have "map_of (l_accounts l') k = Some a"
      using assms(2) by (simp add: map_of_is_SomeI)
    then have "map_of (l_accounts l) k = Some a"
      using assms(1) by (simp add: books_equiv_def)
    then show "closed_aggregate a"
      using assms(3) by (auto simp: closed_ledger_def closed_accounts_def dest: map_of_SomeD)
  qed
qed

end
