(* ===== verification/EL_Clients.thy ===== *)
theory EL_Clients
  imports EL_Acceptance EL_Coordinator EL_Cli
begin

text \<open>
  Client programs of the library: what a program that appends entries to a fresh ledger can rely on,
  and the programs under \<^verbatim>\<open>examples\<close>.
\<close>

section \<open>What a client can rely on\<close>

lemmas client_entry_defs =
  LedgerEntry_default_def Subcategory_default_def AuthorityFences_default_def Owners_default_def
  AttemptOptions_default_def id_valid_def id_invalid_def

lemmas entry_check_defs =
  entry_admissible_def LedgerEntry_validate_def check_classification_consistency_def fences_current_def
  EfficiencyLedger_new_def has_outcome_def is_authoritative_use_def ResourceUsage_is_zero_iff Status_ok_def Status_success_def
  Let_def is_consumption_class_def

text \<open>
  A fresh ledger that is given an admissible sequence of entries accepts all of them, reconciles, and
  has the totals of the sequence.
\<close>

lemma client_run:
  assumes "run_ok es" and "\<forall>e \<in> set es. entry_admissible (EfficiencyLedger_new lid) e"
  obtains l where "append_all ho es (EfficiencyLedger_new lid) = (Status_success, l)" and "l_history l = es"
    and "rc_closed (reconcile ho l)" and "\<And>k f d. int (cell_of (l_accounts l) k f d) = book_totals es k f d"
    and "cached_ledger l" and "reachable {ErrorCode_kOverflow, ErrorCode_kReconciliationFailure} l"
proof -
  have "l_history (EfficiencyLedger_new lid) = []" by (simp add: EfficiencyLedger_new_def)
  from run_accepted [OF cached_new this assms, of ho] obtain l where
    run: "append_all ho es (EfficiencyLedger_new lid) = (Status_success, l)" and inv: "cached_ledger l" and h: "l_history l = es"
    by blast
  have reach: "reachable faults l" if "ErrorCode_kOk \<notin> faults" for faults
  proof -
    have "call ho (AppendAll es) (EfficiencyLedger_new lid) = (Status_success, l)" using run by simp
    then show ?thesis
      by (rule reachable.step [OF reachable.start]) (use that in \<open>simp add: Status_success_def\<close>)
  qed
  have "closed_ledger l" by (rule closed.reachable_keeps [OF reach]) simp
  then have "rc_closed (reconcile ho l)"
    by (intro reconcile_closed) (simp_all add: closed_ledger_def wf_ledger_def)
  moreover have "int (cell_of (l_accounts l) k f d) = book_totals es k f d" for k f d
    using inv h by (simp add: cached_ledger_def exact_ledger_def)
  moreover have "reachable {ErrorCode_kOverflow, ErrorCode_kReconciliationFailure} l"
    by (rule reach) simp
  ultimately show ?thesis
    using run h inv by (intro that)
qed

lemma summary_cells:
  "unat (sm_physical (account_summary k l) d) = cell_of (l_accounts l) k FPhysical d"
  "unat (sm_useful (account_summary k l) d) = cell_of (l_accounts l) k FUseful d"
  "unat (sm_overhead (account_summary k l) d) = cell_of (l_accounts l) k FOverhead d"
  "unat (sm_waste (account_summary k l) d) = cell_of (l_accounts l) k FWaste d"
  "unat (sm_unknown (account_summary k l) d) = cell_of (l_accounts l) k FUnknown d"
  "unat (sm_avoided (account_summary k l) d) = cell_of (l_accounts l) k FAvoided d"
  "unat (sm_stranded (account_summary k l) d) = cell_of (l_accounts l) k FStranded d"
  by (simp_all add: account_summary_def summary_of_def cell_of_def agg_of_def AccountAggregate_zero_def split: option.splits)

text \<open>Without revisions the totals are plain sums.\<close>

lemma book_totals_ordinary:
  "list_all (\<lambda>e. e_event e \<noteq> EventType_kReclassify) es \<Longrightarrow>
   book_totals es k f d = int (\<Sum>e \<leftarrow> es. attributed e k f d)"
  by (induction es rule: rev_induct) (simp_all add: contribution_def)

section \<open>The example programs\<close>

text \<open>The local function \<open>mk\<close> of two of the examples, with the account it captures.\<close>

definition example_mk ::
    "AccountId \<Rightarrow> u64 \<Rightarrow> EventType \<Rightarrow> EfficiencyClass \<Rightarrow> u64 \<Rightarrow> AttemptId \<Rightarrow> AttemptOutcome \<Rightarrow> u64 \<Rightarrow> LedgerEntry" where
  "example_mk acc eid ev cls ns att out pub =
     (let e = LedgerEntry_default
           \<lparr>e_id := Identity eid, e_event := ev, e_classification := cls,
            e_usage := ResourceUsage_set zero_totals 0 ns, e_account := acc,
            e_fences := AuthorityFences_default\<lparr>f_publication := Identity pub\<rparr>,
            e_attempt := AttemptOptions_default\<lparr>at_id := att\<rparr>, e_attempt_outcome := out\<rparr>;
          e1 = (if cls = EfficiencyClass_kUseful
                then e\<lparr>e_subcategory := (e_subcategory e)\<lparr>sc_useful := UsefulReason_kAuthoritativeExecution\<rparr>\<rparr> else e)
      in if cls = EfficiencyClass_kAvoidableWaste
         then e1\<lparr>e_subcategory := (e_subcategory e1)\<lparr>sc_waste := WasteReason_kFailedAttempt\<rparr>\<rparr> else e1)"

definition useful_and_waste_entries :: "LedgerEntry list" where
  "useful_and_waste_entries =
     (let acc = Identity 42
      in [example_mk acc 1 EventType_kAttemptFailed EfficiencyClass_kAvoidableWaste 300 (Identity 11) AttemptOutcome_kFailed 0,
          example_mk acc 2 EventType_kOutputPublished EfficiencyClass_kUseful 200 (Identity 12) AttemptOutcome_kSucceeded 7])"

definition retry_and_reuse_entries :: "LedgerEntry list" where
  "retry_and_reuse_entries =
     (let acc = Identity 7
      in [example_mk acc 1 EventType_kAttemptFailed EfficiencyClass_kAvoidableWaste 300 (Identity 101) AttemptOutcome_kFailed 0,
          example_mk acc 2 EventType_kAttemptFailed EfficiencyClass_kAvoidableWaste 250 (Identity 102) AttemptOutcome_kFailed 0,
          example_mk acc 3 EventType_kOutputPublished EfficiencyClass_kUseful 200 (Identity 103) AttemptOutcome_kSucceeded 1,
          LedgerEntry_default
            \<lparr>e_id := Identity 4, e_event := EventType_kCacheHit, e_classification := EfficiencyClass_kAvoidedWork,
             e_avoided_work := Some (ResourceUsage_make 0 500), e_account := acc,
             e_subcategory := Subcategory_default\<lparr>sc_avoided := AvoidedWorkReason_kCacheHit\<rparr>\<rparr>])"

definition shared_and_stranded_entries :: "LedgerEntry list" where
  "shared_and_stranded_entries =
     [LedgerEntry_default
        \<lparr>e_id := Identity 1, e_event := EventType_kWorkAccepted, e_classification := EfficiencyClass_kUseful,
         e_usage := ResourceUsage_set zero_totals 0 100,
         e_fences := AuthorityFences_default\<lparr>f_publication := Identity 1\<rparr>,
         e_shared := Some \<lparr>sh_policy = AttributionPolicy_kEqualShare,
           sh_participants = [\<lparr>sp_account = Identity 1, sp_weight = 1\<rparr>, \<lparr>sp_account = Identity 2, sp_weight = 1\<rparr>,
                              \<lparr>sp_account = Identity 3, sp_weight = 1\<rparr>]\<rparr>\<rparr>,
      LedgerEntry_default
        \<lparr>e_id := Identity 2, e_event := EventType_kCapacityStranded, e_classification := EfficiencyClass_kStrandedCapacity,
         e_stranded_capacity := Some (ResourceUsage_make 6 4096), e_account := Identity 4,
         e_subcategory := Subcategory_default\<lparr>sc_stranded := StrandedReason_kFragmentation\<rparr>\<rparr>]"

text \<open>
  \<open>restart_and_replay\<close>: one entry, a save, a load into a fresh ledger, a new epoch, and an append that
  names the old epoch. The result is what it prints: digest and count before and after, whether the
  load and the stale append succeeded, and whether the ledger reconciles.
\<close>

definition restart_entry :: LedgerEntry where
  "restart_entry = LedgerEntry_default
     \<lparr>e_id := Identity 1, e_event := EventType_kOutputPublished, e_classification := EfficiencyClass_kUseful,
      e_usage := ResourceUsage_set zero_totals 0 250, e_account := Identity 9,
      e_fences := AuthorityFences_default\<lparr>f_publication := Identity 1\<rparr>,
      e_subcategory := Subcategory_default\<lparr>sc_useful := UsefulReason_kAuthoritativeExecution\<rparr>\<rparr>"

definition stale_entry :: LedgerEntry where
  "stale_entry = LedgerEntry_default
     \<lparr>e_id := Identity 2, e_event := EventType_kOutputPublished, e_classification := EfficiencyClass_kUseful,
      e_usage := ResourceUsage_set zero_totals 0 1, e_account := Identity 9,
      e_fences := AuthorityFences_default\<lparr>f_publication := Identity 2, f_epoch := Identity 1\<rparr>\<rparr>"

definition restart_main ::
    "AccountId hash_order \<Rightarrow> save_env \<Rightarrow> filesystem \<Rightarrow> (u64 \<times> nat) \<times> (bool \<times> u64 \<times> nat) \<times> bool \<times> bool" where
  "restart_main ho env fs =
     (let path = ''example_ledger.led'';
          led = snd (append_locked ho restart_entry (EfficiencyLedger_new kDefaultLedgerId));
          fs1 = snd (save env path led fs);
          (st, led2) = load ho path fs1 (EfficiencyLedger_new kDefaultLedgerId);
          led3 = advance_epoch led2;
          (st2, led4) = append_locked ho stale_entry led3
      in ((digest led, entry_count led), (Status_ok st, digest led2, entry_count led2), Status_ok st2, rc_closed (reconcile ho led4)))"

lemma usage_at:
  "ResourceUsage_set u 0 v = u(kAcceleratorNanoseconds := v)"
  "ResourceUsage_make 0 v = zero_totals(kAcceleratorNanoseconds := v)"
  "ResourceUsage_make 6 v = zero_totals(kAcceleratorMemoryByteNanoseconds := v)"
  by (simp_all add: ResourceUsage_set_def ResourceUsage_make_def dimension_at_def is_resource_dimension_def
      kDimensionCount_def dims_def)

lemmas example_defs =
  useful_and_waste_entries_def retry_and_reuse_entries_def shared_and_stranded_entries_def restart_entry_def
  example_mk_def client_entry_defs usage_at Let_def

lemma examples_admissible:
  "\<forall>e \<in> set useful_and_waste_entries. entry_admissible (EfficiencyLedger_new lid) e"
  "\<forall>e \<in> set retry_and_reuse_entries. entry_admissible (EfficiencyLedger_new lid) e"
  "\<forall>e \<in> set shared_and_stranded_entries. entry_admissible (EfficiencyLedger_new lid) e"
  "entry_admissible (EfficiencyLedger_new lid) restart_entry"
  by (simp_all add: example_defs entry_check_defs SharedRef_valid_def SharedRef_weigh_def kMaxSharedParticipants_def
      checked_add_def fun_eq_iff)

lemma examples_run_ok:
  "run_ok useful_and_waste_entries" "run_ok retry_and_reuse_entries" "run_ok shared_and_stranded_entries" "run_ok [restart_entry]"
proof -
  have "(\<Sum>e \<leftarrow> useful_and_waste_entries. demand e d) < 18446744073709551616"
    "(\<Sum>e \<leftarrow> retry_and_reuse_entries. demand e d) < 18446744073709551616"
    "(\<Sum>e \<leftarrow> shared_and_stranded_entries. demand e d) < 18446744073709551616"
    "demand restart_entry d < 18446744073709551616" for d
    by (simp_all add: example_defs demand_def)
  then show "run_ok useful_and_waste_entries" "run_ok retry_and_reuse_entries" "run_ok shared_and_stranded_entries"
    "run_ok [restart_entry]"
    by (simp_all add: run_ok_def example_defs has_attempt_def completes_transfer_def
        releases_reservation_def releases_allocation_def ends_recovery_def)
qed

lemma restart_outcome:
  "restart_main ho no_io_error fs =
     (let led = snd (append_locked ho restart_entry (EfficiencyLedger_new kDefaultLedgerId))
      in ((digest led, 1), (True, digest led, 1), False, True))"
proof -
  let ?new = "EfficiencyLedger_new kDefaultLedgerId" and ?path = "''example_ledger.led''"
  obtain led where run: "append_all ho [restart_entry] ?new = (Status_success, led)" and h: "l_history led = [restart_entry]"
    and reach: "reachable {ErrorCode_kOverflow, ErrorCode_kReconciliationFailure} led" and cached: "cached_ledger led"
    and closed: "rc_closed (reconcile ho led)"
    by (rule client_run [of "[restart_entry]" kDefaultLedgerId ho]) (simp_all add: examples_run_ok examples_admissible)
  have app: "append_locked ho restart_entry ?new = (Status_success, led)"
    using run append_ok_success [of ho restart_entry ?new]
    by (cases "append_locked ho restart_entry ?new") (auto simp: Status_ok_def Status_success_def split: if_splits)
  have "closed_ledger ?new" by (rule closed.reachable_keeps) (rule reachable.start)
  then have "closed_ledger led"
    by (rule closed.append_keeps [OF _ app]) (simp add: Status_success_def)
  have auth: "same_authority ?new led" using append_same_authority [OF app] .
  have "loadable led"
    by (simp add: loadable_def h encodable_def restart_entry_def client_entry_defs kMaxEntryCount_def fences_current_def)
  from save_load [OF replay.reachable_keeps [OF reach] this, of ho ?new] obtain led2 where
    load: "load_from_string ho (snd (save_to_string led)) ?new = (Status_success, None, led2)"
    and eq: "books_equiv led led2" and epoch: "l_epoch led2 = l_epoch led" by blast
  let ?fs = "snd (save no_io_error ?path led fs)"
  have loaded: "load ho ?path ?fs ?new = (Status_success, led2)"
    by (simp add: load_def save_no_io_error load)
  then have "wf_ledger led2"
    using wf.reachable_keeps [OF reachable_load [OF reachable.start [where lid = kDefaultLedgerId], of ho ?path ?fs]]
    by (simp only: snd_conv)
  then have "distinct (map fst (l_accounts (advance_epoch led2)))" "books_equiv led (advance_epoch led2)"
    using eq by (simp_all add: wf_ledger_def advance_epoch_def books_equiv_def)
  then have still: "rc_closed (reconcile ho (advance_epoch led2))"
    using \<open>closed_ledger led\<close> by (intro reconcile_books_equiv)
  have "l_epoch (advance_epoch led2) = Identity 2"
    using auth epoch by (simp add: advance_epoch_def same_authority_def EfficiencyLedger_new_def)
  then have "\<not> Status_ok (check_authority (advance_epoch led2) stale_entry)"
    by (simp add: check_authority_def stale_entry_def client_entry_defs Status_ok_def)
  then obtain st where stale: "append_locked ho stale_entry (advance_epoch led2) = (st, advance_epoch led2)" "\<not> Status_ok st"
    using append_without_authority [of "advance_epoch led2" stale_entry ho] by blast
  have "l_history led2 = [restart_entry]" using eq h by (simp add: books_equiv_def)
  then show ?thesis
    using app loaded stale still h digest_history [of led2 led]
    by (simp add: restart_main_def Let_def entry_count_def Status_ok_def Status_success_def)
qed

section \<open>An entry with a long note\<close>

definition long_note_entry :: LedgerEntry where
  "long_note_entry = restart_entry\<lparr>e_note := replicate (kMaxNoteLen + 1) 0\<rparr>"

lemma long_note_run:
  "run_ok [long_note_entry]" "entry_admissible (EfficiencyLedger_new lid) long_note_entry"
proof -
  show "run_ok [long_note_entry]"
    using examples_run_ok(4) by (simp add: run_ok_def long_note_entry_def demand_def completes_transfer_def
        releases_reservation_def releases_allocation_def ends_recovery_def restart_entry_def client_entry_defs)
  show "entry_admissible (EfficiencyLedger_new lid) long_note_entry"
    using examples_admissible(4) [of lid]
    by (simp add: long_note_entry_def entry_check_defs restart_entry_def client_entry_defs)
qed

lemma long_note_encodable: "encodable (long_note_entry\<lparr>e_note := []\<rparr>)"
  by (simp add: encodable_def long_note_entry_def restart_entry_def LedgerEntry_default_def)

lemma long_note_example:
  "\<exists>l. append_all insertion_order [long_note_entry] (EfficiencyLedger_new (Identity 1)) = (Status_success, l) \<and>
     load_from_string insertion_order (snd (save_to_string l)) (EfficiencyLedger_new (Identity 1)) =
       (corrupt (''corrupt entry at index '' @ decimal 0), Some ''decode entry'', EfficiencyLedger_new (Identity 1))"
proof -
  obtain l where run: "append_all insertion_order [long_note_entry] (EfficiencyLedger_new (Identity 1)) = (Status_success, l)"
    and h: "l_history l = [] @ long_note_entry # []"
    by (rule client_run [OF long_note_run(1), of "Identity 1" insertion_order]) (simp_all add: long_note_run)
  have "load_from_string insertion_order (snd (save_to_string l)) (EfficiencyLedger_new (Identity 1)) =
      (corrupt (''corrupt entry at index '' @ decimal (length ([] :: LedgerEntry list))), Some ''decode entry'', EfficiencyLedger_new (Identity 1))"
    by (rule long_note_blocks_load [OF h _ long_note_encodable])
      (simp_all add: long_note_entry_def kMaxNoteLen_def h kMaxEntryCount_def)
  with run show ?thesis by auto
qed

section \<open>One entry in a fresh ledger\<close>

lemma restart_entry_accepted:
  obtains l where "append_locked ho restart_entry (EfficiencyLedger_new lid) = (Status_success, l)"
    and "l_history l = [restart_entry]"
proof -
  obtain l where run: "append_all ho [restart_entry] (EfficiencyLedger_new lid) = (Status_success, l)"
    and "l_history l = [restart_entry]"
    by (rule client_run [of "[restart_entry]" lid ho]) (simp_all add: examples_run_ok examples_admissible)
  moreover from run have "append_locked ho restart_entry (EfficiencyLedger_new lid) = (Status_success, l)"
    using append_ok_success [of ho restart_entry "EfficiencyLedger_new lid"]
    by (cases "append_locked ho restart_entry (EfficiencyLedger_new lid)") (auto simp: Status_ok_def Status_success_def split: if_splits)
  ultimately show ?thesis by (intro that)
qed

section \<open>Two encodings\<close>

lemma restart_encodings:
  obtains xs ys where "encode_entry restart_entry [] = xs @ 1 # ys"
    and "encode_entry (restart_entry\<lparr>e_id := Identity 2\<rparr>) [] = xs @ 2 # ys"
proof -
  let ?e = "restart_entry" and ?e' = "restart_entry\<lparr>e_id := Identity 2\<rparr>"
  define rest where "rest = drop 8 (entry_body ?e)"
  have ids: "put_u64 1 = 1 # [0, 0, 0, 0, 0, 0, 0]" "put_u64 2 = 2 # [0, 0, 0, 0, 0, 0, 0]" by code_simp+
  have body: "entry_body ?e = 1 # [0, 0, 0, 0, 0, 0, 0] @ rest" "entry_body ?e' = 2 # [0, 0, 0, 0, 0, 0, 0] @ rest"
    unfolding rest_def entry_body_def by (simp_all add: restart_entry_def ids)
  then have "encode_entry ?e [] = put_u32 (word_of_nat (length (entry_body ?e))) @ 1 # [0, 0, 0, 0, 0, 0, 0] @ rest"
    "encode_entry ?e' [] = put_u32 (word_of_nat (length (entry_body ?e))) @ 2 # [0, 0, 0, 0, 0, 0, 0] @ rest"
    by (simp_all add: encode_entry_def)
  then show ?thesis by (rule that)
qed

end
