(* ===== verification/EL_Examples.thy ===== *)
theory EL_Examples
  imports EL_Clients
begin

text \<open>
  The three example programs that work on one ledger in memory, with the lines they print. What they
  print follows from what a client can rely on: every append is accepted, the summaries are the sums
  of the entries, and the ledger reconciles. \<open>restart_and_replay\<close> is in \<open>EL_Clients\<close>.
\<close>

section \<open>The programs\<close>

text \<open>Calls of \<open>append\<close> one after the other whose status nobody looks at.\<close>

definition append_each :: "AccountId hash_order \<Rightarrow> LedgerEntry list \<Rightarrow> EfficiencyLedger \<Rightarrow> EfficiencyLedger" where
  "append_each ho es l = fold (\<lambda>e l1. snd (append_locked ho e l1)) es l"

definition printed :: "u64 \<Rightarrow> string" where
  "printed v = decimal (unat v)"

definition reconcile_word :: "AccountId hash_order \<Rightarrow> EfficiencyLedger \<Rightarrow> string" where
  "reconcile_word ho l = (if rc_closed (reconcile ho l) then ''closed'' else ''OPEN'')"

definition useful_and_waste_main :: "AccountId hash_order \<Rightarrow> string list" where
  "useful_and_waste_main ho =
     (let led = append_each ho useful_and_waste_entries (EfficiencyLedger_new kDefaultLedgerId);
          s = account_summary (Identity 42) led;
          d = kAcceleratorNanoseconds
      in [''physical='' @ printed (sm_physical s d) @ '' useful='' @ printed (sm_useful s d) @
            '' waste='' @ printed (sm_waste s d) @ '' overhead='' @ printed (sm_overhead s d) @
            '' unknown='' @ printed (sm_unknown s d),
          ''reconcile='' @ reconcile_word ho led @ '' digest='' @ hex (digest led)])"

definition retry_and_reuse_main :: "AccountId hash_order \<Rightarrow> string list" where
  "retry_and_reuse_main ho =
     (let led = append_each ho (take 3 retry_and_reuse_entries) (EfficiencyLedger_new kDefaultLedgerId);
          s = account_summary (Identity 7) led;
          led1 = append_each ho (drop 3 retry_and_reuse_entries) led;
          s1 = account_summary (Identity 7) led1;
          d = kAcceleratorNanoseconds
      in [''retries: physical='' @ printed (sm_physical s d) @ '' useful='' @ printed (sm_useful s d) @
            '' waste='' @ printed (sm_waste s d),
          ''after reuse: physical='' @ printed (sm_physical s1 d) @ '' avoided='' @ printed (sm_avoided s1 d),
          ''reconcile='' @ reconcile_word ho led1])"

definition shared_and_stranded_main :: "AccountId hash_order \<Rightarrow> string list" where
  "shared_and_stranded_main ho =
     (let led = append_each ho (take 1 shared_and_stranded_entries) (EfficiencyLedger_new kDefaultLedgerId);
          led1 = append_each ho (drop 1 shared_and_stranded_entries) led
      in map (\<lambda>ac. ''account '' @ printed (id_value ac) @ '' useful='' @
                   printed (sm_useful (account_summary ac led) kAcceleratorNanoseconds))
           [Identity 1, Identity 2, Identity 3] @
         [''stranded account '' @ printed (id_value (Identity 4 :: AccountId)) @ '' stranded(bytes)='' @
            printed (sm_stranded (account_summary (Identity 4) led1) kAcceleratorMemoryByteNanoseconds),
          ''reconcile='' @ reconcile_word ho led1])"

section \<open>What they print\<close>

lemma append_each_all: "append_all ho es l = (Status_success, l') \<Longrightarrow> append_each ho es l = l'"
proof (induction es arbitrary: l)
  case (Cons e es)
  obtain st l1 where one: "append_locked ho e l = (st, l1)" by fastforce
  with Cons show ?case
    by (auto simp: append_each_def Status_ok_def Status_success_def split: if_splits)
qed (simp add: append_each_def)

lemma append_each_append: "append_each ho (es @ es') l = append_each ho es' (append_each ho es l)"
  by (simp add: append_each_def)

lemma run_ok_prefix: "run_ok (es @ es') \<Longrightarrow> run_ok es"
  unfolding run_ok_def by (auto simp: sorted_wrt_append intro: add_lessD1)

text \<open>The summaries after the first entries of a run and after all of them.\<close>

lemma example_run:
  assumes "run_ok (es @ es')" and "\<forall>e \<in> set (es @ es'). entry_admissible (EfficiencyLedger_new lid) e"
  shows "int (cell_of (l_accounts (append_each ho es (EfficiencyLedger_new lid))) k f d) = book_totals es k f d"
    and "int (cell_of (l_accounts (append_each ho es' (append_each ho es (EfficiencyLedger_new lid)))) k f d) =
      book_totals (es @ es') k f d"
    and "reconcile_word ho (append_each ho es' (append_each ho es (EfficiencyLedger_new lid))) = ''closed''"
proof -
  obtain l where "append_all ho es (EfficiencyLedger_new lid) = (Status_success, l)"
    "\<And>k f d. int (cell_of (l_accounts l) k f d) = book_totals es k f d"
    by (rule client_run [of es lid ho]) (use assms run_ok_prefix in auto)
  then show "int (cell_of (l_accounts (append_each ho es (EfficiencyLedger_new lid))) k f d) = book_totals es k f d"
    by (simp add: append_each_all)
  obtain l' where "append_all ho (es @ es') (EfficiencyLedger_new lid) = (Status_success, l')"
    "\<And>k f d. int (cell_of (l_accounts l') k f d) = book_totals (es @ es') k f d" "rc_closed (reconcile ho l')"
    by (rule client_run [OF assms, of ho]) blast
  then show "int (cell_of (l_accounts (append_each ho es' (append_each ho es (EfficiencyLedger_new lid)))) k f d) =
      book_totals (es @ es') k f d"
    "reconcile_word ho (append_each ho es' (append_each ho es (EfficiencyLedger_new lid))) = ''closed''"
    by (simp_all add: append_each_append [symmetric] append_each_all reconcile_word_def)
qed

lemma printed_summary:
  assumes "\<And>f. int (cell_of (l_accounts l) k f d) = book_totals es k f d"
  shows "printed (sm_physical (account_summary k l) d) = decimal (nat (book_totals es k FPhysical d))"
    and "printed (sm_useful (account_summary k l) d) = decimal (nat (book_totals es k FUseful d))"
    and "printed (sm_overhead (account_summary k l) d) = decimal (nat (book_totals es k FOverhead d))"
    and "printed (sm_waste (account_summary k l) d) = decimal (nat (book_totals es k FWaste d))"
    and "printed (sm_unknown (account_summary k l) d) = decimal (nat (book_totals es k FUnknown d))"
    and "printed (sm_avoided (account_summary k l) d) = decimal (nat (book_totals es k FAvoided d))"
    and "printed (sm_stranded (account_summary k l) d) = decimal (nat (book_totals es k FStranded d))"
  by (simp_all add: printed_def summary_cells assms [symmetric])

lemma useful_and_waste_prints:
  "\<exists>led. append_all ho useful_and_waste_entries (EfficiencyLedger_new kDefaultLedgerId) = (Status_success, led) \<and>
     useful_and_waste_main ho =
       [''physical=500 useful=200 waste=300 overhead=0 unknown=0'', ''reconcile=closed digest='' @ hex (digest led)]"
proof -
  obtain led where run: "append_all ho useful_and_waste_entries (EfficiencyLedger_new kDefaultLedgerId) = (Status_success, led)"
    and cells: "\<And>k f d. int (cell_of (l_accounts led) k f d) = book_totals useful_and_waste_entries k f d"
    and closed: "rc_closed (reconcile ho led)"
    by (rule client_run [OF examples_run_ok(1) examples_admissible(1), of ho]) blast
  have totals: "book_totals useful_and_waste_entries (Identity 42) FPhysical kAcceleratorNanoseconds = 500"
    "book_totals useful_and_waste_entries (Identity 42) FUseful kAcceleratorNanoseconds = 200"
    "book_totals useful_and_waste_entries (Identity 42) FWaste kAcceleratorNanoseconds = 300"
    "book_totals useful_and_waste_entries (Identity 42) FOverhead kAcceleratorNanoseconds = 0"
    "book_totals useful_and_waste_entries (Identity 42) FUnknown kAcceleratorNanoseconds = 0"
    using examples_run_ok(1)
    by (simp_all add: run_ok_def book_totals_ordinary, simp_all add: example_defs attributed_single bucket_field_def)
  have "decimal 500 = ''500''" "decimal 200 = ''200''" "decimal 300 = ''300''" "decimal 0 = ''0''"
    by code_simp+
  with run closed show ?thesis
    by (simp add: useful_and_waste_main_def append_each_all printed_summary [OF cells] reconcile_word_def totals Let_def)
qed

lemma retry_and_reuse_prints:
  "retry_and_reuse_main ho =
     [''retries: physical=750 useful=200 waste=550'', ''after reuse: physical=750 avoided=500'', ''reconcile=closed'']"
proof -
  let ?es = "take 3 retry_and_reuse_entries" and ?es' = "drop 3 retry_and_reuse_entries"
  have "run_ok (?es @ ?es')" "\<forall>e \<in> set (?es @ ?es'). entry_admissible (EfficiencyLedger_new kDefaultLedgerId) e"
    using examples_run_ok(2) examples_admissible(2) [of kDefaultLedgerId] by simp_all
  note run = example_run [OF this]
  have totals: "book_totals ?es (Identity 7) FPhysical kAcceleratorNanoseconds = 750"
    "book_totals ?es (Identity 7) FUseful kAcceleratorNanoseconds = 200"
    "book_totals ?es (Identity 7) FWaste kAcceleratorNanoseconds = 550"
    "book_totals (?es @ ?es') (Identity 7) FPhysical kAcceleratorNanoseconds = 750"
    "book_totals (?es @ ?es') (Identity 7) FAvoided kAcceleratorNanoseconds = 500"
    by (subst book_totals_ordinary, simp add: example_defs,
        simp add: example_defs attributed_single bucket_field_def)+
  have "decimal 750 = ''750''" "decimal 200 = ''200''" "decimal 550 = ''550''" "decimal 500 = ''500''"
    by code_simp+
  then show ?thesis
    by (simp add: retry_and_reuse_main_def printed_summary [OF run(1)] printed_summary [OF run(2)] run(3) totals Let_def
        del: append_take_drop_id)
qed

lemma split_in_three:
  "distribute_dim (if c then 100 else 0) [1, 1, 1] = (if c then [34, 33, 33] else [0, 0, 0], 0)"
proof -
  have "distribute_dim 100 [1, 1, 1] = ([34, 33, 33], 0)" "distribute_dim 0 [1, 1, 1] = ([0, 0, 0], 0)"
    by code_simp+
  then show ?thesis by simp
qed

lemma shared_example_attributed:
  fixes k :: AccountId
  shows "attributed (hd shared_and_stranded_entries) k FUseful kAcceleratorNanoseconds =
      (if k = Identity 1 then 34 else if k \<in> {Identity 2, Identity 3} then 33 else 0)"
    and "attributed (hd shared_and_stranded_entries) (Identity 4) f d = 0"
proof -
  let ?e = "hd shared_and_stranded_entries"
  have ps: "attribution_participants ?e = [(Identity 1, 1), (Identity 2, 1), (Identity 3, 1)]"
    and usage: "e_usage ?e d' = (if d' = kAcceleratorNanoseconds then 100 else 0)"
    and other: "e_avoided_work ?e = None" "e_stranded_capacity ?e = None" "e_classification ?e = EfficiencyClass_kUseful" for d'
    by (simp_all add: attribution_participants_def example_defs)
  have "distribute_into (map snd (attribution_participants ?e)) (Some (e_usage ?e)) =
      (map (\<lambda>i d. (if d = kAcceleratorNanoseconds then [34, 33, 33] else [0, 0, 0]) ! i) [0..<3], zero_totals)"
    by (simp add: distribute_into_def ps usage split_in_three numeral_3_eq_3)
  then have shares: "ar_shares (compute_attribution ?e) =
      map (\<lambda>i. \<lparr>as_account = fst ([(Identity 1, 1), (Identity 2, 1), (Identity 3, 1 :: u64)] ! i),
        as_physical = (\<lambda>d. (if d = kAcceleratorNanoseconds then [34, 33, 33] else [0, 0, 0]) ! i),
        as_avoided = zero_totals, as_stranded = zero_totals\<rparr>) [0..<3]"
    by (simp add: compute_attribution_def ps other distribute_into_def Let_def numeral_3_eq_3 list_ex_iff)
  show "attributed ?e k FUseful kAcceleratorNanoseconds =
      (if k = Identity 1 then 34 else if k \<in> {Identity 2, Identity 3} then 33 else 0)"
    by (auto simp: attributed_def shares share_sum_def share_value_def other upt_rec bucket_field_def)
  show "attributed ?e (Identity 4) f d = 0"
    by (rule attributed_untouched) (auto simp: touched_def shares upt_rec)
qed

lemma shared_and_stranded_prints:
  "shared_and_stranded_main ho =
     [''account 1 useful=34'', ''account 2 useful=33'', ''account 3 useful=33'',
      ''stranded account 4 stranded(bytes)=4096'', ''reconcile=closed'']"
proof -
  let ?es = "take 1 shared_and_stranded_entries" and ?es' = "drop 1 shared_and_stranded_entries"
  have "run_ok (?es @ ?es')" "\<forall>e \<in> set (?es @ ?es'). entry_admissible (EfficiencyLedger_new kDefaultLedgerId) e"
    using examples_run_ok(3) examples_admissible(3) [of kDefaultLedgerId] by simp_all
  note run = example_run [OF this]
  have ordinary: "list_all (\<lambda>e. e_event e \<noteq> EventType_kReclassify) shared_and_stranded_entries"
    using examples_run_ok(3) by (simp add: run_ok_def)
  obtain x y where es: "shared_and_stranded_entries = [x, y]" and y: "e_shared y = None" "e_account y = Identity 4"
    "usage_or_zero (e_stranded_capacity y) kAcceleratorMemoryByteNanoseconds = 4096"
    by (simp add: example_defs)
  have useful: "book_totals ?es k FUseful kAcceleratorNanoseconds =
      (if k = Identity 1 then 34 else if k \<in> {Identity 2, Identity 3} then 33 else 0)" for k
    using ordinary shared_example_attributed(1) [of k] by (simp add: es book_totals_ordinary)
  have stranded: "book_totals (?es @ ?es') (Identity 4) FStranded kAcceleratorMemoryByteNanoseconds = 4096"
    using ordinary shared_example_attributed(2) [of FStranded kAcceleratorMemoryByteNanoseconds] y
    by (simp add: es book_totals_ordinary attributed_single id_valid_def)
  have "decimal 34 = ''34''" "decimal 33 = ''33''" "printed 1 = ''1''" "printed 2 = ''2''" "printed 3 = ''3''" "printed 4 = ''4''"
    by code_simp+
  moreover have "decimal 4096 = ''4096''"
    by (simp add: decimal.simps char_of_def bit_0)
  ultimately show ?thesis
    by (simp add: shared_and_stranded_main_def printed_summary [OF run(1)] printed_summary [OF run(2)] run(3) useful stranded Let_def
        del: append_take_drop_id One_nat_def)
qed

end
