(* ===== verification/EL_Kernel.thy ===== *)
theory EL_Kernel
  imports EL_Prelude "HOL-Library.Signed_Division"
begin

text \<open>
  The index arithmetic of the kernel of the hardware proof (\<^verbatim>\<open>cu/el_cuda_proof.cu\<close>): which elements of
  the array a thread writes, and that the threads of a grid share the array out among them.
\<close>

definition INT_MAX :: int where
  "INT_MAX = 2147483647"

definition kBlock :: int where
  "kBlock = 256"

text \<open>
  One thread of \<open>saxpy_kernel\<close>: the indices its grid-stride loop writes. \<open>None\<close> stands for undefined
  behaviour, which is a negative index or an overflowing \<open>int\<close>, and for a loop that does not advance.
\<close>

function grid_stride :: "int \<Rightarrow> int \<Rightarrow> int \<Rightarrow> int list option" where
  "grid_stride n stride i =
     (if i < n then
        if i < 0 \<or> stride \<le> 0 \<or> INT_MAX < i + stride then None
        else map_option (\<lambda>is. i # is) (grid_stride n stride (i + stride))
      else Some [])"
  by auto
termination
  by (relation "measure (\<lambda>(n, stride, i). nat (n - i))") auto

declare grid_stride.simps [simp del]

text \<open>The built-in variables of a thread are unsigned; their products are converted to \<open>int\<close>.\<close>

definition saxpy_thread :: "int \<Rightarrow> u32 \<Rightarrow> u32 \<Rightarrow> u32 \<Rightarrow> u32 \<Rightarrow> int list option" where
  "saxpy_thread n gridDim blockDim blockIdx threadIdx =
     grid_stride n (sint (blockDim * gridDim)) (sint (blockIdx * blockDim + threadIdx))"

definition launch_grid :: "int \<Rightarrow> int" where
  "launch_grid n = (n + kBlock - 1) sdiv kBlock"

lemma grid_stride_spec:
  assumes "0 < stride" and "n + stride \<le> INT_MAX + 1" and "0 \<le> i"
  shows "\<exists>is. grid_stride n stride i = Some is \<and> distinct is \<and>
    set is = {j. i \<le> j \<and> j < n \<and> j mod stride = i mod stride}"
  using assms
proof (induction n stride i rule: grid_stride.induct)
  case (1 n stride i)
  show ?case
  proof (cases "i < n")
    case True
    then have guard: "\<not> (i < 0 \<or> stride \<le> 0 \<or> INT_MAX < i + stride)" using "1.prems" by simp
    then obtain "is" where rest: "grid_stride n stride (i + stride) = Some is" "distinct is"
      "set is = {j. i + stride \<le> j \<and> j < n \<and> j mod stride = i mod stride}"
      using "1.IH" [OF True] "1.prems" by auto
    have "j = i \<or> i + stride \<le> j" if "i \<le> j" "j mod stride = i mod stride" for j
    proof (rule ccontr)
      assume other: "\<not> (j = i \<or> i + stride \<le> j)"
      have "(j - i) mod stride = 0"
        using that(2) by (metis mod_0 mod_diff_cong diff_self)
      moreover have "0 < j - i" "j - i < stride" using other that(1) by simp_all
      ultimately show False by simp
    qed
    then have "insert i (set is) = {j. i \<le> j \<and> j < n \<and> j mod stride = i mod stride}"
      using True "1.prems"(1) rest(3) by auto
    moreover have "i \<notin> set is" using rest(3) "1.prems"(1) by simp
    ultimately show ?thesis
      using True guard rest by (subst grid_stride.simps) auto
  next
    case False
    then show ?thesis by (subst grid_stride.simps) auto
  qed
qed

lemma thread_index_below:
  assumes "0 < block" and "0 \<le> b" and "b < grid" and "0 \<le> t" and "t < (block :: int)"
  shows "0 \<le> b * block + t" and "b * block + t < block * grid"
proof -
  have "b * block + t < (b + 1) * block" using assms(5) by (simp add: algebra_simps)
  also have "\<dots> \<le> grid * block" using assms(1,3) by (intro mult_right_mono) simp_all
  finally show "b * block + t < block * grid" by (simp only: mult.commute [of grid])
  show "0 \<le> b * block + t" using assms by simp
qed

lemma thread_of_index:
  assumes "0 < block" and "0 < (grid :: int)"
  shows "0 \<le> (j mod (block * grid)) div block" and "(j mod (block * grid)) div block < grid"
    and "0 \<le> (j mod (block * grid)) mod block" and "(j mod (block * grid)) mod block < block"
proof -
  let ?r = "j mod (block * grid)"
  have r: "0 \<le> ?r" "?r < block * grid" using assms by simp_all
  have "?r div block * block < grid * block"
    using r(2) minus_mod_eq_div_mult [of ?r block] pos_mod_sign [OF assms(1), of ?r]
    by (simp only: mult.commute [of grid])
  then show "?r div block < grid" using assms(1) by (simp only: mult_less_cancel_right_pos)
  show "0 \<le> ?r div block" "0 \<le> ?r mod block" "?r mod block < block"
    using r(1) assms(1) by (simp_all add: pos_imp_zdiv_nonneg_iff)
qed

lemma grid_stride_writes:
  assumes "0 < block" and "0 \<le> b" and "b < grid" and "0 \<le> t" and "t < block"
    and "n + block * grid \<le> INT_MAX + 1" and "0 \<le> j" and "j < n"
  shows "(\<exists>is. grid_stride n (block * grid) (b * block + t) = Some is \<and> distinct is \<and> j \<in> set is) \<longleftrightarrow>
    b = (j mod (block * grid)) div block \<and> t = (j mod (block * grid)) mod block" (is "?W \<longleftrightarrow> _")
proof -
  let ?s = "block * grid" and ?i = "b * block + t"
  have pos: "0 < ?s" using assms(1-3) by simp
  note i = thread_index_below [OF assms(1-5)]
  obtain "is" where run: "grid_stride n ?s ?i = Some is" "distinct is"
    and cover: "set is = {k. ?i \<le> k \<and> k < n \<and> k mod ?s = ?i mod ?s}"
    using grid_stride_spec [OF pos assms(6) i(1)] by blast
  have "?W \<longleftrightarrow> ?i \<le> j \<and> j mod ?s = ?i"
    using run assms(8) mod_pos_pos_trivial [OF i] by (simp add: cover)
  also have "\<dots> \<longleftrightarrow> j mod ?s = ?i"
    using zmod_le_nonneg_dividend [OF assms(7), of ?s] by auto
  also have "\<dots> \<longleftrightarrow> b = (j mod ?s) div block \<and> t = (j mod ?s) mod block"
  proof
    assume "j mod ?s = ?i"
    moreover have "?i div block = b" "?i mod block = t"
      using assms(4,5) by (simp_all add: div_pos_pos_trivial mod_pos_pos_trivial)
    ultimately show "b = (j mod ?s) div block \<and> t = (j mod ?s) mod block" by simp
  next
    assume "b = (j mod ?s) div block \<and> t = (j mod ?s) mod block"
    then show "j mod ?s = ?i" by (simp only: div_mult_mod_eq)
  qed
  finally show ?thesis .
qed

lemma sint_small: "uint (w :: u32) \<le> INT_MAX \<Longrightarrow> sint w = uint w"
  using signed_take_bit_int_eq_self [of 31 "uint w"] order_trans [OF _ uint_ge_0, of "- (2 ^ 31)" w]
  by (simp add: sint_uint INT_MAX_def)

lemma saxpy_thread_ints:
  assumes "b < grid" and "t < block" and "uint block * uint grid \<le> INT_MAX"
  shows "saxpy_thread n grid block b t = grid_stride n (uint block * uint grid) (uint b * uint block + uint t)"
proof -
  have "uint b * uint block + uint t < uint block * uint grid" "0 \<le> uint b * uint block + uint t"
    using assms(1,2) by (intro thread_index_below; simp add: word_less_def order.strict_trans1 [OF uint_ge_0])+
  then have "uint b * uint block + uint t \<le> INT_MAX" "uint b * uint block \<le> INT_MAX"
    using assms(3) uint_ge_0 [of t] by linarith+
  moreover have small: "k < 2 ^ LENGTH(32)" if "k \<le> INT_MAX" for k
    using that by (simp add: INT_MAX_def)
  ultimately have "uint (b * block + t) = uint b * uint block + uint t" "uint (block * grid) = uint block * uint grid"
    using assms(3) uint_mult_lem [of b block] uint_add_lem [of "b * block" t] uint_mult_lem [of block grid] by simp_all
  then show ?thesis
    using \<open>uint b * uint block + uint t \<le> INT_MAX\<close> assms(3) by (simp add: saxpy_thread_def sint_small)
qed

end
