(* ===== verification/EL_Cuda.thy ===== *)
theory EL_Cuda
  imports EL_Clients EL_Kernel
begin

text \<open>
  The host program of the hardware proof (\<^verbatim>\<open>cu/el_cuda_proof.cu\<close>): its timers, its sections with the
  entries they append, its error paths and what they release. The CUDA runtime is an argument: it
  answers every call with success or failure, as a function of all calls before it, and gives the
  measured times, the number of results that differ from the CPU, and the free device memory.
\<close>

section \<open>Calls of the runtime\<close>

datatype handle = HIn | HOut | Warm | DIn | DOut | Stream | Start | Stop

datatype cuda_call =
    SetDevice | GetDeviceProperties | RuntimeGetVersion | GetLastError | MemGetInfo
  | New handle | Delete handle
  | Malloc handle | Free handle
  | StreamCreate | StreamDestroy | StreamSynchronize
  | EventCreate handle | EventDestroy handle | EventRecord handle | EventSynchronize | EventElapsedTime
  | MemcpyHostToDevice | MemcpyDeviceToHost | Launch

type_synonym cuda_trace = "(cuda_call \<times> bool) list"

record cuda_env =
  cuda_answers :: "cuda_trace \<Rightarrow> cuda_call \<Rightarrow> bool"
  elapsed_ns :: "cuda_trace \<Rightarrow> u64"
  mismatches :: "cuda_trace \<Rightarrow> u64"
  free_memory :: "cuda_trace \<Rightarrow> u64"

text \<open>The variables of \<open>main\<close> that outlive a section, and the calls it has made.\<close>

record cuda_state =
  cu_trace :: cuda_trace
  cu_ledger :: EfficiencyLedger
  cu_baseline :: u64
  cu_entry :: u64
  cu_publication :: u64
  cu_attempt :: u64

type_synonym cuda_stmt = "cuda_state \<Rightarrow> nat option \<times> cuda_state"

definition issue :: "cuda_env \<Rightarrow> cuda_call \<Rightarrow> cuda_state \<Rightarrow> bool \<times> cuda_state" where
  "issue env c s =
     (let ok = cuda_answers env (cu_trace s) c in (ok, s\<lparr>cu_trace := cu_trace s @ [(c, ok)]\<rparr>))"

definition issue_all :: "cuda_env \<Rightarrow> cuda_call list \<Rightarrow> cuda_state \<Rightarrow> cuda_state" where
  "issue_all env cs s = fold (\<lambda>c s. snd (issue env c s)) cs s"

text \<open>A call whose answer is not looked at.\<close>

definition ignore :: "cuda_env \<Rightarrow> cuda_call \<Rightarrow> cuda_state \<Rightarrow> 'r option \<times> cuda_state" where
  "ignore env c s = (None, issue_all env [c] s)"

text \<open>
  A call that is checked: if it fails, the error is fetched with \<open>cudaGetLastError\<close>, the listed calls
  release what is held, and the function returns.
\<close>

definition checked :: "cuda_env \<Rightarrow> 'r \<Rightarrow> cuda_call \<Rightarrow> cuda_call list \<Rightarrow> cuda_state \<Rightarrow> 'r option \<times> cuda_state" where
  "checked env r c cleanup s =
     (case issue env c s of
        (True, s') \<Rightarrow> (None, s')
      | (False, s') \<Rightarrow> (Some r, issue_all env (GetLastError # cleanup) s'))"

section \<open>The timers\<close>

record TimedRun =
  tr_ok :: bool
  tr_ns :: u64

definition timed_run :: "cuda_env \<Rightarrow> (cuda_state \<Rightarrow> TimedRun option \<times> cuda_state) list \<Rightarrow> cuda_state \<Rightarrow> TimedRun \<times> cuda_state" where
  "timed_run env body s =
     (case stmts body s of
        (Some tr, s') \<Rightarrow> (tr, s')
      | (None, s') \<Rightarrow>
          (\<lparr>tr_ok = True, tr_ns = elapsed_ns env (cu_trace s')\<rparr>, issue_all env [EventDestroy Start, EventDestroy Stop] s'))"

definition TimedRun_default :: TimedRun where
  "TimedRun_default = \<lparr>tr_ok = False, tr_ns = 0\<rparr>"

definition time_kernel :: "cuda_env \<Rightarrow> cuda_state \<Rightarrow> TimedRun \<times> cuda_state" where
  "time_kernel env =
     (let both = [EventDestroy Start, EventDestroy Stop]
      in timed_run env
        [checked env TimedRun_default (EventCreate Start) [],
         checked env TimedRun_default (EventCreate Stop) [EventDestroy Start],
         ignore env (EventRecord Start),
         ignore env Launch,
         checked env TimedRun_default GetLastError both,
         ignore env (EventRecord Stop),
         checked env TimedRun_default StreamSynchronize both,
         checked env TimedRun_default EventElapsedTime both])"

definition time_transfer :: "cuda_env \<Rightarrow> cuda_state \<Rightarrow> TimedRun \<times> cuda_state" where
  "time_transfer env =
     (let both = [EventDestroy Start, EventDestroy Stop]
      in timed_run env
        [checked env TimedRun_default (EventCreate Start) [],
         checked env TimedRun_default (EventCreate Stop) [EventDestroy Start],
         ignore env (EventRecord Start),
         ignore env MemcpyHostToDevice,
         ignore env MemcpyDeviceToHost,
         ignore env (EventRecord Stop),
         checked env TimedRun_default EventSynchronize both,
         checked env TimedRun_default EventElapsedTime both])"

text \<open>A timed action whose failure ends \<open>main\<close>, and what follows with the time it took.\<close>

definition timed :: "(cuda_state \<Rightarrow> TimedRun \<times> cuda_state) \<Rightarrow> (u64 \<Rightarrow> cuda_stmt) \<Rightarrow> cuda_stmt" where
  "timed timer k s = (case timer s of (tr, s') \<Rightarrow> if \<not> tr_ok tr then (Some 1, s') else k (tr_ns tr) s')"

section \<open>The entries\<close>

definition append_or_fail :: "AccountId hash_order \<Rightarrow> LedgerEntry \<Rightarrow> EfficiencyLedger \<Rightarrow> nat \<times> EfficiencyLedger" where
  "append_or_fail ho e l =
     (case append_locked ho e l of (st, l') \<Rightarrow> (if \<not> Status_ok st then 1 else 0, l'))"

definition transfer_bytes :: u64 where
  "transfer_bytes = 2 ^ 26 * 4 * 2"

definition measured :: "u64 \<Rightarrow> EventType \<Rightarrow> EfficiencyClass \<Rightarrow> LedgerEntry" where
  "measured n ev cls = LedgerEntry_default
     \<lparr>e_id := Identity n, e_event := ev, e_classification := cls, e_provenance := Provenance_kMeasured,
      e_account := Identity 3\<rparr>"

definition useful_run :: "u64 \<Rightarrow> u64 \<Rightarrow> u64 \<Rightarrow> u64 \<Rightarrow> LedgerEntry" where
  "useful_run n ns pub att = (measured n EventType_kOutputPublished EfficiencyClass_kUseful)
     \<lparr>e_subcategory := Subcategory_default\<lparr>sc_useful := UsefulReason_kAuthoritativeExecution\<rparr>,
      e_usage := zero_totals(kAcceleratorNanoseconds := ns),
      e_fences := AuthorityFences_default\<lparr>f_publication := Identity pub\<rparr>,
      e_attempt := AttemptOptions_default\<lparr>at_id := Identity att\<rparr>, e_attempt_outcome := AttemptOutcome_kSucceeded\<rparr>"

definition failed_run :: "u64 \<Rightarrow> u64 \<Rightarrow> u64 \<Rightarrow> LedgerEntry" where
  "failed_run n ns att = (measured n EventType_kAttemptFailed EfficiencyClass_kAvoidableWaste)
     \<lparr>e_subcategory := Subcategory_default\<lparr>sc_waste := WasteReason_kFailedAttempt\<rparr>,
      e_usage := zero_totals(kAcceleratorNanoseconds := ns),
      e_attempt := AttemptOptions_default\<lparr>at_id := Identity att\<rparr>, e_attempt_outcome := AttemptOutcome_kFailed\<rparr>"

definition discarded_run :: "u64 \<Rightarrow> u64 \<Rightarrow> LedgerEntry" where
  "discarded_run n ns = (measured n EventType_kExecutionCompleted EfficiencyClass_kAvoidableWaste)
     \<lparr>e_subcategory := Subcategory_default\<lparr>sc_waste := WasteReason_kRecomputation\<rparr>,
      e_usage := zero_totals(kAcceleratorNanoseconds := ns)\<rparr>"

definition reused_state :: "u64 \<Rightarrow> u64 \<Rightarrow> LedgerEntry" where
  "reused_state n ns = (measured n EventType_kStateReused EfficiencyClass_kAvoidedWork)
     \<lparr>e_subcategory := Subcategory_default\<lparr>sc_avoided := AvoidedWorkReason_kKernelReuse\<rparr>,
      e_avoided_work := Some (zero_totals(kAcceleratorNanoseconds := ns))\<rparr>"

definition required_transfer :: "u64 \<Rightarrow> u64 \<Rightarrow> LedgerEntry" where
  "required_transfer n ns = (measured n EventType_kTransferCompleted EfficiencyClass_kNecessaryOverhead)
     \<lparr>e_subcategory := Subcategory_default\<lparr>sc_overhead := OverheadReason_kRequiredTransfer\<rparr>,
      e_usage := zero_totals(kTransferBytes := transfer_bytes, kDeviceNanoseconds := ns),
      e_owners := Owners_default\<lparr>o_transfer := Identity 1\<rparr>\<rparr>"

definition duplicate_transfer :: "u64 \<Rightarrow> u64 \<Rightarrow> LedgerEntry" where
  "duplicate_transfer n ns = (measured n EventType_kTransferDiscarded EfficiencyClass_kAvoidableWaste)
     \<lparr>e_subcategory := Subcategory_default\<lparr>sc_waste := WasteReason_kDuplicateTransfer\<rparr>,
      e_usage := zero_totals(kTransferBytes := transfer_bytes, kDeviceNanoseconds := ns),
      e_owners := Owners_default\<lparr>o_transfer := Identity 2\<rparr>\<rparr>"

section \<open>The main program\<close>

text \<open>Booking an entry takes the next entry number, and a publication and an attempt where it names them.\<close>

definition book :: "AccountId hash_order \<Rightarrow> bool \<Rightarrow> bool \<Rightarrow> (u64 \<Rightarrow> u64 \<Rightarrow> u64 \<Rightarrow> LedgerEntry) \<Rightarrow> cuda_stmt" where
  "book ho publishes attempts entry s =
     (let n = cu_entry s + 1;
          s1 = s\<lparr>cu_entry := n,
                 cu_publication := (if publishes then cu_publication s + 1 else cu_publication s),
                 cu_attempt := (if attempts then cu_attempt s + 1 else cu_attempt s)\<rparr>
      in case append_or_fail ho (entry n (cu_publication s) (cu_attempt s)) (cu_ledger s1) of
           (code, l) \<Rightarrow> (if code \<noteq> 0 then Some 1 else None, s1\<lparr>cu_ledger := l\<rparr>))"

text \<open>\<open>delete[]\<close> of a null pointer does nothing.\<close>

definition host_buffers :: "cuda_env \<Rightarrow> cuda_stmt" where
  "host_buffers env s =
     (case issue env (New HIn) s of (h_in, s1) \<Rightarrow>
        case issue env (New HOut) s1 of (h_out, s2) \<Rightarrow>
          if \<not> h_in \<or> \<not> h_out
          then (Some 1, issue_all env ((if h_in then [Delete HIn] else []) @ (if h_out then [Delete HOut] else [])) s2)
          else (None, s2))"

definition read_baseline :: "cuda_env \<Rightarrow> cuda_stmt" where
  "read_baseline env s = (None, s\<lparr>cu_baseline := free_memory env (cu_trace s)\<rparr>)"

definition cuda_setup :: "cuda_env \<Rightarrow> cuda_stmt" where
  "cuda_setup env =
     (let host = [Delete HIn, Delete HOut]; device = [Free DIn, Free DOut]
      in stmts
        [checked env 1 SetDevice [],
         checked env 1 GetDeviceProperties [],
         ignore env RuntimeGetVersion,
         host_buffers env,
         checked env 1 (Malloc Warm) host,
         checked env 1 (Free Warm) host,
         checked env 1 MemGetInfo host,
         read_baseline env,
         checked env 1 (Malloc DIn) host,
         checked env 1 (Malloc DOut) (Free DIn # host),
         checked env 1 StreamCreate (device @ host),
         ignore env Launch,
         checked env 1 StreamSynchronize (StreamDestroy # device @ host)])"

definition parity :: "cuda_env \<Rightarrow> cuda_stmt" where
  "parity env s = (if mismatches env (cu_trace s) \<noteq> 0 then Some 1 else None, s)"

definition cuda_sections :: "cuda_env \<Rightarrow> AccountId hash_order \<Rightarrow> cuda_stmt list" where
  "cuda_sections env ho =
     [checked env 1 MemcpyHostToDevice [],
      timed (time_kernel env) (\<lambda>t1. stmts
        [checked env 1 MemcpyDeviceToHost [],
         parity env,
         book ho True True (\<lambda>n pub att. useful_run n t1 pub att)]),
      timed (time_kernel env) (\<lambda>t2. book ho False True (\<lambda>n _ att. failed_run n t2 att)),
      timed (time_kernel env) (\<lambda>t3a. timed (time_kernel env) (\<lambda>t3b. stmts
        [book ho False False (\<lambda>n _ _. discarded_run n t3a),
         book ho True True (\<lambda>n pub att. useful_run n t3b pub att)])),
      timed (time_kernel env) (\<lambda>t4. book ho False False (\<lambda>n _ _. reused_state n t4)),
      timed (time_transfer env) (\<lambda>t5. book ho False False (\<lambda>n _ _. required_transfer n t5)),
      timed (time_transfer env) (\<lambda>t5b. book ho False False (\<lambda>n _ _. duplicate_transfer n t5b))]"

definition free_delta :: "u64 \<Rightarrow> u64 \<Rightarrow> u64" where
  "free_delta free_baseline free_after =
     (if free_after > free_baseline then free_after - free_baseline else free_baseline - free_after)"

definition kOneMiB :: u64 where
  "kOneMiB = 2 ^ 20"

definition check_delta :: "cuda_env \<Rightarrow> cuda_stmt" where
  "check_delta env s =
     (if free_delta (cu_baseline s) (free_memory env (cu_trace s)) > kOneMiB
      then (Some 1, issue_all env [StreamDestroy, Delete HIn, Delete HOut] s) else (None, s))"

definition check_closed :: "cuda_env \<Rightarrow> AccountId hash_order \<Rightarrow> cuda_stmt" where
  "check_closed env ho s =
     (if \<not> rc_closed (reconcile ho (cu_ledger s)) then (Some 1, issue_all env [Delete HIn, Delete HOut] s) else (None, s))"

definition cuda_finish :: "cuda_env \<Rightarrow> AccountId hash_order \<Rightarrow> cuda_stmt list" where
  "cuda_finish env ho =
     (let rest = [StreamDestroy, Delete HIn, Delete HOut]
      in [checked env 1 (Free DIn) rest,
          checked env 1 (Free DOut) rest,
          checked env 1 MemGetInfo rest,
          check_delta env,
          checked env 1 StreamDestroy [Delete HIn, Delete HOut],
          check_closed env ho])"

definition cuda_start :: cuda_state where
  "cuda_start = \<lparr>cu_trace = [], cu_ledger = EfficiencyLedger_new kDefaultLedgerId, cu_baseline = 0,
     cu_entry = 0, cu_publication = 100, cu_attempt = 1\<rparr>"

definition cuda_main :: "cuda_env \<Rightarrow> AccountId hash_order \<Rightarrow> nat \<times> cuda_state" where
  "cuda_main env ho =
     (case stmts (cuda_setup env # cuda_sections env ho @ cuda_finish env ho) cuda_start of
        (Some code, s) \<Rightarrow> (code, s)
      | (None, s) \<Rightarrow> (0, issue_all env [Delete HIn, Delete HOut] s))"

section \<open>Reasoning about straight-line code\<close>

text \<open>From a state with \<open>P\<close>, the statement falls through with \<open>Q\<close> or returns a value with \<open>R\<close>.\<close>

definition runs :: "('s \<Rightarrow> bool) \<Rightarrow> ('s \<Rightarrow> 'r option \<times> 's) \<Rightarrow> ('s \<Rightarrow> bool) \<Rightarrow> ('r \<Rightarrow> 's \<Rightarrow> bool) \<Rightarrow> bool" where
  "runs P f Q R \<longleftrightarrow> (\<forall>s. P s \<longrightarrow> (case f s of (None, s') \<Rightarrow> Q s' | (Some r, s') \<Rightarrow> R r s'))"

lemma runs_Nil: "runs P (stmts []) P R"
  by (simp add: runs_def)

lemma runs_Cons: "runs P f Q R \<Longrightarrow> runs Q (stmts fs) Q' R \<Longrightarrow> runs P (stmts (f # fs)) Q' R"
  unfolding runs_def by (fastforce split: prod.splits option.splits)

lemma runs_append: "runs P (stmts fs) Q R \<Longrightarrow> runs Q (stmts gs) Q' R \<Longrightarrow> runs P (stmts (fs @ gs)) Q' R"
  unfolding runs_def stmts_def for_each_append by (fastforce split: prod.splits option.splits)

lemma runs_weaken:
  assumes "runs P f Q R" and "\<And>s. P' s \<Longrightarrow> P s" and "\<And>s. Q s \<Longrightarrow> Q' s" and "\<And>r s. R r s \<Longrightarrow> R' r s"
  shows "runs P' f Q' R'"
  using assms unfolding runs_def by (fastforce split: prod.splits option.splits)

lemma runs_result: "runs P f Q R \<Longrightarrow> P s \<Longrightarrow> f s = (Some r, s') \<Longrightarrow> R r s'"
  and runs_through: "runs P f Q R \<Longrightarrow> P s \<Longrightarrow> f s = (None, s') \<Longrightarrow> Q s'"
  unfolding runs_def by fastforce+

section \<open>What is held\<close>

text \<open>
  What the program holds is computed from the calls it has made. A release whose call fails has not
  taken place: the handle stays held, and counts as leaked. Only \<open>delete[]\<close> cannot fail. Handles are
  counted, since each timer creates events of its own.
\<close>

fun acquired :: "cuda_call \<Rightarrow> handle multiset" where
  "acquired (New h) = {#h#}"
| "acquired (Malloc h) = {#h#}"
| "acquired (EventCreate h) = {#h#}"
| "acquired StreamCreate = {#Stream#}"
| "acquired _ = {#}"

fun released :: "cuda_call \<Rightarrow> handle multiset" where
  "released (Delete h) = {#h#}"
| "released (Free h) = {#h#}"
| "released (EventDestroy h) = {#h#}"
| "released StreamDestroy = {#Stream#}"
| "released _ = {#}"

fun release_failed :: "cuda_call \<times> bool \<Rightarrow> handle multiset" where
  "release_failed (Delete h, ok) = {#}"
| "release_failed (c, ok) = (if ok then {#} else released c)"

definition held_after :: "cuda_trace \<Rightarrow> handle multiset" where
  "held_after tr =
     fold (\<lambda>(c, ok) H. (if ok then H + acquired c else H) - (released c - release_failed (c, ok))) tr {#}"

definition leaked_by :: "cuda_trace \<Rightarrow> handle multiset" where
  "leaked_by tr = (\<Sum>x \<leftarrow> tr. release_failed x)"

definition held :: "cuda_state \<Rightarrow> handle multiset" where
  "held s = held_after (cu_trace s)"

definition leaked :: "cuda_state \<Rightarrow> handle multiset" where
  "leaked s = leaked_by (cu_trace s)"

text \<open>Besides what could not be released, the program holds \<open>H\<close>; and what could not be released are events.\<close>

definition on_hand :: "handle multiset \<Rightarrow> cuda_state \<Rightarrow> bool" where
  "on_hand H s \<longleftrightarrow> held s = H + leaked s"

definition events_only :: "cuda_state \<Rightarrow> bool" where
  "events_only s \<longleftrightarrow> set_mset (leaked s) \<subseteq> {Start, Stop}"

lemmas held_defs = held_def leaked_def held_after_def leaked_by_def on_hand_def events_only_def

lemma on_hand_fields [simp]:
  "on_hand H (s\<lparr>cu_ledger := l\<rparr>) = on_hand H s" "on_hand H (s\<lparr>cu_baseline := b\<rparr>) = on_hand H s"
  "on_hand H (s\<lparr>cu_entry := x\<rparr>) = on_hand H s" "on_hand H (s\<lparr>cu_publication := y\<rparr>) = on_hand H s"
  "on_hand H (s\<lparr>cu_attempt := z\<rparr>) = on_hand H s"
  "events_only (s\<lparr>cu_ledger := l\<rparr>) = events_only s" "events_only (s\<lparr>cu_baseline := b\<rparr>) = events_only s"
  "events_only (s\<lparr>cu_entry := x\<rparr>) = events_only s" "events_only (s\<lparr>cu_publication := y\<rparr>) = events_only s"
  "events_only (s\<lparr>cu_attempt := z\<rparr>) = events_only s"
  by (simp_all add: held_defs)

lemma acquired_or_released: "acquired c = {#} \<or> released c = {#}"
  by (cases c) simp_all

lemma release_failed_cases: "release_failed (c, ok) = {#} \<or> release_failed (c, ok) = released c \<and> \<not> ok"
  by (cases c) simp_all

lemma on_hand_issue:
  assumes "issue env c s = (ok, s')" and "on_hand H s" and "released c \<subseteq># H"
  shows "on_hand ((if ok then H + acquired c else H) - released c) s'"
  using acquired_or_released [of c] release_failed_cases [of c ok] assms
  by (auto simp: held_defs issue_def Let_def ac_simps)

lemma events_only_issue:
  assumes "issue env c s = (ok, s')" and "events_only s" and "ok \<or> set_mset (released c) \<subseteq> {Start, Stop}"
  shows "events_only s'"
proof -
  have "leaked s' = leaked s + release_failed (c, ok)"
    using assms(1) by (auto simp: leaked_def leaked_by_def issue_def Let_def)
  then show ?thesis
    using release_failed_cases [of c ok] assms(2,3) by (auto simp: events_only_def)
qed

lemma issue_all_simps [simp]:
  "issue_all env [] s = s" "issue_all env (c # cs) s = issue_all env cs (snd (issue env c s))"
  by (simp_all add: issue_all_def)

lemma on_hand_issue_all:
  assumes "on_hand H s" and "\<forall>c \<in> set cs. acquired c = {#}" and "(\<Sum>c \<leftarrow> cs. released c) \<subseteq># H"
  shows "on_hand (H - (\<Sum>c \<leftarrow> cs. released c)) (issue_all env cs s)"
  using assms
proof (induction cs arbitrary: s H)
  case (Cons c cs)
  obtain ok s' where i: "issue env c s = (ok, s')" by fastforce
  have le: "count (released c) a + count (\<Sum>c \<leftarrow> cs. released c) a \<le> count H a" for a
    using Cons.prems(3) by (simp add: subseteq_mset_def)
  have r: "released c \<subseteq># H" "(\<Sum>c \<leftarrow> cs. released c) \<subseteq># H - released c"
    by (rule mset_subset_eqI, use le in \<open>force dest: add_leD1\<close>) (rule mset_subset_eqI, simp add: le_diff_conv2 [OF add_leD1 [OF le]] add.commute le)
  have "on_hand (H - released c) s'"
    using on_hand_issue [OF i Cons.prems(1) r(1)] Cons.prems(2) by (cases ok) simp_all
  with Cons.IH [of "H - released c" s'] Cons.prems(2) r(2) i show ?case
    by simp
qed simp

lemma events_only_issue_all:
  assumes "events_only s" and "\<forall>c \<in> set cs. set_mset (released c) \<subseteq> {Start, Stop}"
  shows "events_only (issue_all env cs s)"
  using assms
proof (induction cs arbitrary: s)
  case (Cons c cs)
  obtain ok s' where "issue env c s = (ok, s')" by fastforce
  with Cons events_only_issue [OF this] show ?case by simp
qed simp

text \<open>The rules by which the statements of the program are stepped through.\<close>

definition steady :: "handle multiset \<Rightarrow> cuda_state \<Rightarrow> bool" where
  "steady H s \<longleftrightarrow> on_hand H s \<and> events_only s"

definition left_with :: "'r \<Rightarrow> handle multiset set \<Rightarrow> 'r \<Rightarrow> cuda_state \<Rightarrow> bool" where
  "left_with r K x s \<longleftrightarrow> x = r \<and> (\<exists>H \<in> K. on_hand H s)"

lemma checked_step:
  assumes "\<forall>c \<in> set cleanup. acquired c = {#}" and "released c \<subseteq># H"
    and "(\<Sum>c \<leftarrow> cleanup. released c) \<subseteq># H - released c"
    and "H - released c - (\<Sum>c \<leftarrow> cleanup. released c) \<in> K"
    and "runs (steady (H + acquired c - released c)) (stmts fs) Q (left_with r K)"
  shows "runs (steady H) (stmts (checked env r c cleanup # fs)) Q (left_with r K)"
proof (rule runs_Cons [OF _ assms(5)])
  show "runs (steady H) (checked env r c cleanup) (steady (H + acquired c - released c)) (left_with r K)"
    unfolding runs_def
  proof (intro allI impI)
    fix s assume h: "steady H s"
    obtain ok s' where i: "issue env c s = (ok, s')" by fastforce
    have s': "on_hand ((if ok then H + acquired c else H) - released c) s'"
      using on_hand_issue [OF i _ assms(2)] h by (simp add: steady_def)
    show "case checked env r c cleanup s of (None, s') \<Rightarrow> steady (H + acquired c - released c) s' | (Some x, s') \<Rightarrow> left_with r K x s'"
    proof (cases ok)
      case True
      then show ?thesis
        using s' events_only_issue [OF i] h by (simp add: checked_def i steady_def)
    next
      case False
      then have "on_hand (H - released c - (\<Sum>c \<leftarrow> cleanup. released c)) (issue_all env (GetLastError # cleanup) s')"
        using on_hand_issue_all [of "H - released c" s' "GetLastError # cleanup" env] assms(1,3) s' by simp
      with False assms(4) show ?thesis by (auto simp: checked_def i left_with_def simp del: issue_all_simps)
    qed
  qed
qed

lemma ignore_step:
  assumes "acquired c = {#}" and "released c = {#}" and "runs (steady H) (stmts fs) Q R"
  shows "runs (steady H) (stmts (ignore env c # fs)) Q R"
proof (rule runs_Cons [OF _ assms(3)])
  have "steady H (issue_all env [c] s)" if "steady H s" for s
    using on_hand_issue_all [of H s "[c]" env] events_only_issue_all [of s "[c]" env] that assms(1,2)
    by (simp add: steady_def)
  then show "runs (steady H) (ignore env c) (steady H) R" by (simp add: runs_def ignore_def)
qed

lemma final_step: "(\<And>s. P s \<Longrightarrow> Q s) \<Longrightarrow> runs P (stmts []) Q R"
  by (simp add: runs_def)

section \<open>The timers release their events\<close>

lemma timed_run_held:
  assumes "runs (steady H) (stmts body) (steady (H + {#Start, Stop#})) (left_with TimedRun_default {H})"
    and "steady H s" and "timed_run env body s = (tr, s')"
  shows "if tr_ok tr then steady H s' else on_hand H s'"
proof (cases "stmts body s")
  case (Pair r s1)
  show ?thesis
  proof (cases r)
    case None
    with Pair have "steady (H + {#Start, Stop#}) s1" using runs_through [OF assms(1,2)] by blast
    moreover have "s' = issue_all env [EventDestroy Start, EventDestroy Stop] s1" "tr_ok tr"
      using Pair None assms(3) by (auto simp: timed_run_def simp del: issue_all_simps)
    ultimately show ?thesis
      using on_hand_issue_all [of "H + {#Start, Stop#}" s1 "[EventDestroy Start, EventDestroy Stop]" env]
        events_only_issue_all [of s1 "[EventDestroy Start, EventDestroy Stop]" env]
      by (simp add: steady_def del: issue_all_simps)
  next
    case (Some x)
    with Pair have "left_with TimedRun_default {H} x s1" using runs_result [OF assms(1,2)] by blast
    with Pair Some assms(3) show ?thesis by (simp add: timed_run_def left_with_def TimedRun_default_def)
  qed
qed

lemma timers_held:
  "steady H s \<Longrightarrow> time_kernel env s = (tr, s') \<Longrightarrow> if tr_ok tr then steady H s' else on_hand H s'"
  "steady H s \<Longrightarrow> time_transfer env s = (tr, s') \<Longrightarrow> if tr_ok tr then steady H s' else on_hand H s'"
proof -
  note steps = checked_step ignore_step final_step
  show "if tr_ok tr then steady H s' else on_hand H s'" if "steady H s" "time_kernel env s = (tr, s')"
    by (rule timed_run_held [OF _ that [unfolded time_kernel_def Let_def]], intro steps) (simp_all add: add_mset_commute)
  show "if tr_ok tr then steady H s' else on_hand H s'" if "steady H s" "time_transfer env s = (tr, s')"
    by (rule timed_run_held [OF _ that [unfolded time_transfer_def Let_def]], intro steps) (simp_all add: add_mset_commute)
qed

lemma timed_runs:
  assumes "H \<in> K" and "\<And>ns. runs (steady H) (body ns) Q (left_with 1 K)"
  shows "runs (steady H) (timed (time_kernel env) body) Q (left_with 1 K)"
    and "runs (steady H) (timed (time_transfer env) body) Q (left_with 1 K)"
proof -
  have "runs (steady H) (timed timer body) Q (left_with 1 K)"
    if held: "\<And>s tr s'. steady H s \<Longrightarrow> timer s = (tr, s') \<Longrightarrow> if tr_ok tr then steady H s' else on_hand H s'" for timer
    unfolding runs_def
  proof (intro allI impI)
    fix s assume "steady H s"
    moreover obtain tr s' where t: "timer s = (tr, s')" by fastforce
    ultimately have "if tr_ok tr then steady H s' else on_hand H s'" by (rule held)
    then show "case timed timer body s of (None, s') \<Rightarrow> Q s' | (Some r, s') \<Rightarrow> left_with 1 K r s'"
      using assms(2) [of "tr_ns tr"] assms(1) t by (cases "tr_ok tr") (auto simp: timed_def runs_def left_with_def simp del: One_nat_def)
  qed
  then show "runs (steady H) (timed (time_kernel env) body) Q (left_with 1 K)"
    "runs (steady H) (timed (time_transfer env) body) Q (left_with 1 K)"
    using timers_held by blast+
qed

section \<open>What the program holds when it ends\<close>

text \<open>Until the sections begin, every error path releases everything.\<close>

definition working_set :: "handle multiset" where
  "working_set = {#HIn, HOut, DIn, DOut, Stream#}"

lemma host_buffers_held:
  assumes "H = {#}" and "{#} \<in> K" and "runs (steady {#HIn, HOut#}) (stmts fs) Q (left_with 1 K)"
  shows "runs (steady H) (stmts (host_buffers env # fs)) Q (left_with 1 K)"
proof (rule runs_Cons [OF _ assms(3)])
  show "runs (steady H) (host_buffers env) (steady {#HIn, HOut#}) (left_with 1 K)"
    unfolding runs_def
  proof (intro allI impI)
    fix s assume "steady H s"
    then have h: "steady {#} s" by (simp add: assms(1))
    obtain h_in s1 where one: "issue env (New HIn) s = (h_in, s1)" by fastforce
    obtain h_out s2 where two: "issue env (New HOut) s1 = (h_out, s2)" by fastforce
    have s1: "on_hand (if h_in then {#HIn#} else {#}) s1" "events_only s1"
      using on_hand_issue [OF one, of "{#}"] events_only_issue [OF one] h by (auto simp: steady_def)
    have s2: "on_hand ((if h_in then {#HIn#} else {#}) + (if h_out then {#HOut#} else {#})) s2"
      using on_hand_issue [OF two s1(1)] by auto
    have "events_only s2" if "h_in \<and> h_out"
      using events_only_issue [OF two s1(2)] that by auto
    moreover have "on_hand {#} (issue_all env ((if h_in then [Delete HIn] else []) @ (if h_out then [Delete HOut] else [])) s2)"
      using on_hand_issue_all [OF s2, of "(if h_in then [Delete HIn] else []) @ (if h_out then [Delete HOut] else [])" env]
      by (cases h_in; cases h_out; simp del: issue_all_simps)
    ultimately show "case host_buffers env s of (None, s') \<Rightarrow> steady {#HIn, HOut#} s' | (Some r, s') \<Rightarrow> left_with 1 K r s'"
      using s2 assms(2) by (cases h_in; cases h_out) (simp_all add: host_buffers_def one two steady_def left_with_def bexI [of _ "{#}"] add_mset_commute del: issue_all_simps)
  qed
qed

lemma baseline_step:
  "runs (steady H) (stmts fs) Q R \<Longrightarrow> runs (steady H) (stmts (read_baseline env # fs)) Q R"
  by (rule runs_Cons) (simp_all add: runs_def read_baseline_def steady_def)

lemma setup_held:
  "runs (steady {#}) (cuda_setup env) (steady working_set) (left_with 1 {{#}})"
  unfolding cuda_setup_def Let_def
  by (intro host_buffers_held baseline_step checked_step ignore_step final_step) (simp_all add: working_set_def add_mset_commute del: One_nat_def)

text \<open>The sections keep what they hold, on every path.\<close>

lemma book_runs: "H \<in> K \<Longrightarrow> runs (steady H) (book ho p a entry) (steady H) (left_with 1 K)"
  by (auto simp: runs_def book_def Let_def steady_def left_with_def split: prod.splits)

lemma parity_runs: "H \<in> K \<Longrightarrow> runs (steady H) (parity env) (steady H) (left_with 1 K)"
  by (auto simp: runs_def parity_def steady_def left_with_def)

lemma sections_held:
  "runs (steady working_set) (stmts (cuda_sections env ho)) (steady working_set) (left_with 1 {working_set})"
proof -
  have copy: "runs (steady working_set) (stmts (checked env 1 c [] # fs)) Q (left_with 1 {working_set})"
    if "acquired c = {#}" "released c = {#}" "runs (steady working_set) (stmts fs) Q (left_with 1 {working_set})" for c fs Q
    using that by (intro checked_step) simp_all
  show ?thesis
    unfolding cuda_sections_def
    by (rule copy runs_Cons [OF timed_runs(1)] runs_Cons [OF timed_runs(2)] timed_runs runs_Cons [OF book_runs]
        runs_Cons [OF parity_runs] book_runs runs_Nil singletonI acquired.simps released.simps)+
qed

text \<open>At the end, a failing \<open>cudaFree\<close> of the first buffer leaves the second behind as well.\<close>

lemma release_step:
  assumes "(\<Sum>c \<leftarrow> cs. released c) \<subseteq># H" and "\<forall>c \<in> set cs. acquired c = {#}" and "H - (\<Sum>c \<leftarrow> cs. released c) \<in> K"
    and "runs (steady H) (stmts fs) Q (left_with 1 K)"
  shows "runs (steady H) (stmts ((\<lambda>s. if bad s then (Some 1, issue_all env cs s) else (None, s)) # fs)) Q (left_with 1 K)"
  by (rule runs_Cons [OF _ assms(4)])
    (use assms(1-3) on_hand_issue_all [OF _ assms(2,1)] in \<open>auto simp: runs_def steady_def left_with_def simp del: issue_all_simps\<close>)

lemma delta_step:
  assumes "{#Stream, HIn, HOut#} \<subseteq># H" and "H - {#Stream, HIn, HOut#} \<in> K" and "runs (steady H) (stmts fs) Q (left_with 1 K)"
  shows "runs (steady H) (stmts (check_delta env # fs)) Q (left_with 1 K)"
  unfolding check_delta_def [abs_def] by (rule release_step) (use assms in \<open>simp_all add: add_mset_commute\<close>)

lemma closed_step:
  assumes "{#HIn, HOut#} \<subseteq># H" and "H - {#HIn, HOut#} \<in> K" and "runs (steady H) (stmts fs) Q (left_with 1 K)"
  shows "runs (steady H) (stmts (check_closed env ho # fs)) Q (left_with 1 K)"
  unfolding check_closed_def [abs_def] by (rule release_step) (use assms in \<open>simp_all add: add_mset_commute\<close>)

lemma finish_held:
  "runs (steady working_set) (stmts (cuda_finish env ho)) (steady {#HIn, HOut#}) (left_with 1 {{#}, {#DOut#}})"
  unfolding cuda_finish_def Let_def
  by (intro delta_step closed_step checked_step final_step) (auto simp: working_set_def)

lemma cuda_main_held:
  assumes "cuda_main env ho = (code, s)"
  shows "code = 0 \<and> held s = leaked s \<and> events_only s \<or>
    code = 1 \<and> (\<exists>H \<in> {{#}, working_set, {#DOut#}}. held s = H + leaked s)"
proof -
  let ?body = "cuda_setup env # cuda_sections env ho @ cuda_finish env ho"
  let ?R = "left_with 1 {{#}, working_set, {#DOut#}}"
  have "runs (steady {#}) (stmts ?body) (steady {#HIn, HOut#}) ?R"
    by (intro runs_Cons [OF runs_weaken [OF setup_held]] runs_append [OF runs_weaken [OF sections_held] runs_weaken [OF finish_held]])
      (auto simp: left_with_def)
  note run = runs_result [OF this] runs_through [OF this]
  have start: "steady {#} cuda_start" by (simp add: steady_def held_defs cuda_start_def)
  show ?thesis
  proof (cases "stmts ?body cuda_start")
    case (Pair r s')
    show ?thesis
    proof (cases r)
      case None
      with Pair have "steady {#HIn, HOut#} s'" using run(2) [OF start] by blast
      then have "steady {#} (issue_all env [Delete HIn, Delete HOut] s')"
        using on_hand_issue_all [of "{#HIn, HOut#}" s' "[Delete HIn, Delete HOut]" env]
        by (simp add: steady_def events_only_def leaked_def leaked_by_def issue_def Let_def)
      moreover have "code = 0" "s = issue_all env [Delete HIn, Delete HOut] s'"
        using assms unfolding cuda_main_def Pair None by (simp_all only: prod.case option.case prod.inject)
      ultimately show ?thesis by (simp add: steady_def on_hand_def del: issue_all_simps)
    next
      case (Some x)
      with Pair have "?R x s'" using run(1) [OF start] by blast
      moreover have "code = x" "s = s'"
        using assms unfolding cuda_main_def Pair Some by (simp_all only: prod.case option.case prod.inject)
      ultimately show ?thesis by (simp add: left_with_def on_hand_def)
    qed
  qed
qed
section \<open>What the timers measure\<close>

text \<open>The work between the last two events: what the device did from the start event to the stop event.\<close>

definition timed_work :: "cuda_trace \<Rightarrow> cuda_call list" where
  "timed_work tr = snd (fold (\<lambda>(c, _) (running, work).
     if c = EventRecord Start then (True, [])
     else if c = EventRecord Stop then (False, work)
     else if running \<and> c \<in> {Launch, MemcpyHostToDevice, MemcpyDeviceToHost} then (running, work @ [c])
     else (running, work)) tr (False, []))"

text \<open>All measurements of a run, in order, each with the work it timed.\<close>

fun measurements_from :: "cuda_env \<Rightarrow> cuda_trace \<Rightarrow> cuda_trace \<Rightarrow> (cuda_call list \<times> u64) list" where
  "measurements_from env before [] = []"
| "measurements_from env before (x # tr) =
     (if x = (EventElapsedTime, True) then [(timed_work before, elapsed_ns env (before @ [x]))] else []) @
     measurements_from env (before @ [x]) tr"

definition measurements :: "cuda_env \<Rightarrow> cuda_trace \<Rightarrow> (cuda_call list \<times> u64) list" where
  "measurements env tr = measurements_from env [] tr"

lemma measurements_from_append:
  "measurements_from env before (tr @ tr') = measurements_from env before tr @ measurements_from env (before @ tr) tr'"
  by (induction tr arbitrary: before) simp_all

lemma measurements_append: "measurements env (tr @ tr') = measurements env tr @ measurements_from env tr tr'"
  by (simp add: measurements_def measurements_from_append)

lemma measurements_snoc [simp]: "c \<noteq> EventElapsedTime \<Longrightarrow> measurements env (tr @ [(c, ok)]) = measurements env tr"
  by (simp add: measurements_append)

section \<open>The books of the hardware proof\<close>

record cuda_times =
  t1_ns :: u64
  t2_ns :: u64
  t3a_ns :: u64
  t3b_ns :: u64
  t4_ns :: u64
  t5_ns :: u64
  t5b_ns :: u64

definition cuda_entries :: "cuda_times \<Rightarrow> LedgerEntry list" where
  "cuda_entries t =
     [useful_run 1 (t1_ns t) 100 1, failed_run 2 (t2_ns t) 2, discarded_run 3 (t3a_ns t), useful_run 4 (t3b_ns t) 101 3,
      reused_state 5 (t4_ns t), required_transfer 6 (t5_ns t), duplicate_transfer 7 (t5b_ns t)]"

lemmas cuda_entry_defs =
  useful_run_def failed_run_def discarded_run_def reused_state_def required_transfer_def duplicate_transfer_def
  measured_def client_entry_defs

text \<open>No measurement exceeds \<open>2 ^ 61\<close> nanoseconds, which is 73 years; the sums then fit a counter.\<close>

definition times_ok :: "cuda_times \<Rightarrow> bool" where
  "times_ok t \<longleftrightarrow> list_all (\<lambda>ns. unat ns \<le> 2 ^ 61) [t1_ns t, t2_ns t, t3a_ns t, t3b_ns t, t4_ns t, t5_ns t, t5b_ns t]"

lemma cuda_admissible:
  "\<forall>e \<in> set (cuda_entries t). entry_admissible (EfficiencyLedger_new lid) e"
  by (simp add: cuda_entries_def cuda_entry_defs entry_check_defs fun_eq_iff)

lemma cuda_run_ok:
  assumes "times_ok t"
  shows "run_ok (cuda_entries t)"
proof -
  have "unat (t1_ns t) + unat (t2_ns t) + unat (t3a_ns t) + unat (t3b_ns t) + unat (t4_ns t) < 18446744073709551616"
    "unat (t5_ns t) + unat (t5b_ns t) < 18446744073709551616"
    using assms by (simp_all add: times_ok_def)
  then have "(\<Sum>e \<leftarrow> cuda_entries t. demand e d) < 18446744073709551616" for d
    by (cases d) (simp_all add: cuda_entries_def cuda_entry_defs demand_def transfer_bytes_def)
  then show ?thesis
    by (simp add: run_ok_def cuda_entries_def cuda_entry_defs has_attempt_def completes_transfer_def
        releases_reservation_def releases_allocation_def ends_recovery_def)
qed

lemma cuda_totals:
  "book_totals (cuda_entries t) (Identity 3) f d = int (\<Sum>e \<leftarrow> cuda_entries t. attributed e (Identity 3) f d)"
  by (intro book_totals_ordinary) (simp add: cuda_entries_def cuda_entry_defs)

text \<open>After \<open>k\<close> bookings, the ledger has accepted the first \<open>k\<close> entries and the counters stand at the next numbers.\<close>

definition booked :: "AccountId hash_order \<Rightarrow> nat \<Rightarrow> u64 \<Rightarrow> u64 \<Rightarrow> cuda_times \<Rightarrow> cuda_state \<Rightarrow> bool" where
  "booked ho k pub att t s \<longleftrightarrow> times_ok t \<and>
     append_all ho (take k (cuda_entries t)) (EfficiencyLedger_new kDefaultLedgerId) = (Status_success, cu_ledger s) \<and>
     cu_entry s = word_of_nat k \<and> cu_publication s = pub \<and> cu_attempt s = att"

lemma run_ok_take: "run_ok es \<Longrightarrow> run_ok (take k es)"
proof (induction es rule: rev_induct)
  case (snoc e es)
  then show ?case using run_ok_snoc(1) [of es e] by (cases "k \<le> length es") simp_all
qed simp

lemma book_booked:
  assumes "booked ho k pub att t s" and "times_ok t'" and "take k (cuda_entries t') = take k (cuda_entries t)"
    and "k < 7" and "cuda_entries t' ! k = entry (word_of_nat k + 1) pub att"
  shows "\<exists>s'. book ho p a entry s = (None, s') \<and>
    booked ho (Suc k) (if p then pub + 1 else pub) (if a then att + 1 else att) t' s' \<and> cu_trace s' = cu_trace s \<and> cu_baseline s' = cu_baseline s"
proof -
  let ?new = "EfficiencyLedger_new kDefaultLedgerId" and ?e = "cuda_entries t' ! k"
  have len: "k < length (cuda_entries t')" using assms(4) by (simp add: cuda_entries_def)
  have "run_ok (take (Suc k) (cuda_entries t'))" by (intro run_ok_take cuda_run_ok assms(2))
  moreover have "\<forall>e \<in> set (take (Suc k) (cuda_entries t')). entry_admissible ?new e"
    using cuda_admissible by (auto dest: in_set_takeD)
  ultimately obtain l where all: "append_all ho (take (Suc k) (cuda_entries t')) ?new = (Status_success, l)"
    by (rule client_run) blast
  have before: "append_all ho (take k (cuda_entries t')) ?new = (Status_success, cu_ledger s)"
    using assms(1,3) by (simp add: booked_def)
  obtain st l' where app: "append_locked ho ?e (cu_ledger s) = (st, l')" by fastforce
  with all before have "Status_ok st" "l' = l"
    unfolding take_Suc_conv_app_nth [OF len] append_all_append
    by (auto simp: Status_ok_def Status_success_def split: if_splits)
  then show ?thesis
    using assms all app by (auto simp: book_def Let_def append_or_fail_def booked_def)
qed

section \<open>A runtime that works\<close>

text \<open>
  Once the context has been warmed up, the free memory is the same, up to a MiB, whenever none of the
  device buffers is held.
\<close>

definition settled :: "cuda_trace \<Rightarrow> bool" where
  "settled tr \<longleftrightarrow> (Malloc Warm, True) \<in> set tr \<and> Warm \<notin># held_after tr \<and> DIn \<notin># held_after tr \<and> DOut \<notin># held_after tr"

definition works :: "cuda_env \<Rightarrow> bool" where
  "works env \<longleftrightarrow> (\<forall>tr c. cuda_answers env tr c) \<and> (\<forall>tr. mismatches env tr = 0) \<and> (\<forall>tr. unat (elapsed_ns env tr) \<le> 2 ^ 61) \<and>
     (\<forall>tr tr'. settled tr \<and> settled tr' \<longrightarrow> free_delta (free_memory env tr) (free_memory env tr') \<le> kOneMiB)"

text \<open>The times of the entries, from the measurements of the run; what has not been measured yet is 0.\<close>

definition times_of :: "(cuda_call list \<times> u64) list \<Rightarrow> cuda_times" where
  "times_of ms = (let time = (\<lambda>i. if i < length ms then snd (ms ! i) else 0)
     in \<lparr>t1_ns = time 0, t2_ns = time 1, t3a_ns = time 2, t3b_ns = time 3, t4_ns = time 4, t5_ns = time 5, t5b_ns = time 6\<rparr>)"

lemma times_of_ok:
  assumes "works env" and "set (map snd ms) \<subseteq> range (elapsed_ns env)"
  shows "times_ok (times_of ms)"
proof -
  have "unat (if i < length ms then snd (ms ! i) else 0) \<le> 2 ^ 61" for i
  proof (cases "i < length ms")
    case True
    then have "snd (ms ! i) \<in> range (elapsed_ns env)" using assms(2) by (force dest: nth_mem)
    with assms(1) True show ?thesis by (auto simp: works_def)
  qed simp
  then show ?thesis
    unfolding times_ok_def times_of_def Let_def by (simp only: list.pred_inject cuda_times.simps simp_thms)
qed

lemma measurements_range: "set (map snd (measurements env tr)) \<subseteq> range (elapsed_ns env)"
proof -
  have "set (map snd (measurements_from env before tr)) \<subseteq> range (elapsed_ns env)" for before
    by (induction tr arbitrary: before) auto
  then show ?thesis by (simp add: measurements_def)
qed

text \<open>
  After the measurements \<open>ms\<close> and \<open>k\<close> bookings: the ledger has accepted the first \<open>k\<close> entries with the
  times that were measured for them.
\<close>

definition on_books :: "cuda_env \<Rightarrow> AccountId hash_order \<Rightarrow> nat \<Rightarrow> u64 \<Rightarrow> u64 \<Rightarrow> (cuda_call list \<times> u64) list \<Rightarrow> cuda_state \<Rightarrow> bool" where
  "on_books env ho k pub att ms s \<longleftrightarrow> measurements env (cu_trace s) = ms \<and> booked ho k pub att (times_of ms) s \<and>
     list_all snd (cu_trace s) \<and> (Malloc Warm, True) \<in> set (cu_trace s) \<and> (\<exists>tr. cu_baseline s = free_memory env tr \<and> settled tr)"

definition on_books_after :: "cuda_env \<Rightarrow> AccountId hash_order \<Rightarrow> nat \<Rightarrow> u64 \<Rightarrow> u64 \<Rightarrow> cuda_call list list \<Rightarrow> cuda_state \<Rightarrow> bool" where
  "on_books_after env ho k pub att work s \<longleftrightarrow> (\<exists>ms. map fst ms = work \<and> on_books env ho k pub att ms s)"

lemma runs_after:
  assumes "\<And>ms. map fst ms = work \<Longrightarrow> length ms = length work \<Longrightarrow> runs (on_books env ho k pub att ms) f Q R"
  shows "runs (on_books_after env ho k pub att work) f Q R"
  unfolding runs_def on_books_after_def
proof (intro allI impI, elim exE conjE)
  fix s ms assume "map fst ms = work" "on_books env ho k pub att ms s"
  moreover from this(1) have "length ms = length work" by (metis length_map)
  ultimately show "case f s of (None, s') \<Rightarrow> Q s' | (Some r, s') \<Rightarrow> R r s'"
    using assms by (simp add: runs_def)
qed

lemma after_runs:
  assumes "runs P f (on_books env ho k pub att ms) R" and "map fst ms = work"
  shows "runs P f (on_books_after env ho k pub att work) R"
  by (rule runs_weaken [OF assms(1)]) (use assms(2) in \<open>auto simp: on_books_after_def\<close>)

lemma on_books_issue:
  "works env \<Longrightarrow> c \<noteq> EventElapsedTime \<Longrightarrow> on_books env ho k pub att ms s \<Longrightarrow> on_books env ho k pub att ms (snd (issue env c s))"
  by (simp add: on_books_def booked_def issue_def works_def Let_def)

lemma works_issue: "works env \<Longrightarrow> issue env c s = (True, s\<lparr>cu_trace := cu_trace s @ [(c, True)]\<rparr>)"
  by (simp add: works_def issue_def Let_def)

lemma works_checked: "works env \<Longrightarrow> checked env r c cl s = (None, s\<lparr>cu_trace := cu_trace s @ [(c, True)]\<rparr>)"
  unfolding checked_def by (simp add: works_issue)

lemma works_ignore: "works env \<Longrightarrow> ignore env c s = (None, s\<lparr>cu_trace := cu_trace s @ [(c, True)]\<rparr>)"
  by (simp add: ignore_def works_issue)

lemma works_stmts:
  assumes "works env"
  shows "c \<noteq> EventElapsedTime \<Longrightarrow> runs (on_books env ho k pub att ms) (checked env r c cl) (on_books env ho k pub att ms) R"
    and "runs (on_books env ho k pub att ms) (parity env) (on_books env ho k pub att ms) R"
  using assms on_books_issue [OF assms, of c ho k pub att ms]
  by (simp_all add: runs_def works_checked works_issue parity_def works_def)

definition kernel_work :: "cuda_call list" where
  "kernel_work = [Launch]"

definition transfer_work :: "cuda_call list" where
  "transfer_work = [MemcpyHostToDevice, MemcpyDeviceToHost]"

text \<open>A timer adds the calls of its body, and its result is the time measured for the work in it.\<close>

definition measures :: "cuda_env \<Rightarrow> cuda_call list \<Rightarrow> (cuda_state \<Rightarrow> TimedRun \<times> cuda_state) \<Rightarrow> bool" where
  "measures env work timer \<longleftrightarrow> (\<forall>s. \<exists>ns tr.
     timer s = (\<lparr>tr_ok = True, tr_ns = ns\<rparr>, s\<lparr>cu_trace := cu_trace s @ tr\<rparr>) \<and> list_all snd tr \<and>
     measurements env (cu_trace s @ tr) = measurements env (cu_trace s) @ [(work, ns)])"

lemma works_timers:
  assumes "works env"
  shows "measures env kernel_work (time_kernel env)" and "measures env transfer_work (time_transfer env)"
proof -
  note simps = measures_def timed_run_def works_checked [OF assms] works_ignore [OF assms] works_issue [OF assms]
    Let_def measurements_append timed_work_def kernel_work_def transfer_work_def
  show "measures env kernel_work (time_kernel env)"
    by (auto simp: simps time_kernel_def split: prod.splits)
  show "measures env transfer_work (time_transfer env)"
    by (auto simp: simps time_transfer_def split: prod.splits)
qed

lemma times_of_take:
  assumes "k \<le> length ms"
  shows "take k (cuda_entries (times_of (ms @ [m]))) = take k (cuda_entries (times_of ms))"
proof (rule nth_equalityI)
  fix i assume "i < length (take k (cuda_entries (times_of (ms @ [m]))))"
  then have i: "i < 7" "i < length ms" "i < k" using assms by (simp_all add: cuda_entries_def)
  then have "cuda_entries (times_of (ms @ [m])) ! i = cuda_entries (times_of ms) ! i"
    by (auto simp: numeral_eq_Suc less_Suc_eq cuda_entries_def times_of_def nth_append)
  with i show "take k (cuda_entries (times_of (ms @ [m]))) ! i = take k (cuda_entries (times_of ms)) ! i" by simp
qed (simp add: cuda_entries_def)

lemma works_timed:
  assumes "works env" and "k \<le> length ms" and "measures env work timer"
    and body: "\<And>ns. runs (on_books env ho k pub att (ms @ [(work, ns)])) (body ns) Q R"
  shows "runs (on_books env ho k pub att ms) (timed timer body) Q R"
  unfolding runs_def
proof (intro allI impI)
  fix s assume b: "on_books env ho k pub att ms s"
  obtain ns tr where t: "timer s = (\<lparr>tr_ok = True, tr_ns = ns\<rparr>, s\<lparr>cu_trace := cu_trace s @ tr\<rparr>)" "list_all snd tr"
    "measurements env (cu_trace s @ tr) = ms @ [(work, ns)]"
    using assms(3) b unfolding measures_def on_books_def by metis
  have "times_ok (times_of (ms @ [(work, ns)]))"
    using times_of_ok [OF assms(1) measurements_range] t(3) by metis
  then have "on_books env ho k pub att (ms @ [(work, ns)]) (s\<lparr>cu_trace := cu_trace s @ tr\<rparr>)"
    using b t(2,3) times_of_take [OF assms(2)] by (auto simp: on_books_def booked_def)
  with body [of ns] t(1) show "case timed timer body s of (None, s') \<Rightarrow> Q s' | (Some r, s') \<Rightarrow> R r s'"
    by (simp add: timed_def runs_def)
qed

lemma works_book:
  assumes "k < 7" and "cuda_entries (times_of ms) ! k = entry (word_of_nat k + 1) pub att"
    and "k' = Suc k" and "pub' = (if p then pub + 1 else pub)" and "att' = (if a then att + 1 else att)"
  shows "runs (on_books env ho k pub att ms) (book ho p a entry) (on_books env ho k' pub' att' ms) R"
  unfolding runs_def
proof (intro allI impI)
  fix s assume "on_books env ho k pub att ms s"
  then have t: "booked ho k pub att (times_of ms) s" "measurements env (cu_trace s) = ms" "list_all snd (cu_trace s)"
    "(Malloc Warm, True) \<in> set (cu_trace s)" "\<exists>tr. cu_baseline s = free_memory env tr \<and> settled tr"
    by (auto simp: on_books_def)
  then have "times_ok (times_of ms)" by (simp add: booked_def)
  from book_booked [where p = p and a = a, OF t(1) this refl assms(1), of entry] assms(2) obtain s' where
    "book ho p a entry s = (None, s')" "booked ho k' pub' att' (times_of ms) s'" "cu_trace s' = cu_trace s" "cu_baseline s' = cu_baseline s"
    by (auto simp: assms(3-5))
  with t(2-5) show "case book ho p a entry s of (None, s') \<Rightarrow> on_books env ho k' pub' att' ms s' | (Some r, s') \<Rightarrow> R r s'"
    by (auto simp: on_books_def)
qed


text \<open>The whole run: every section books what its own timer has measured.\<close>

lemma entry_measured:
  "0 < length ms \<Longrightarrow> cuda_entries (times_of ms) ! 0 = useful_run 1 (snd (ms ! 0)) 100 1"
  "1 < length ms \<Longrightarrow> cuda_entries (times_of ms) ! 1 = failed_run 2 (snd (ms ! 1)) 2"
  "2 < length ms \<Longrightarrow> cuda_entries (times_of ms) ! 2 = discarded_run 3 (snd (ms ! 2))"
  "3 < length ms \<Longrightarrow> cuda_entries (times_of ms) ! 3 = useful_run 4 (snd (ms ! 3)) 101 3"
  "4 < length ms \<Longrightarrow> cuda_entries (times_of ms) ! 4 = reused_state 5 (snd (ms ! 4))"
  "5 < length ms \<Longrightarrow> cuda_entries (times_of ms) ! 5 = required_transfer 6 (snd (ms ! 5))"
  "6 < length ms \<Longrightarrow> cuda_entries (times_of ms) ! 6 = duplicate_transfer 7 (snd (ms ! 6))"
  by (simp_all add: cuda_entries_def times_of_def)

lemma works_sections:
  assumes "works env"
  shows "runs (on_books env ho 0 100 1 []) (stmts (cuda_sections env ho))
    (on_books_after env ho 7 102 4 (replicate 5 kernel_work @ replicate 2 transfer_work)) R"
proof -
  let ?after = "\<lambda>k pub att work. on_books_after env ho k pub att work"
  let ?K = kernel_work and ?T = transfer_work
  note kernel = works_timed [OF assms _ works_timers(1) [OF assms]]
  note transfer = works_timed [OF assms _ works_timers(2) [OF assms]]
  note stmt = runs_Cons [OF works_stmts(1) [OF assms]] runs_Cons [OF works_stmts(2) [OF assms]]
  note ok = entry_measured entry_measured(2) [unfolded One_nat_def] nth_append
  have s1: "runs (on_books env ho 0 100 1 []) (timed (time_kernel env) (\<lambda>t1. stmts
        [checked env 1 MemcpyDeviceToHost [], parity env, book ho True True (\<lambda>n pub att. useful_run n t1 pub att)]))
      (?after 1 101 2 [?K]) R"
    by (rule kernel, simp, rule stmt, simp, rule stmt, rule runs_Cons [OF after_runs [OF works_book] runs_Nil]) (simp_all add: ok)
  have s2: "runs (?after 1 101 2 [?K]) (timed (time_kernel env) (\<lambda>t2. book ho False True (\<lambda>n _ att. failed_run n t2 att)))
      (?after 2 101 3 [?K, ?K]) R"
    by (rule runs_after, rule kernel, simp, rule after_runs [OF works_book]) (simp_all add: ok)
  have s3: "runs (?after 2 101 3 [?K, ?K]) (timed (time_kernel env) (\<lambda>t3a. timed (time_kernel env) (\<lambda>t3b. stmts
        [book ho False False (\<lambda>n _ _. discarded_run n t3a), book ho True True (\<lambda>n pub att. useful_run n t3b pub att)])))
      (?after 4 102 4 [?K, ?K, ?K, ?K]) R"
    by (rule runs_after, rule kernel, simp, rule kernel, simp,
      rule runs_Cons [OF works_book [where k' = 3 and pub' = 101 and att' = 3] runs_Cons [OF after_runs [OF works_book] runs_Nil]])
      (simp_all add: ok)
  have s4: "runs (?after 4 102 4 [?K, ?K, ?K, ?K]) (timed (time_kernel env) (\<lambda>t4. book ho False False (\<lambda>n _ _. reused_state n t4)))
      (?after 5 102 4 [?K, ?K, ?K, ?K, ?K]) R"
    by (rule runs_after, rule kernel, simp, rule after_runs [OF works_book]) (simp_all add: ok)
  have s5: "runs (?after 5 102 4 [?K, ?K, ?K, ?K, ?K]) (timed (time_transfer env) (\<lambda>t5. book ho False False (\<lambda>n _ _. required_transfer n t5)))
      (?after 6 102 4 [?K, ?K, ?K, ?K, ?K, ?T]) R"
    by (rule runs_after, rule transfer, simp, rule after_runs [OF works_book]) (simp_all add: ok)
  have s6: "runs (?after 6 102 4 [?K, ?K, ?K, ?K, ?K, ?T]) (timed (time_transfer env) (\<lambda>t5b. book ho False False (\<lambda>n _ _. duplicate_transfer n t5b)))
      (?after 7 102 4 [?K, ?K, ?K, ?K, ?K, ?T, ?T]) R"
    by (rule runs_after, rule transfer, simp, rule after_runs [OF works_book]) (simp_all add: ok)
  have "replicate 5 ?K @ replicate 2 ?T = [?K, ?K, ?K, ?K, ?K, ?T, ?T]"
    by (simp add: numeral_eq_Suc)
  then show ?thesis
    unfolding cuda_sections_def
    by (simp only:) (rule stmt, simp, rule runs_Cons [OF s1], rule runs_Cons [OF s2], rule runs_Cons [OF s3],
      rule runs_Cons [OF s4], rule runs_Cons [OF s5], rule runs_Cons [OF s6], rule runs_Nil)
qed

lemma works_setup:
  assumes "works env"
  shows "\<exists>s. cuda_setup env cuda_start = (None, s) \<and> on_books env ho 0 100 1 [] s"
  using assms
  by (simp add: cuda_setup_def host_buffers_def read_baseline_def works_checked works_ignore works_issue Let_def)
    (auto simp: on_books_def booked_def cuda_start_def times_ok_def times_of_def measurements_def settled_def held_after_def
      intro!: exI [of _ "map (\<lambda>c. (c, True)) [SetDevice, GetDeviceProperties, RuntimeGetVersion, New HIn, New HOut, Malloc Warm, Free Warm, MemGetInfo]"])

text \<open>The books of a run that has come to its end.\<close>

definition all_work :: "cuda_call list list" where
  "all_work = replicate 5 kernel_work @ replicate 2 transfer_work"

lemma on_books_closed:
  assumes "on_books_after env ho 7 pub att all_work s"
  obtains t where "l_history (cu_ledger s) = cuda_entries t" and "rc_closed (reconcile ho (cu_ledger s))"
    and "measurements env (cu_trace s) =
      zip all_work [t1_ns t, t2_ns t, t3a_ns t, t3b_ns t, t4_ns t, t5_ns t, t5b_ns t]"
    and "\<And>f d. cell_of (l_accounts (cu_ledger s)) (Identity 3) f d = (\<Sum>e \<leftarrow> cuda_entries t. attributed e (Identity 3) f d)"
proof -
  obtain ms where ms: "map fst ms = all_work" "on_books env ho 7 pub att ms s"
    using assms by (auto simp: on_books_after_def)
  let ?t = "times_of ms"
  have t: "times_ok ?t" "append_all ho (cuda_entries ?t) (EfficiencyLedger_new kDefaultLedgerId) = (Status_success, cu_ledger s)"
    using ms(2) by (auto simp: on_books_def booked_def cuda_entries_def)
  obtain l where run: "append_all ho (cuda_entries ?t) (EfficiencyLedger_new kDefaultLedgerId) = (Status_success, l)"
    and l: "l_history l = cuda_entries ?t" "rc_closed (reconcile ho l)"
    and cells: "\<And>k f d. int (cell_of (l_accounts l) k f d) = book_totals (cuda_entries ?t) k f d"
    by (rule client_run [OF cuda_run_ok [OF t(1)] cuda_admissible]) blast
  have "l = cu_ledger s" using run t(2) by simp
  moreover have "cell_of (l_accounts l) (Identity 3) f d = (\<Sum>e \<leftarrow> cuda_entries ?t. attributed e (Identity 3) f d)" for f d
    using cells [of "Identity 3" f d] unfolding cuda_totals of_nat_eq_iff .
  moreover have "map snd ms = [t1_ns ?t, t2_ns ?t, t3a_ns ?t, t3b_ns ?t, t4_ns ?t, t5_ns ?t, t5b_ns ?t]"
  proof -
    have "length ms = 7" using arg_cong [OF ms(1), of length] by (simp add: all_work_def)
    then show ?thesis by (auto simp: times_of_def numeral_eq_Suc length_Suc_conv)
  qed
  then have "ms = zip all_work [t1_ns ?t, t2_ns ?t, t3a_ns ?t, t3b_ns ?t, t4_ns ?t, t5_ns ?t, t5b_ns ?t]"
    using zip_map_fst_snd [of ms] ms(1) by simp
  ultimately show ?thesis
    using l ms(2) by (intro that [of ?t]) (simp_all add: on_books_def)
qed

text \<open>The two values that \<open>check_delta\<close> compares were read when no device buffer was held.\<close>

lemma runs_conj:
  "runs P f Q R \<Longrightarrow> runs P' f Q' R' \<Longrightarrow> runs (\<lambda>s. P s \<and> P' s) f (\<lambda>s. Q s \<and> Q' s) (\<lambda>x s. R x s \<and> R' x s)"
  unfolding runs_def by (fastforce split: prod.splits option.splits)

lemma works_after:
  assumes "works env" and "c \<noteq> EventElapsedTime"
  shows "runs (on_books_after env ho k pub att work) (checked env (r :: nat) c cl) (on_books_after env ho k pub att work) R"
  by (rule runs_after, rule after_runs [OF works_stmts(1) [OF assms]])

lemma works_delta:
  assumes "works env"
  shows "runs (\<lambda>s. on_books_after env ho k pub att work s \<and> steady {#HIn, HOut, Stream#} s) (check_delta env)
    (on_books_after env ho k pub att work) R"
  unfolding runs_def
proof (intro allI impI)
  fix s assume s: "on_books_after env ho k pub att work s \<and> steady {#HIn, HOut, Stream#} s"
  then have "settled (cu_trace s)"
    by (auto simp: on_books_after_def on_books_def steady_def on_hand_def events_only_def held_def settled_def)
  moreover obtain tr where "cu_baseline s = free_memory env tr" "settled tr"
    using s by (auto simp: on_books_after_def on_books_def)
  ultimately have "free_delta (cu_baseline s) (free_memory env (cu_trace s)) \<le> kOneMiB"
    using assms by (simp add: works_def)
  with s show "case check_delta env s of (None, s') \<Rightarrow> on_books_after env ho k pub att work s' | (Some r, s') \<Rightarrow> R r s'"
    by (simp add: check_delta_def not_less [symmetric])
qed

lemma works_finish:
  assumes "works env"
  shows "runs (\<lambda>s. on_books_after env ho 7 102 4 all_work s \<and> steady working_set s) (stmts (cuda_finish env ho))
    (on_books_after env ho 7 102 4 all_work) (\<lambda>_ _. False)"
proof -
  let ?books = "on_books_after env ho 7 102 4 all_work" and ?rest = "[StreamDestroy, Delete HIn, Delete HOut]"
  let ?frees = "[checked env (1 :: nat) (Free DIn) ?rest, checked env 1 (Free DOut) ?rest, checked env 1 MemGetInfo ?rest]"
  have books: "runs ?books (stmts ?frees) ?books (\<lambda>_ _. False)"
    by (rule runs_Cons [OF works_after [OF assms]], simp)+ (rule runs_Nil)
  have "runs (steady working_set) (stmts ?frees) (steady {#HIn, HOut, Stream#}) (left_with 1 {{#}, {#DOut#}})"
    by (intro checked_step final_step) (simp_all add: working_set_def add_mset_commute del: One_nat_def)
  from runs_conj [OF books this]
  have frees: "runs (\<lambda>s. ?books s \<and> steady working_set s) (stmts ?frees) (\<lambda>s. ?books s \<and> steady {#HIn, HOut, Stream#} s) (\<lambda>_ _. False)"
    by (rule runs_weaken) simp_all
  have closed: "runs ?books (check_closed env ho) ?books (\<lambda>_ _. False)"
    unfolding runs_def check_closed_def by (auto elim: on_books_closed)
  have "runs (\<lambda>s. ?books s \<and> steady {#HIn, HOut, Stream#} s)
      (stmts [check_delta env, checked env 1 StreamDestroy [Delete HIn, Delete HOut], check_closed env ho]) ?books (\<lambda>_ _. False)"
    by (rule runs_Cons [OF works_delta [OF assms]], rule runs_Cons [OF works_after [OF assms]], simp, rule runs_Cons [OF closed runs_Nil])
  from runs_append [OF frees this] show ?thesis
    by (simp add: cuda_finish_def Let_def del: stmts_Cons One_nat_def)
qed

lemma works_main:
  assumes "works env"
  shows "\<exists>s. cuda_main env ho = (0, s) \<and> on_books_after env ho 7 102 4 all_work s"
proof -
  let ?books = "on_books_after env ho 7 102 4 all_work" and ?no = "\<lambda>_ _. False"
  obtain s1 where one: "cuda_setup env cuda_start = (None, s1)" "on_books env ho 0 100 1 [] s1"
    using works_setup [OF assms] by blast
  have "steady {#} cuda_start" by (simp add: steady_def held_defs cuda_start_def)
  then have s1: "steady working_set s1" by (rule runs_through [OF setup_held _ one(1)])
  have "runs (\<lambda>s. on_books env ho 0 100 1 [] s \<and> steady working_set s) (stmts (cuda_sections env ho))
      (\<lambda>s. ?books s \<and> steady working_set s) ?no"
    by (rule runs_weaken [OF runs_conj [OF works_sections [OF assms, folded all_work_def, of ho ?no] sections_held]]) simp_all
  from runs_append [OF this works_finish [OF assms]]
  have run: "runs (\<lambda>s. on_books env ho 0 100 1 [] s \<and> steady working_set s)
      (stmts (cuda_sections env ho @ cuda_finish env ho)) ?books ?no" .
  obtain r s2 where two: "stmts (cuda_sections env ho @ cuda_finish env ho) s1 = (r, s2)" by fastforce
  have "r = None \<and> ?books s2"
    using runs_result [OF run] runs_through [OF run] one(2) s1 two by (cases r) blast+
  moreover have "?books s \<Longrightarrow> ?books (issue_all env [Delete HIn, Delete HOut] s)" for s
    by (auto simp: on_books_after_def intro!: on_books_issue [OF assms])
  ultimately show ?thesis
    using one two by (simp add: cuda_main_def del: issue_all_simps)
qed

text \<open>Where nothing fails, nothing is leaked.\<close>

lemma nothing_leaked:
  assumes "\<forall>x \<in> set (cu_trace s). snd x"
  shows "leaked s = {#}"
proof -
  have "\<forall>x \<in> set tr. snd x \<Longrightarrow> leaked_by tr = {#}" for tr
  proof (induction tr)
    case (Cons x tr)
    then show ?case using release_failed_cases [of "fst x" "snd x"] by (cases x) (auto simp: leaked_by_def)
  qed (simp add: leaked_by_def)
  with assms show ?thesis by (simp add: leaked_def)
qed

end
