(* ===== verification/EL_Bench.thy ===== *)
theory EL_Bench
  imports EL_Clients
begin

text \<open>
  The benchmark (\<^verbatim>\<open>benchmarks/el_bench.cpp\<close>): the entries it makes, the ledgers it fills, and what each of
  its measurements verifies about the result. The clock is left out; the schedule of the threads of
  the concurrent benchmark is an argument. Calls of one ledger exclude each other, so a schedule is
  an interleaving of the appends of the threads.
\<close>

section \<open>The programs\<close>

record Row =
  row_name :: string
  row_events :: u64

definition make_entry :: "u64 \<Rightarrow> LedgerEntry" where
  "make_entry i =
     (let e = LedgerEntry_default\<lparr>e_id := Identity (i + 1)\<rparr>;
          e1 = (if i mod 2 = 0
                then e\<lparr>e_event := EventType_kExecutionCompleted, e_classification := EfficiencyClass_kUseful,
                       e_subcategory := (e_subcategory e)\<lparr>sc_useful := UsefulReason_kAcceptedOutput\<rparr>,
                       e_usage := (e_usage e)(kAcceleratorNanoseconds := 1000 + i),
                       e_fences := (e_fences e)\<lparr>f_publication := Identity (i + 1)\<rparr>\<rparr>
                else e\<lparr>e_event := EventType_kAttemptFailed, e_classification := EfficiencyClass_kAvoidableWaste,
                       e_subcategory := (e_subcategory e)\<lparr>sc_waste := WasteReason_kFailedAttempt\<rparr>,
                       e_usage := (e_usage e)(kCpuNanoseconds := 500 + i),
                       e_attempt := \<lparr>at_id = Identity (i + 1), at_generation = Identity 1\<rparr>,
                       e_attempt_outcome := AttemptOutcome_kFailed\<rparr>)
      in e1\<lparr>e_account := Identity 3, e_provenance := Provenance_kMeasured, e_freshness := Freshness_kCurrent\<rparr>)"

text \<open>The values of a loop variable that counts up to \<open>n\<close>.\<close>

definition indices :: "u64 \<Rightarrow> u64 list" where
  "indices n = map word_of_nat [0..<unat n]"

text \<open>Append until one is refused; then compare the number of entries.\<close>

definition fill_with :: "AccountId hash_order \<Rightarrow> (u64 \<Rightarrow> LedgerEntry) \<Rightarrow> u64 \<Rightarrow> EfficiencyLedger \<Rightarrow> bool \<times> EfficiencyLedger" where
  "fill_with ho entry n l =
     (case for_each (\<lambda>i l. case append_locked ho (entry i) l of (st, l') \<Rightarrow> (if \<not> Status_ok st then Some False else None, l'))
             (indices n) l of
        (Some r, l') \<Rightarrow> (r, l')
      | (None, l') \<Rightarrow> (word_of_nat (entry_count l') = n, l'))"

definition fill :: "AccountId hash_order \<Rightarrow> u64 \<Rightarrow> EfficiencyLedger \<Rightarrow> bool \<times> EfficiencyLedger" where
  "fill ho n l = fill_with ho make_entry n l"

definition agg_entry :: "u64 \<Rightarrow> u64 \<Rightarrow> LedgerEntry" where
  "agg_entry accounts i = (make_entry i)\<lparr>e_account := Identity (1 + i mod accounts)\<rparr>"

definition fill_agg :: "AccountId hash_order \<Rightarrow> u64 \<Rightarrow> EfficiencyLedger \<Rightarrow> bool \<times> EfficiencyLedger" where
  "fill_agg ho n l = fill_with ho (agg_entry (min n (word_of_nat kMaxSharedParticipants))) n l"

text \<open>Append all of them, counting the calls with a certain answer.\<close>

definition append_counting ::
    "AccountId hash_order \<Rightarrow> (Status \<Rightarrow> bool) \<Rightarrow> LedgerEntry list \<Rightarrow> u64 \<times> EfficiencyLedger \<Rightarrow> u64 \<times> EfficiencyLedger" where
  "append_counting ho counts es s =
     fold (\<lambda>e (k, l). case append_locked ho e l of (st, l') \<Rightarrow> (if counts st then k + 1 else k, l')) es s"

text \<open>Each benchmark: whether it prints OK, and its row.\<close>

definition bench_append :: "AccountId hash_order \<Rightarrow> u64 \<Rightarrow> bool \<times> Row" where
  "bench_append ho n =
     (case append_counting ho Status_ok (map make_entry (indices n)) (0, EfficiencyLedger_new kDefaultLedgerId) of (appended, l) \<Rightarrow>
        (appended = n \<and> word_of_nat (entry_count l) = n, \<lparr>row_name = ''event_append'', row_events = appended\<rparr>))"

definition bench_dedup :: "AccountId hash_order \<Rightarrow> u64 \<Rightarrow> bool \<times> Row" where
  "bench_dedup ho n =
     (case fill ho n (EfficiencyLedger_new kDefaultLedgerId) of
        (False, l) \<Rightarrow> (False, \<lparr>row_name = ''dedup_lookup'', row_events = 0\<rparr>)
      | (True, l) \<Rightarrow>
          (case append_counting ho (\<lambda>st. status_code st = ErrorCode_kDuplicateEntry) (map make_entry (indices n)) (0, l) of
             (rejected, l') \<Rightarrow> (rejected = n, \<lparr>row_name = ''dedup_lookup'', row_events = rejected\<rparr>)))"

definition bench_aggregation :: "AccountId hash_order \<Rightarrow> u64 \<Rightarrow> bool \<times> Row" where
  "bench_aggregation ho n =
     (case fill_agg ho n (EfficiencyLedger_new kDefaultLedgerId) of
        (False, l) \<Rightarrow> (False, \<lparr>row_name = ''account_aggregation'', row_events = 0\<rparr>)
      | (True, l) \<Rightarrow>
          (let expected = min n (word_of_nat kMaxSharedParticipants);
               size = word_of_nat (length (account_summaries ho l))
           in (rc_closed (reconcile ho l) \<and> size = expected, \<lparr>row_name = ''account_aggregation'', row_events = size\<rparr>)))"

definition shared_entry :: "u64 \<Rightarrow> LedgerEntry" where
  "shared_entry accounts = LedgerEntry_default
     \<lparr>e_id := Identity 1, e_event := EventType_kExecutionCompleted, e_classification := EfficiencyClass_kUseful,
      e_subcategory := Subcategory_default\<lparr>sc_useful := UsefulReason_kAcceptedOutput\<rparr>,
      e_usage := zero_totals(kAcceleratorNanoseconds := 1000000),
      e_fences := AuthorityFences_default\<lparr>f_publication := Identity 1\<rparr>, e_account := Identity 3,
      e_provenance := Provenance_kMeasured, e_freshness := Freshness_kCurrent,
      e_shared := Some \<lparr>sh_policy = AttributionPolicy_kByWeight,
        sh_participants = map (\<lambda>i. \<lparr>sp_account = Identity (i + 1), sp_weight = i + 1\<rparr>) (indices accounts)\<rparr>\<rparr>"

definition bench_shared :: "AccountId hash_order \<Rightarrow> u64 \<Rightarrow> bool \<times> Row" where
  "bench_shared ho n =
     (let accounts = min n (word_of_nat kMaxSharedParticipants);
          capped = accounts < n
      in case append_locked ho (shared_entry accounts) (EfficiencyLedger_new kDefaultLedgerId) of (st, l) \<Rightarrow>
        (Status_ok st \<and> rc_closed (reconcile ho l),
         \<lparr>row_name = (if capped then ''shared_attribution(cap)'' else ''shared_attribution''), row_events = accounts\<rparr>))"

definition bench_replay :: "AccountId hash_order \<Rightarrow> u64 \<Rightarrow> bool \<times> Row" where
  "bench_replay ho n =
     (case fill ho n (EfficiencyLedger_new kDefaultLedgerId) of
        (False, l) \<Rightarrow> (False, \<lparr>row_name = ''history_replay'', row_events = 0\<rparr>)
      | (True, l) \<Rightarrow>
          (case load_history ho (l_history l) (EfficiencyLedger_new kDefaultLedgerId) of (st, fresh) \<Rightarrow>
             (Status_ok st \<and> word_of_nat (entry_count fresh) = n, \<lparr>row_name = ''history_replay'', row_events = n\<rparr>)))"

definition bench_persist :: "AccountId hash_order \<Rightarrow> u64 \<Rightarrow> bool \<times> Row" where
  "bench_persist ho n =
     (case fill ho n (EfficiencyLedger_new kDefaultLedgerId) of
        (False, l) \<Rightarrow> (False, \<lparr>row_name = ''persistence_save_load'', row_events = 0\<rparr>)
      | (True, l) \<Rightarrow>
          (case save_to_string l of (save_st, bs) \<Rightarrow>
             case load_from_string ho bs (EfficiencyLedger_new kDefaultLedgerId) of (load_st, _, fresh) \<Rightarrow>
               (Status_ok save_st \<and> Status_ok load_st \<and> word_of_nat (entry_count fresh) = n,
                \<lparr>row_name = ''persistence_save_load'', row_events = n\<rparr>)))"

definition bench_digest :: "AccountId hash_order \<Rightarrow> u64 \<Rightarrow> bool \<times> Row" where
  "bench_digest ho n =
     (case fill ho n (EfficiencyLedger_new kDefaultLedgerId) of
        (False, l) \<Rightarrow> (False, \<lparr>row_name = ''digest'', row_events = 0\<rparr>)
      | (True, l) \<Rightarrow> (digest l \<noteq> 0, \<lparr>row_name = ''digest'', row_events = n\<rparr>))"

text \<open>The part of each thread, and the course of the concurrent benchmark under a schedule.\<close>

definition thread_begin :: "u64 \<Rightarrow> u64 \<Rightarrow> u64 \<Rightarrow> u64" where
  "thread_begin n threads t = t * (n div threads) + min t (n mod threads)"

definition thread_count :: "u64 \<Rightarrow> u64 \<Rightarrow> u64 \<Rightarrow> u64" where
  "thread_count n threads t = n div threads + (if t < n mod threads then 1 else 0)"

definition thread_work :: "u64 \<Rightarrow> u64 \<Rightarrow> u64 \<Rightarrow> LedgerEntry list" where
  "thread_work n threads t = map (\<lambda>k. make_entry (thread_begin n threads t + k)) (indices (thread_count n threads t))"

definition bench_concurrent :: "AccountId hash_order \<Rightarrow> LedgerEntry list \<Rightarrow> u64 \<Rightarrow> bool \<times> Row" where
  "bench_concurrent ho schedule n =
     (case append_counting ho (\<lambda>st. \<not> Status_ok st) schedule (0, EfficiencyLedger_new kDefaultLedgerId) of (failed, l) \<Rightarrow>
        (failed = 0 \<and> word_of_nat (entry_count l) = n \<and> rc_closed (reconcile ho l),
         \<lparr>row_name = ''concurrent_append(8t)'', row_events = n\<rparr>))"

inductive interleaving :: "'a list list \<Rightarrow> 'a list \<Rightarrow> bool" where
  finished: "\<forall>xs \<in> set tss. xs = [] \<Longrightarrow> interleaving tss []"
| step: "t < length tss \<Longrightarrow> tss ! t = x # xs \<Longrightarrow> interleaving (tss[t := xs]) ys \<Longrightarrow> interleaving tss (x # ys)"

definition kScales :: "u64 list" where
  "kScales = [100, 1000, 10000, 100000, 1000000]"

definition kThreads :: u64 where
  "kThreads = 8"

section \<open>Entries that do not depend on each other\<close>

lemma interleaving_mset: "interleaving tss ys \<Longrightarrow> mset ys = mset (concat tss)"
proof (induction rule: interleaving.induct)
  case (finished tss)
  then have "concat tss = []" by simp
  then show ?case by simp
next
  case (step t tss x xs ys)
  have "tss = take t tss @ (x # xs) # drop (Suc t) tss"
    using step.hyps(1,2) by (metis id_take_nth_drop)
  then have "mset (concat tss) = mset (concat (take t tss)) + mset (x # xs) + mset (concat (drop (Suc t) tss))"
    by (metis concat_append concat.simps(2) mset_append add.assoc)
  with step.IH step.hyps(1) show ?case
    by (simp add: upd_conv_take_nth_drop)
qed

text \<open>
  If no two entries share an id or an attempt and none completes a lifecycle, then every order of them
  is an admissible sequence.
\<close>

definition independent :: "LedgerEntry list \<Rightarrow> bool" where
  "independent es \<longleftrightarrow> distinct (map e_id es) \<and> distinct (map (\<lambda>e. at_id (e_attempt e)) (filter has_attempt es)) \<and>
     list_all (\<lambda>e. e_event e \<noteq> EventType_kReclassify \<and> \<not> completes_transfer e \<and> \<not> releases_reservation e \<and>
       \<not> releases_allocation e \<and> \<not> ends_recovery e) es \<and>
     (\<forall>d. (\<Sum>e \<leftarrow> es. demand e d) < 18446744073709551616)"

lemma distinct_pairs: "distinct (map f (filter P es)) \<Longrightarrow> sorted_wrt (\<lambda>x y. P x \<and> P y \<longrightarrow> f x \<noteq> f y) es"
  by (induction es) (auto split: if_splits)

lemma independent_run_ok:
  assumes "independent es"
  shows "run_ok es"
proof -
  have "sorted_wrt (\<lambda>x y. has_attempt x \<and> has_attempt y \<longrightarrow> at_id (e_attempt x) \<noteq> at_id (e_attempt y)) es"
    using assms by (intro distinct_pairs) (simp add: independent_def)
  then have "sorted_wrt (\<lambda>x y. has_attempt x \<and> has_attempt y \<and> at_id (e_attempt x) = at_id (e_attempt y) \<longrightarrow> may_follow x y) es"
    by (rule sorted_wrt_mono_rel [rotated]) blast
  moreover have "filter completes_transfer es = []" "filter releases_reservation es = []" "filter releases_allocation es = []"
    "filter ends_recovery es = []"
    using assms by (auto simp: independent_def list_all_iff filter_empty_conv)
  ultimately show ?thesis
    using assms by (simp add: independent_def run_ok_def list_all_iff)
qed

lemma distinct_permutes: "mset xs = mset ys \<Longrightarrow> distinct (map f (filter P xs)) = distinct (map f (filter P ys))"
  by (intro mset_eq_imp_distinct_iff) simp

lemma independent_permutes:
  assumes "mset es = mset es'" and "independent es'"
  shows "independent es"
proof -
  have "distinct (map e_id es) = distinct (map e_id es')"
    using distinct_permutes [OF assms(1), of e_id "\<lambda>_. True"] by simp
  moreover have "set es = set es'" using assms(1) by (rule mset_eq_setD)
  moreover have "(\<Sum>e \<leftarrow> es. demand e d) = (\<Sum>e \<leftarrow> es'. demand e d)" for d
    using assms(1) by (metis mset_map sum_mset_sum_list)
  ultimately show ?thesis
    using assms(2) distinct_permutes [OF assms(1), of "\<lambda>e. at_id (e_attempt e)" has_attempt]
    by (simp add: independent_def list_all_iff)
qed

section \<open>The entries of the benchmark\<close>

text \<open>The entries of both kinds of filling: \<open>acc\<close> gives the account of an index.\<close>

definition bench_entry :: "(u64 \<Rightarrow> AccountId) \<Rightarrow> u64 \<Rightarrow> LedgerEntry" where
  "bench_entry acc i = (make_entry i)\<lparr>e_account := acc i\<rparr>"

lemma make_entry_bench: "make_entry = bench_entry (\<lambda>_. Identity 3)"
  by (rule ext) (simp add: bench_entry_def make_entry_def Let_def)

lemma agg_entry_bench: "agg_entry k = bench_entry (\<lambda>i. Identity (1 + i mod k))"
  by (rule ext) (simp add: bench_entry_def agg_entry_def)

lemma length_indices [simp]: "length (indices n) = unat n"
  by (simp add: indices_def)

lemma set_indices: "set (indices n) = {i. i < n}"
proof -
  have "i \<in> word_of_nat ` {0..<unat n}" if "i < n" for i
    using that by (intro image_eqI [of _ _ "unat i"]) (simp_all add: word_less_nat_alt)
  moreover have "word_of_nat k < n" if "k < unat n" for k
    using that unat_u64_less [of n] by (simp add: word_less_nat_alt unat_of_nat take_bit_eq_mod del: unat_u64_less)
  ultimately show ?thesis by (auto simp: indices_def)
qed

lemma distinct_indices: "distinct (indices n)"
proof -
  have "inj_on (word_of_nat :: nat \<Rightarrow> u64) {0..<unat n}"
    by (rule inj_on_inverseI [where g = unat])
      (use unat_u64_less [of n] in \<open>simp add: unat_of_nat take_bit_eq_mod del: unat_u64_less\<close>)
  then show ?thesis by (simp add: indices_def distinct_map)
qed

lemmas make_entry_defs = bench_entry_def make_entry_def client_entry_defs Let_def

lemma bench_entry_fields:
  "e_id (bench_entry acc i) = Identity (i + 1)" "e_account (bench_entry acc i) = acc i" "e_shared (bench_entry acc i) = None"
  "e_note (bench_entry acc i) = []" "e_event (bench_entry acc i) \<noteq> EventType_kReclassify"
  "has_attempt (bench_entry acc i) \<Longrightarrow> at_id (e_attempt (bench_entry acc i)) = Identity (i + 1)"
  "\<not> completes_transfer (bench_entry acc i)" "\<not> releases_reservation (bench_entry acc i)"
  "\<not> releases_allocation (bench_entry acc i)" "\<not> ends_recovery (bench_entry acc i)"
  by (simp_all add: make_entry_defs has_attempt_def completes_transfer_def releases_reservation_def
      releases_allocation_def ends_recovery_def split: if_splits)

lemma bench_entry_demand:
  assumes "i < n" and "unat n \<le> 2 ^ 28"
  shows "demand (bench_entry acc i) d \<le> 2 ^ 28 + 1000"
proof -
  have i: "unat i < 2 ^ 28" using assms by (simp add: word_less_nat_alt)
  then have "unat (1000 + i) = 1000 + unat i" "unat (500 + i) = 500 + unat i"
    by (simp_all add: unat_word_ariths)
  with i show ?thesis
    by (simp add: make_entry_defs demand_def)
qed

lemma bench_independent:
  assumes "unat n \<le> 2 ^ 28"
  shows "independent (map (bench_entry acc) (indices n))"
proof -
  let ?es = "map (bench_entry acc) (indices n)"
  have id: "inj (\<lambda>i. Identity (i + 1) :: 'tag Identity)" by (rule injI) simp
  have "distinct (map e_id ?es)"
    using distinct_indices [of n] by (simp add: distinct_map comp_def bench_entry_fields inj_on_def)
  moreover have "map (\<lambda>e. at_id (e_attempt e)) (filter has_attempt ?es) =
      map (\<lambda>i. Identity (i + 1)) (filter (has_attempt \<circ> bench_entry acc) (indices n))"
    by (simp add: filter_map comp_def bench_entry_fields)
  moreover have "distinct \<dots>"
    using distinct_indices [of n] by (simp add: distinct_map inj_on_def)
  moreover have "(\<Sum>e \<leftarrow> ?es. demand e d) < 18446744073709551616" for d
  proof -
    have "(\<Sum>i \<leftarrow> indices n. demand (bench_entry acc i) d) \<le> (\<Sum>i \<leftarrow> indices n. 2 ^ 28 + 1000)"
      using bench_entry_demand [OF _ assms] by (intro sum_list_mono) (auto simp: set_indices)
    moreover have "unat n * (2 ^ 28 + 1000) < 18446744073709551616"
      using mult_le_mono1 [OF assms, of "2 ^ 28 + 1000"] by simp
    ultimately show ?thesis by (simp add: sum_list_triv comp_def)
  qed
  ultimately show ?thesis
    unfolding independent_def by (auto simp: list_all_iff bench_entry_fields)
qed

lemma succ_nonzero:
  assumes "unat (i :: u64) < 2 ^ 32"
  shows "i + 1 \<noteq> 0"
proof -
  have "unat (i + 1) = Suc (unat i)" using assms by (simp add: unat_word_ariths)
  then show ?thesis by (metis nat.distinct(1) unsigned_0)
qed

lemma bench_admissible:
  assumes "i < n" and "unat n \<le> 2 ^ 28" and "id_valid (acc i)"
  shows "entry_admissible (EfficiencyLedger_new lid) (bench_entry acc i)"
proof -
  have "unat i < 2 ^ 28" using assms(1,2) by (simp add: word_less_nat_alt)
  then have "i + 1 \<noteq> 0" by (intro succ_nonzero) simp
  then show ?thesis
    using assms(3) by (simp add: make_entry_defs entry_check_defs fun_eq_iff)
qed

section \<open>Every benchmark verifies\<close>

text \<open>What the loops do with a sequence that a ledger accepts.\<close>

lemma append_counting_all:
  assumes "append_all ho es l = (Status_success, l')"
  shows "append_counting ho Status_ok es (k, l) = (k + word_of_nat (length es), l')"
    and "append_counting ho (\<lambda>st. \<not> Status_ok st) es (k, l) = (k, l')"
proof -
  have "append_counting ho Status_ok es (k, l) = (k + word_of_nat (length es), l') \<and>
      append_counting ho (\<lambda>st. \<not> Status_ok st) es (j, l) = (j, l')" for k j
    using assms
  proof (induction es arbitrary: l k)
    case (Cons e es)
    obtain st l1 where one: "append_locked ho e l = (st, l1)" by fastforce
    with Cons.prems have "Status_ok st" "append_all ho es l1 = (Status_success, l')"
      by (auto simp: Status_ok_def Status_success_def split: if_splits)
    with Cons.IH one show ?case by (simp add: append_counting_def)
  qed (simp add: append_counting_def)
  then show "append_counting ho Status_ok es (k, l) = (k + word_of_nat (length es), l')"
    "append_counting ho (\<lambda>st. \<not> Status_ok st) es (k, l) = (k, l')" by blast+
qed

lemma fill_with_all:
  assumes "append_all ho (map entry (indices n)) l = (Status_success, l')" and "length (l_history l') = unat n"
  shows "fill_with ho entry n l = (True, l')"
proof -
  have "for_each (\<lambda>i l. case append_locked ho (entry i) l of (st, l') \<Rightarrow> (if \<not> Status_ok st then Some False else None, l')) is l = (None, l')"
    if "append_all ho (map entry is) l = (Status_success, l')" for "is"
    using that
  proof (induction "is" arbitrary: l)
    case (Cons i "is")
    obtain st l1 where one: "append_locked ho (entry i) l = (st, l1)" by fastforce
    with Cons.prems have "Status_ok st" "append_all ho (map entry is) l1 = (Status_success, l')"
      by (auto simp: Status_ok_def Status_success_def split: if_splits)
    with Cons.IH one show ?case by simp
  qed simp
  from this [OF assms(1)] assms(2) show ?thesis
    by (simp add: fill_with_def entry_count_def)
qed

text \<open>The ledger that a filling leaves behind.\<close>

lemma bench_run:
  assumes "unat n \<le> 2 ^ 28" and "\<And>i. i < n \<Longrightarrow> id_valid (acc i)" and "mset es = mset (map (bench_entry acc) (indices n))"
  obtains l where "append_all ho es (EfficiencyLedger_new lid) = (Status_success, l)" and "l_history l = es"
    and "rc_closed (reconcile ho l)" and "cached_ledger l"
    and "reachable {ErrorCode_kOverflow, ErrorCode_kReconciliationFailure} l"
proof -
  have "run_ok es"
    by (rule independent_run_ok [OF independent_permutes [OF assms(3) bench_independent [OF assms(1)]]])
  moreover have "\<forall>e \<in> set es. entry_admissible (EfficiencyLedger_new lid) e"
    using mset_eq_setD [OF assms(3)] bench_admissible [OF _ assms(1)] assms(2) by (auto simp: set_indices)
  ultimately show ?thesis using that by (rule client_run)
qed

lemma fill_run:
  assumes "unat n \<le> 2 ^ 28" and "\<And>i. i < n \<Longrightarrow> id_valid (acc i)"
  obtains l where "fill_with ho (bench_entry acc) n (EfficiencyLedger_new lid) = (True, l)"
    and "append_all ho (map (bench_entry acc) (indices n)) (EfficiencyLedger_new lid) = (Status_success, l)"
    and "l_history l = map (bench_entry acc) (indices n)" and "rc_closed (reconcile ho l)" and "cached_ledger l"
    and "reachable {ErrorCode_kOverflow, ErrorCode_kReconciliationFailure} l"
proof -
  obtain l where "append_all ho (map (bench_entry acc) (indices n)) (EfficiencyLedger_new lid) = (Status_success, l)"
    and "l_history l = map (bench_entry acc) (indices n)" and "rc_closed (reconcile ho l)" and "cached_ledger l"
    and "reachable {ErrorCode_kOverflow, ErrorCode_kReconciliationFailure} l"
    by (rule bench_run [OF assms refl])
  moreover from this have "fill_with ho (bench_entry acc) n (EfficiencyLedger_new lid) = (True, l)"
    by (intro fill_with_all) simp_all
  ultimately show ?thesis by (intro that)
qed

lemma bench_append_ok:
  assumes "unat n \<le> 2 ^ 28"
  shows "bench_append ho n = (True, \<lparr>row_name = ''event_append'', row_events = n\<rparr>)"
proof -
  obtain l where "append_all ho (map make_entry (indices n)) (EfficiencyLedger_new kDefaultLedgerId) = (Status_success, l)"
    and "l_history l = map make_entry (indices n)"
    unfolding make_entry_bench by (rule fill_run [OF assms]) (auto simp: id_valid_def)
  then show ?thesis
    by (simp add: bench_append_def append_counting_all entry_count_def)
qed

lemma duplicate_refused:
  assumes "cached_ledger l" and "e \<in> set (l_history l)" and "e_event e \<noteq> EventType_kReclassify" and "\<not> l_shutting_down l"
  shows "append_locked ho e l = (Status ErrorCode_kDuplicateEntry ''duplicate entry id'', l)"
proof -
  have wf: "wf_ledger l" using assms(1) by (simp add: cached_ledger_def exact_ledger_def)
  then have "LedgerEntry_validate e" using assms(2) by (simp add: wf_ledger_def entry_ok_def)
  moreover have "l_index l (e_id e) \<noteq> None"
    using wf assms(2) by (force simp: wf_ledger_def index_ok_def in_set_conv_nth)
  ultimately show ?thesis
    using assms(3,4) by (simp add: append_locked_def)
qed

lemma append_counting_duplicates:
  assumes "\<And>e. e \<in> set es \<Longrightarrow> append_locked ho e l = (Status ErrorCode_kDuplicateEntry msg, l)"
  shows "append_counting ho (\<lambda>st. status_code st = ErrorCode_kDuplicateEntry) es (k, l) = (k + word_of_nat (length es), l)"
  using assms by (induction es arbitrary: k) (simp_all add: append_counting_def)

lemma bench_dedup_ok:
  assumes "unat n \<le> 2 ^ 28"
  shows "bench_dedup ho n = (True, \<lparr>row_name = ''dedup_lookup'', row_events = n\<rparr>)"
proof -
  obtain l where fill: "fill_with ho make_entry n (EfficiencyLedger_new kDefaultLedgerId) = (True, l)"
    and all: "append_all ho (map make_entry (indices n)) (EfficiencyLedger_new kDefaultLedgerId) = (Status_success, l)"
    and h: "l_history l = map make_entry (indices n)" and inv: "cached_ledger l"
    unfolding make_entry_bench by (rule fill_run [OF assms]) (auto simp: id_valid_def)
  have "\<not> l_shutting_down l"
    using append_all_authority [OF all] by (simp add: same_authority_def EfficiencyLedger_new_def)
  then have "append_locked ho e l = (Status ErrorCode_kDuplicateEntry ''duplicate entry id'', l)"
    if "e \<in> set (map make_entry (indices n))" for e
    using that by (intro duplicate_refused [OF inv]) (auto simp: h make_entry_bench bench_entry_fields)
  from append_counting_duplicates [OF this, where es = "map make_entry (indices n)"] show ?thesis
    by (simp add: bench_dedup_def fill_def fill)
qed

lemma touched_single: "e_shared e = None \<Longrightarrow> id_valid (e_account e) \<Longrightarrow> touched e = {e_account e}"
  by (rule single_account_shares) (auto simp: touched_def)

lemma agg_run:
  assumes "unat n \<le> 2 ^ 28" and k: "0 < k" "k \<le> n" "unat k \<le> 4096"
  obtains l where "fill_with ho (agg_entry k) n (EfficiencyLedger_new lid) = (True, l)" and "rc_closed (reconcile ho l)"
    and "length (account_summaries ho l) = unat k"
proof -
  let ?acc = "\<lambda>i. Identity (1 + i mod k) :: AccountId"
  have below: "i mod k < k" for i using k(1) by (simp add: word_mod_less_divisor)
  have ok: "id_valid (?acc i)" if "i < n" for i
    using succ_nonzero [of "i mod k"] below [of i] k(3) by (simp add: id_valid_def word_less_nat_alt add.commute)
  obtain l where fill: "fill_with ho (agg_entry k) n (EfficiencyLedger_new lid) = (True, l)"
    and h: "l_history l = map (agg_entry k) (indices n)" and closed: "rc_closed (reconcile ho l)" and inv: "cached_ledger l"
    unfolding agg_entry_bench by (rule fill_run [OF assms(1) ok])
  have "fst ` set (l_accounts l) = (\<Union>i \<in> {i. i < n}. touched (agg_entry k i))"
    using inv h by (simp add: cached_ledger_def exact_ledger_def ordinary_def agg_entry_bench bench_entry_fields set_indices)
  also have "\<dots> = ?acc ` {i. i < n}"
    using ok by (auto simp: touched_single agg_entry_bench bench_entry_fields)
  also have "\<dots> = (\<lambda>i. Identity (1 + i)) ` ((\<lambda>i. i mod k) ` {i. i < n})"
    by (simp add: image_image)
  also have "(\<lambda>i. i mod k) ` {i. i < n} = {i. i < k}"
  proof
    show "(\<lambda>i. i mod k) ` {i. i < n} \<subseteq> {i. i < k}" using below by auto
    have "i = i mod k \<and> i < n" if "i < k" for i
      using that k(2) by (simp add: mod_word_less)
    then show "{i. i < k} \<subseteq> (\<lambda>i. i mod k) ` {i. i < n}" by blast
  qed
  finally have "card (fst ` set (l_accounts l)) = card {i. i < k}"
    by (simp add: card_image inj_on_def)
  also have "\<dots> = unat k"
    using distinct_card [OF distinct_indices [of k]] by (simp add: set_indices)
  finally have "length (l_accounts l) = unat k"
    using inv distinct_card [of "map fst (l_accounts l)"] by (simp add: cached_ledger_def exact_ledger_def wf_ledger_def)
  then have "length (account_summaries ho l) = unat k"
    by (simp add: account_summaries_def in_order_def)
  with fill closed show ?thesis by (intro that)
qed

lemma bench_aggregation_ok:
  assumes "unat n \<le> 2 ^ 28" and "n \<noteq> 0"
  shows "bench_aggregation ho n =
    (True, \<lparr>row_name = ''account_aggregation'', row_events = min n (word_of_nat kMaxSharedParticipants)\<rparr>)"
proof -
  have "0 < min n 4096" "min n 4096 \<le> n" "unat (min n 4096) \<le> 4096"
    using assms(2) by (auto simp: min_def word_gt_0 word_le_nat_alt not_le)
  then obtain l where "fill_with ho (agg_entry (min n 4096)) n (EfficiencyLedger_new kDefaultLedgerId) = (True, l)"
    "rc_closed (reconcile ho l)" "length (account_summaries ho l) = unat (min n 4096)"
    by (rule agg_run [OF assms(1)])
  then show ?thesis
    by (simp add: bench_aggregation_def fill_agg_def kMaxSharedParticipants_def Let_def)
qed

lemma participants_weight_indices:
  assumes "unat k \<le> 4096"
  shows "participants_weight (map (\<lambda>i. \<lparr>sp_account = Identity (i + 1), sp_weight = i + 1\<rparr>) (indices k)) < 18446744073709551616"
proof -
  have w: "unat (i + 1) \<le> 4096" if "i < k" for i
    using that assms unat_plus_if' [of i 1] by (simp add: word_less_nat_alt)
  have "(\<Sum>i \<leftarrow> indices k. unat (i + 1)) \<le> (\<Sum>i \<leftarrow> indices k. 4096)"
    using w by (intro sum_list_mono) (auto simp: set_indices)
  also have "\<dots> \<le> 4096 * 4096" using assms by (simp add: sum_list_triv)
  finally show ?thesis by (simp add: comp_def)
qed

lemma shared_entry_ok:
  assumes "unat k \<le> 4096"
  shows "run_ok [shared_entry k]" and "entry_admissible (EfficiencyLedger_new lid) (shared_entry k)"
proof -
  have "(\<Sum>e \<leftarrow> [shared_entry k]. demand e d) < 18446744073709551616" for d
    by (simp add: demand_def shared_entry_def client_entry_defs)
  then show "run_ok [shared_entry k]"
    by (simp add: run_ok_def shared_entry_def client_entry_defs completes_transfer_def releases_reservation_def
        releases_allocation_def ends_recovery_def)
  have "i + 1 \<noteq> 0" if "i < k" for i
    using that assms by (intro succ_nonzero) (simp add: word_less_nat_alt)
  then have "SharedRef_valid \<lparr>sh_policy = AttributionPolicy_kByWeight,
      sh_participants = map (\<lambda>i. \<lparr>sp_account = Identity (i + 1), sp_weight = i + 1\<rparr>) (indices k)\<rparr>"
    using assms participants_weight_indices [OF assms]
    by (auto simp: SharedRef_valid_iff kMaxSharedParticipants_def set_indices id_valid_def)
  then show "entry_admissible (EfficiencyLedger_new lid) (shared_entry k)"
    by (simp add: shared_entry_def client_entry_defs entry_check_defs fun_eq_iff)
qed

lemma bench_shared_ok:
  "fst (bench_shared ho n) \<and> row_events (snd (bench_shared ho n)) = min n (word_of_nat kMaxSharedParticipants)"
proof -
  have "unat (min n 4096) \<le> 4096" by (simp add: min_def word_le_nat_alt)
  note ok = shared_entry_ok [OF this]
  obtain l where "append_all ho [shared_entry (min n 4096)] (EfficiencyLedger_new kDefaultLedgerId) = (Status_success, l)"
    and "rc_closed (reconcile ho l)"
    by (rule client_run [of "[shared_entry (min n 4096)]" kDefaultLedgerId ho]) (use ok in simp_all)
  then show ?thesis
    by (auto simp: bench_shared_def kMaxSharedParticipants_def Let_def Status_ok_def Status_success_def split: prod.splits if_splits)
qed

lemma bench_reload:
  assumes "unat n \<le> 2 ^ 28"
  obtains l l1 l2 where "fill ho n (EfficiencyLedger_new kDefaultLedgerId) = (True, l)"
    and "load_history ho (l_history l) (EfficiencyLedger_new kDefaultLedgerId) = (Status_success, l1)" and "entry_count l1 = unat n"
    and "load_from_string ho (snd (save_to_string l)) (EfficiencyLedger_new kDefaultLedgerId) = (Status_success, None, l2)"
    and "entry_count l2 = unat n"
proof -
  let ?new = "EfficiencyLedger_new kDefaultLedgerId"
  obtain l where fill: "fill_with ho make_entry n ?new = (True, l)"
    and h: "l_history l = map make_entry (indices n)"
    and reach: "reachable {ErrorCode_kOverflow, ErrorCode_kReconciliationFailure} l"
    unfolding make_entry_bench by (rule fill_run [OF assms]) (auto simp: id_valid_def)
  note inv = replay.reachable_keeps [OF reach]
  have cur: "fences_current l0 (make_entry i)" for l0 i
    by (simp add: fences_current_def make_entry_def client_entry_defs Let_def)
  obtain l1 where l1: "load_history ho (l_history l) ?new = (Status_success, l1)" "books_equiv l l1"
    by (rule load_history_replays [OF inv]) (auto simp: EfficiencyLedger_new_def h cur)
  have "loadable l"
    using assms cur by (auto simp: loadable_def list_all_iff h kMaxEntryCount_def encodable_def make_entry_bench bench_entry_fields)
  then obtain l2 where l2: "load_from_string ho (snd (save_to_string l)) ?new = (Status_success, None, l2)" "books_equiv l l2"
    by (rule save_load [OF inv])
  show ?thesis
    by (rule that [of l l1 l2])
      (use fill l1 l2 h in \<open>simp_all add: fill_def books_equiv_def entry_count_def\<close>)
qed

lemma bench_replay_ok:
  assumes "unat n \<le> 2 ^ 28"
  shows "bench_replay ho n = (True, \<lparr>row_name = ''history_replay'', row_events = n\<rparr>)"
    and "bench_persist ho n = (True, \<lparr>row_name = ''persistence_save_load'', row_events = n\<rparr>)"
proof -
  obtain l l1 l2 where "fill ho n (EfficiencyLedger_new kDefaultLedgerId) = (True, l)"
    "load_history ho (l_history l) (EfficiencyLedger_new kDefaultLedgerId) = (Status_success, l1)" "entry_count l1 = unat n"
    "load_from_string ho (snd (save_to_string l)) (EfficiencyLedger_new kDefaultLedgerId) = (Status_success, None, l2)"
    "entry_count l2 = unat n"
    by (rule bench_reload [OF assms])
  then show "bench_replay ho n = (True, \<lparr>row_name = ''history_replay'', row_events = n\<rparr>)"
    and "bench_persist ho n = (True, \<lparr>row_name = ''persistence_save_load'', row_events = n\<rparr>)"
    by (simp_all add: bench_replay_def bench_persist_def Status_ok_def Status_success_def save_to_string_def Let_def split: prod.splits)
qed

lemma bench_digest_ok:
  assumes "unat n \<le> 2 ^ 28"
  shows "bench_digest ho n =
    (digest ((EfficiencyLedger_new kDefaultLedgerId)\<lparr>l_history := map make_entry (indices n)\<rparr>) \<noteq> 0,
     \<lparr>row_name = ''digest'', row_events = n\<rparr>)"
proof -
  obtain l where fill: "fill_with ho make_entry n (EfficiencyLedger_new kDefaultLedgerId) = (True, l)"
    and h: "l_history l = map make_entry (indices n)"
    unfolding make_entry_bench by (rule fill_run [OF assms]) (auto simp: id_valid_def)
  have "digest l = digest ((EfficiencyLedger_new kDefaultLedgerId)\<lparr>l_history := map make_entry (indices n)\<rparr>)"
    by (rule digest_history) (simp add: h)
  with fill show ?thesis by (simp add: bench_digest_def fill_def)
qed

text \<open>Without entries there is no account to count.\<close>

lemma bench_aggregation_empty:
  "bench_aggregation ho 0 = (True, \<lparr>row_name = ''account_aggregation'', row_events = 0\<rparr>)"
proof -
  have "rc_closed (reconcile ho (EfficiencyLedger_new kDefaultLedgerId))"
    by (rule reconcile_closed(1)) (simp_all add: EfficiencyLedger_new_def closed_accounts_def)
  moreover have "entry_count (EfficiencyLedger_new kDefaultLedgerId) = 0"
    by (simp add: entry_count_def EfficiencyLedger_new_def)
  moreover have "length (account_summaries ho (EfficiencyLedger_new kDefaultLedgerId)) = 0"
    by (simp add: account_summaries_def EfficiencyLedger_new_def in_order_def)
  ultimately show ?thesis
    by (simp add: bench_aggregation_def fill_agg_def fill_with_def indices_def Let_def)
qed

section \<open>The threads share the work out\<close>

lemma partition_nat:
  fixes n T :: nat
  assumes "0 < T"
  defines "b \<equiv> \<lambda>t. t * (n div T) + min t (n mod T)"
  shows "concat (map (\<lambda>t. [b t..<b (Suc t)]) [0..<T]) = [0..<n]"
proof -
  have "concat (map (\<lambda>t. [b t..<b (Suc t)]) [0..<m]) = [0..<b m]" for m
  proof (induction m)
    case (Suc m)
    have "b m \<le> b (Suc m)" by (simp add: b_def)
    then have "[0..<b (Suc m)] = [0..<b m] @ [b m..<b (Suc m)]"
      using upt_add_eq_append [of 0 "b m" "b (Suc m) - b m"] by simp
    with Suc show ?case by simp
  qed (simp add: b_def)
  moreover have "b T = n"
    using assms(1) mod_less_divisor [OF assms(1), of n] by (simp add: b_def min_def)
  ultimately show ?thesis by metis
qed

text \<open>The word arithmetic of the bounds does not wrap, because no bound exceeds \<open>n\<close>.\<close>

lemma thread_bounds:
  assumes "threads \<noteq> 0" and "t < unat threads"
  shows "unat (thread_begin n threads (word_of_nat t)) = t * (unat n div unat threads) + min t (unat n mod unat threads)"
    and "unat (thread_begin n threads (word_of_nat t)) + unat (thread_count n threads (word_of_nat t)) =
      Suc t * (unat n div unat threads) + min (Suc t) (unat n mod unat threads)"
    and "unat (thread_begin n threads (word_of_nat t)) + unat (thread_count n threads (word_of_nat t)) \<le> unat n"
proof -
  let ?p = "unat n div unat threads" and ?x = "unat n mod unat threads"
  have T: "0 < unat threads" using assms(1) by (simp add: unat_gt_0)
  have t: "unat (word_of_nat t :: u64) = t"
    using assms(2) unat_u64_less [of threads] by (simp add: unat_of_nat take_bit_eq_mod del: unat_u64_less)
  have x: "?x < unat threads" using T by simp
  have top: "Suc t * ?p + min (Suc t) ?x \<le> unat n"
  proof -
    have "Suc t * ?p \<le> unat threads * ?p" using assms(2) by (intro mult_le_mono1) simp
    moreover have "unat threads * ?p + ?x = unat n" by (simp add: mult_div_mod_eq)
    ultimately show ?thesis using min.cobounded2 [of "Suc t" ?x] by linarith
  qed
  then have "t * ?p + min t ?x < 18446744073709551616" "t * ?p < 18446744073709551616" "?p + 1 \<le> unat n + 1"
    using unat_u64_less [of n] by (auto simp del: unat_u64_less)
  moreover have "unat (min (word_of_nat t) (n mod threads)) = min t ?x"
    by (simp add: min_def word_le_nat_alt unat_mod t)
  ultimately have begin': "unat (thread_begin n threads (word_of_nat t)) = t * ?p + min t ?x"
    using unat_mult_lem [of "word_of_nat t" "n div threads"]
      unat_add_lem [of "word_of_nat t * (n div threads)" "min (word_of_nat t) (n mod threads)"]
    by (simp add: thread_begin_def t unat_div)
  show "unat (thread_begin n threads (word_of_nat t)) = t * ?p + min t ?x" by (rule begin')
  have "?p + (if t < ?x then 1 else 0) < 18446744073709551616"
    using top unat_u64_less [of n] by (auto simp del: unat_u64_less)
  then have "unat (thread_count n threads (word_of_nat t)) = ?p + (if t < ?x then 1 else 0)"
    using unat_add_lem [of "n div threads" 1] by (auto simp: thread_count_def unat_div unat_mod t word_less_nat_alt split: if_splits)
  with begin' top show "unat (thread_begin n threads (word_of_nat t)) + unat (thread_count n threads (word_of_nat t)) = Suc t * ?p + min (Suc t) ?x"
    and "unat (thread_begin n threads (word_of_nat t)) + unat (thread_count n threads (word_of_nat t)) \<le> unat n"
    by (auto simp: min_def)
qed

lemma thread_work_all:
  assumes "threads \<noteq> 0"
  shows "concat (map (\<lambda>t. thread_work n threads (word_of_nat t)) [0..<unat threads]) = map make_entry (indices n)"
proof -
  let ?b = "\<lambda>t. t * (unat n div unat threads) + min t (unat n mod unat threads)"
  have "thread_work n threads (word_of_nat t) = map (make_entry \<circ> word_of_nat) [?b t..<?b (Suc t)]" if "t < unat threads" for t
  proof -
    let ?s = "thread_begin n threads (word_of_nat t)" and ?c = "thread_count n threads (word_of_nat t)"
    note bounds = thread_bounds [OF assms that, of n]
    have "thread_work n threads (word_of_nat t) = map (\<lambda>k. make_entry (?s + word_of_nat k)) [0..<unat ?c]"
      by (simp add: thread_work_def indices_def comp_def)
    also have "\<dots> = map (\<lambda>k. make_entry (word_of_nat (k + unat ?s))) [0..<unat ?c]"
      by (simp add: add.commute)
    also have "\<dots> = map (make_entry \<circ> word_of_nat) (map (\<lambda>k. k + unat ?s) [0..<unat ?c])"
      by simp
    also have "map (\<lambda>k. k + unat ?s) [0..<unat ?c] = [?b t..<?b (Suc t)]"
      unfolding map_add_upt bounds(1) [symmetric] bounds(2) [symmetric] by (simp add: add.commute)
    finally show ?thesis .
  qed
  then have "map (\<lambda>t. thread_work n threads (word_of_nat t)) [0..<unat threads] =
      map (\<lambda>t. map (make_entry \<circ> word_of_nat) [?b t..<?b (Suc t)]) [0..<unat threads]"
    by (intro map_cong) simp_all
  then have "concat (map (\<lambda>t. thread_work n threads (word_of_nat t)) [0..<unat threads]) =
      map (make_entry \<circ> word_of_nat) (concat (map (\<lambda>t. [?b t..<?b (Suc t)]) [0..<unat threads]))"
    by (simp only: map_concat map_map comp_def)
  also have "concat (map (\<lambda>t. [?b t..<?b (Suc t)]) [0..<unat threads]) = [0..<unat n]"
    using assms by (intro partition_nat) (simp add: unat_gt_0)
  finally show ?thesis by (simp add: indices_def)
qed

lemma bench_concurrent_ok:
  assumes "unat n \<le> 2 ^ 28" and "threads \<noteq> 0"
    and "interleaving (map (\<lambda>t. thread_work n threads (word_of_nat t)) [0..<unat threads]) schedule"
  shows "bench_concurrent ho schedule n = (True, \<lparr>row_name = ''concurrent_append(8t)'', row_events = n\<rparr>)"
proof -
  have "mset schedule = mset (map (bench_entry (\<lambda>_. Identity 3)) (indices n))"
    using interleaving_mset [OF assms(3)] unfolding thread_work_all [OF assms(2)] make_entry_bench .
  then obtain l where "append_all ho schedule (EfficiencyLedger_new kDefaultLedgerId) = (Status_success, l)"
    and "l_history l = schedule" and "rc_closed (reconcile ho l)"
    by (rule bench_run [OF assms(1), rotated]) (simp_all add: id_valid_def)
  moreover have "length schedule = unat n"
    using \<open>mset schedule = _\<close> by (metis length_indices length_map size_mset)
  ultimately show ?thesis
    by (simp add: bench_concurrent_def append_counting_all entry_count_def)
qed

section \<open>A schedule\<close>

text \<open>Running the threads one after the other is one of the schedules.\<close>

lemma interleaving_prepend: "interleaving tss ys \<Longrightarrow> interleaving (xs # tss) (xs @ ys)"
proof (induction xs)
  case Nil
  from Nil have "interleaving ([] # tss) ys"
  proof (induction rule: interleaving.induct)
    case (finished tss)
    then show ?case by (intro interleaving.finished) simp
  next
    case (step t tss x xs ys)
    then show ?case by (intro interleaving.step [of "Suc t"]) simp_all
  qed
  then show ?case by simp
next
  case (Cons x xs)
  then show ?case unfolding append_Cons by (intro interleaving.step [of 0 _ x xs]) simp_all
qed

lemma interleaving_concat: "interleaving tss (concat tss)"
  by (induction tss) (auto intro: interleaving.finished interleaving_prepend)

end
