(* ===== verification/Spec2Isabelle.thy ===== *)
theory Spec2Isabelle
  imports EL_Scenarios EL_Concurrent EL_Programs EL_Examples EL_Cuda EL_Bench
begin

text \<open>
  A verification library of the Efficiency Ledger.

  \<^bold>\<open>The program.\<close> The Efficiency Ledger (namespace \<^verbatim>\<open>el\<close>) is an append-only record of what computations
  consumed. Clients append entries; each entry names an account or a group of weighted participants,
  a classification (useful, overhead, waste, avoided work, stranded capacity, unknown), amounts in
  sixteen resource dimensions, and the authority under which it was produced (epoch, generations,
  worker boot, attempt, publication). The ledger checks the entry, apportions its amounts over the
  accounts, merges them into 64-bit counters and appends the entry to its history. A revision moves
  the amounts of an earlier entry to another class. A ledger is saved as a checksummed record and
  loaded by replaying its history. A coordinator process serves one ledger to workers over sockets.

  \<^bold>\<open>The theories.\<close> The order is that of the code; each theory says in its first block what it holds.

  \<^item> \<open>EL_Prelude\<close>: word types and bytes, \<open>stmts\<close> and \<open>for_each\<close> for loops that may stop with a status, traversal
    orders, what a sequence of calls holds (\<open>holding\<close>), and the shared lemmas on lists, words and maps.
  \<^item> \<open>EL_Types\<close>: identities (\<^verbatim>\<open>id.hpp\<close>), enumerations (\<^verbatim>\<open>enums.hpp\<close>) and \<open>Status\<close> (\<^verbatim>\<open>error.hpp\<close>). An enumeration
    is a word of its underlying type, so that values outside the enumerators exist as they do in C++.
  \<^item> \<open>EL_Resource\<close>: checked arithmetic and \<open>ResourceUsage\<close> (\<^verbatim>\<open>resource.hpp\<close>). \<open>EL_Entry\<close>: entries and their
    validation (\<^verbatim>\<open>entry.hpp\<close>, \<^verbatim>\<open>attribution.hpp\<close>).
  \<^item> \<open>EL_Attribution\<close>: \<open>distribute_dim\<close> and \<open>compute_attribution\<close> of \<^verbatim>\<open>ledger.cpp\<close>, with the quota, the largest
    remainders and the exactness of the shares.
  \<^item> \<open>EL_Ledger\<close>: the state of \<open>EfficiencyLedger\<close> as a record and its operations, \<open>append_locked\<close> first of all,
    \<open>apply_attribution\<close>, \<open>apply_reclassify_locked\<close>, the setters and \<open>load_history\<close>; the queries and \<open>reconcile\<close> are in \<open>EL_Reconcile\<close>.
  \<^item> \<open>EL_Accounting\<close>, \<open>EL_Append\<close>, \<open>EL_Reclassify\<close>, \<open>EL_Reconcile\<close>: the loops over counters as lists of cells, what
    merging and moving does to a counter, when it fits, and when reconciliation closes.
  \<^item> \<open>EL_Invariants\<close>: the calls of the ledger as a step relation (\<open>reachable faults l\<close>: reached from a new ledger
    by calls none of which returned a code in \<open>faults\<close>) and the locale of invariants under it, with its
    interpretations. \<open>EL_Gates\<close>, \<open>EL_Books\<close>, \<open>EL_Replay\<close>, \<open>EL_Acceptance\<close>: authority and at-most-once gates, the
    abstract books that are computed from a history, replay, and acceptance as a matter of the
    history. \<open>EL_Failures\<close>, \<open>EL_Scenarios\<close>: what stays behind after an overflow or a failed revision, and
    concrete runs.
  \<^item> \<open>EL_Codec\<close>, \<open>EL_Integrity\<close>, \<open>EL_Persistence\<close>: the byte format of entries, CRC-32C and digest, records, \<open>save\<close>
    and \<open>load\<close> over a file system whose operations may fail (\<open>save_env\<close>).
  \<^item> \<open>EL_Protocol\<close>, \<open>EL_Coordinator\<close>, \<open>EL_Service\<close>: frames and status payloads (\<^verbatim>\<open>protocol.cpp\<close>, \<^verbatim>\<open>frame_io.hpp\<close>), the byte
    loops of \<^verbatim>\<open>socket.hpp\<close>, the coordinator and the worker (\<^verbatim>\<open>tools/el_coordinator.cpp\<close>, \<^verbatim>\<open>tools/el_worker.cpp\<close>).
  \<^item> \<open>EL_Concurrent\<close>: the public operations of the ledger as threads call them, split into the critical
    sections of the code, with the unlocked look-up of \<open>reclassify\<close> and the two sections of \<open>load_from_string\<close>
    as steps of their own. The state records which threads are ordered after the last write of the
    index and the history, and whether a look-up has raced with a write. The atomic ledger is the
    specification, and a forward simulation relates the two.
  \<^item> \<open>EL_Socket\<close>, \<open>EL_Programs\<close>: the descriptors of \<^verbatim>\<open>socket.hpp\<close> (POSIX branch): opening, binding, accepting,
    connecting with retries, closing and moving; the main programs of the coordinator and the worker as
    a whole, with command line, ledger, sockets and exit code, and the version strings.
  \<^item> \<open>EL_Cli\<close>, \<open>EL_Clients\<close>: the command line tool (\<^verbatim>\<open>tools/el_cli.cpp\<close>), what a client that fills a fresh
    ledger can rely on. \<open>EL_Examples\<close>: the programs under \<^verbatim>\<open>examples\<close> and what they print.
  \<^item> \<open>EL_Kernel\<close>, \<open>EL_Cuda\<close>: the index arithmetic of the kernel of the CUDA proof (\<^verbatim>\<open>cu/el_cuda_proof.cu\<close>), and its
    timers and main program with all error paths, over a CUDA runtime that is an argument. The calls
    made are recorded in a trace with their answers, from which \<open>held\<close> computes what has not been
    released, \<open>leaked\<close> what could not be, and \<open>measurements\<close> what the timers have timed and measured.
  \<^item> \<open>EL_Bench\<close>: the benchmark (\<^verbatim>\<open>benchmarks/el_bench.cpp\<close>), with the schedules of its threads as interleavings.

  \<^bold>\<open>How state and operations correspond.\<close> Every operation takes the ledger and returns a status with the new
  ledger; every early return is a branch, and a loop that stops in the middle returns the state it had
  reached. The unordered maps of the code are association lists in insertion order, and every loop
  over one of them takes the traversal order as an argument \<open>ho\<close>, about which nothing is assumed but
  that it permutes. Counters, identities and lengths have the width of the code. What is outside the
  sources is an argument: the answers of the file system, the pieces in which \<open>recv\<close> delivers and
  \<open>send\<close> accepts bytes, the conversions \<open>atoi\<close> and \<open>stoull\<close>, the descriptors the system hands out, the
  answers of the CUDA runtime with the times it measures, and the schedule of threads.

  \<^bold>\<open>What is shown.\<close> Accounting: the counters refine the totals of the history, the physical amounts are
  conserved, reconciliation closes, every reachable ledger is well formed, acceptance is characterised
  exactly and consistent runs are accepted (C1 to C8). Authority: attempts in order, completions at
  most once, useful work authorised (C9 to C11). Concurrency: the ledger is linearizable as long as
  there is no data race and nobody loads a record, its states are those of sequential calls in any
  case, and a load is not atomic (C12 to C14). Apportionment: quota, largest remainder, exactness, independence of the traversal order
  (C15 to C18). Revisions and failures: what moves, and what is left behind when a revision or a merge
  stops (C19 to C21). Persistence: replay, round trips, canonical codecs, damage and truncation,
  records that cannot be loaded, checksum and digest (C22 to C29). Service: frames, byte streams, durability of
  acknowledgements, the worker's view (C30 to C34). Clients: the CUDA proof with its resources and its
  kernel, the benchmarks and their schedules (C35 to C39), and the sockets of coordinator and worker (C40).
  Of the facts that stay in the theories: a note over one MiB blocks the load of its record (\<open>EL_Persistence\<close>),
  a second revision takes the amounts out of the old bucket again and a revision of an attempt binds
  no later entry (\<open>EL_Scenarios\<close>), \<open>reclassify\<close> races with \<open>append\<close> (\<open>EL_Concurrent\<close>), and the lines the examples print.

  \<^bold>\<open>Loops.\<close> No definition uses fuel. Loops over lists are structural; \<open>recv_loop\<close>, \<open>serve_bytes\<close>
  and \<open>grid_stride\<close> terminate by a measure, the bytes left in the stream or the distance to the end. \<open>connect_loop\<close>
  counts its hundred attempts down. The bound \<open>2 ^ 28\<close> on benchmark sizes is the entry limit of the record reader.

  \<^bold>\<open>Not modelled.\<close> Below the critical section: what runs under the mutex is one step. A data race is
  undefined behaviour in C++, of which the model keeps that the look-up that races may return any
  entry; what else it may do is not modelled, and linearizability is claimed without races only.
  The pointer that \<open>get\<close> returns is
  taken as the entry it points to at that time. Threads share the ledger, not the files: \<open>save\<close> is
  modelled for one caller at a time. The operating system behind sockets and files, the Windows
  branches of the code, processes and signals. The branch of \<open>load\<close> for a failed read, which the code
  cannot reach. Floating point, which only the CUDA kernel, its parity check and the conversion of
  measured times use. The clock, printing except in the command line tool and the examples, and memory
  exhaustion except of the host buffers of the CUDA proof. The tests, which only call the operations
  above, and build files.
\<close>

section \<open>The books\<close>

text \<open>
  C1 (refinement). In every state that the ledger reaches by calls that reported neither an overflow
  nor a reconciliation failure, each 64-bit counter of each account equals, as a number, the total
  that the abstract book-keeping computes from the history alone: what ordinary entries were
  attributed, plus what revisions moved in, minus what revisions moved out.
\<close>

theorem counters_refine_history:
  assumes "reachable {ErrorCode_kOverflow, ErrorCode_kReconciliationFailure} l"
  shows "int (cell_of (l_accounts l) k f d) = book_totals (l_history l) k f d"
  using exact.reachable_keeps [OF assms] by (simp add: exact_ledger_def)

theorem counters_refine_history_witness:
  "int (cell_of (l_accounts sample_ledger) (Identity 8) FWaste kCpuNanoseconds) = 67"
proof -
  have "book_totals sample_entries (Identity 8) FWaste kCpuNanoseconds = 67"
    by code_simp
  then show ?thesis
    using counters_refine_history [OF sample_reachable, of "Identity 8" FWaste kCpuNanoseconds]
    by (simp add: sample_history)
qed

text \<open>
  C2 (invariant). As long as no call has reported an overflow or a reconciliation failure, nothing is
  lost and nothing is counted twice: the physical totals of all accounts together are the usage of
  all ordinary entries of the history.
\<close>

theorem physical_conserved:
  assumes "reachable {ErrorCode_kOverflow, ErrorCode_kReconciliationFailure} l"
  shows "(\<Sum>(k, a) \<leftarrow> l_accounts l. unat (ag_physical a d)) = (\<Sum>e \<leftarrow> ordinary (l_history l). unat (e_usage e d))"
proof -
  have inv: "exact_ledger l" by (rule exact.reachable_keeps [OF assms])
  let ?A = "fst ` set (l_accounts l)"
  have "(\<Sum>(k, a) \<leftarrow> l_accounts l. unat (ag_physical a d)) =
      (\<Sum>k \<in> ?A. case map_of (l_accounts l) k of None \<Rightarrow> 0 | Some a \<Rightarrow> unat (ag_physical a d))"
    using inv by (intro map_of_distinct_sum) (auto simp: exact_ledger_def wf_ledger_def)
  also have "\<dots> = (\<Sum>k \<in> ?A. cell_of (l_accounts l) k FPhysical d)"
    by (intro sum.cong) (auto simp: cell_of_def agg_of_def AccountAggregate_zero_def split: option.splits)
  finally have "int (\<Sum>(k, a) \<leftarrow> l_accounts l. unat (ag_physical a d)) =
      (\<Sum>k \<in> ?A. book_totals (l_history l) k FPhysical d)"
    using inv by (simp add: exact_ledger_def)
  also have "\<dots> = int (\<Sum>e \<leftarrow> ordinary (l_history l). unat (e_usage e d))"
    using inv by (intro book_totals_physical) (simp_all add: exact_ledger_def)
  finally show ?thesis by (simp only: of_nat_eq_iff)
qed

theorem physical_conserved_witness:
  "(\<Sum>(k, a) \<leftarrow> l_accounts sample_ledger. unat (ag_physical a kCpuNanoseconds)) = 110"
proof -
  have "(\<Sum>e \<leftarrow> ordinary sample_entries. unat (e_usage e kCpuNanoseconds)) = 110"
    by code_simp
  then show ?thesis
    using physical_conserved [OF sample_reachable, of kCpuNanoseconds] by (simp add: sample_history)
qed

text \<open>
  C3 (safety). As long as no revision has failed, \<open>reconcile\<close> reports closure, in every dimension
  and for every traversal order, also after refused entries and after overflows.
\<close>

theorem reconcile_closes:
  assumes "reachable {ErrorCode_kReconciliationFailure} l"
  shows "rc_closed (reconcile ho l) \<and> rc_messages (reconcile ho l) = [''reconciliation closed'']"
  using reconcile_closed [of l ho] closed.reachable_keeps [OF assms]
  by (simp add: closed_ledger_def wf_ledger_def)

theorem reconcile_closes_witness: "rc_closed (reconcile reverse_insertion_order sample_ledger)"
  using reconcile_closes [OF sample_reachable, of reverse_insertion_order] by simp

section \<open>Append\<close>

text \<open>
  C4 (type). Every state the ledger can reach is well formed: the index gives exactly the positions of
  the ids, no account occurs twice, every recorded entry, ordinary or a revision, is valid, and every
  ordinary entry is consistent with its class and has all its accounts in the table. Revisions are
  exempt from the last two, as the code checks neither for them.
\<close>

theorem ledger_well_formed:
  assumes "reachable {} l"
  shows "(\<forall>k i. l_index l k = Some i \<longleftrightarrow> i < length (l_history l) \<and> e_id (l_history l ! i) = k) \<and>
    distinct (map fst (l_accounts l)) \<and> list_all LedgerEntry_validate (l_history l) \<and>
    list_all (\<lambda>e. e_event e = EventType_kReclassify \<or> Status_ok (check_classification_consistency e) \<and>
      touched e \<subseteq> fst ` set (l_accounts l)) (l_history l)"
  using wf.reachable_keeps [OF assms]
  by (auto simp: wf_ledger_def index_ok_def entry_ok_def list_all_iff split: if_splits)

theorem ledger_well_formed_witness:
  "distinct (map fst (l_accounts sample_ledger)) \<and> list_all LedgerEntry_validate (l_history sample_ledger) \<and>
     list_all (\<lambda>e. e_event e = EventType_kReclassify \<or> Status_ok (check_classification_consistency e) \<and>
       touched e \<subseteq> fst ` set (l_accounts sample_ledger)) (l_history sample_ledger)"
  using ledger_well_formed [of sample_ledger] sample_reachable by blast

text \<open>
  C5 (functional). As long as no call has reported an overflow or a reconciliation failure, it is a
  matter of the history and the authority state alone when an ordinary entry is accepted: the entry is admissible under the current authority, its id is new, it may follow
  every earlier entry of its attempt, the lifecycle it completes is not completed by an earlier
  entry, and the totals of the history leave room for it. The index, the attempt table, the four
  completion sets and the counters are caches that do not disagree with this.
\<close>

theorem append_iff_history:
  assumes "reachable {ErrorCode_kOverflow, ErrorCode_kReconciliationFailure} l" and "e_event e \<noteq> EventType_kReclassify"
  shows "Status_ok (fst (append_locked ho e l)) \<longleftrightarrow> entry_admissible l e \<and> history_admits (l_history l) e"
  by (rule append_iff_admits [OF cached.reachable_keeps [OF assms(1)] assms(2)])

theorem append_iff_history_witness:
  "\<not> Status_ok (fst (append_locked insertion_order shared_work sample_ledger))"
proof -
  have "\<not> history_admits (l_history sample_ledger) shared_work"
    unfolding sample_history by (simp add: history_admits_def sample_entries_def)
  moreover have "e_event shared_work \<noteq> EventType_kReclassify"
    by (simp add: shared_work_def)
  ultimately show ?thesis
    using append_iff_history [OF sample_reachable, of shared_work insertion_order] by simp
qed

text \<open>
  C6 (error). An entry that is refused for any reason but an arithmetic failure leaves the whole
  ledger as it was.
\<close>

theorem refused_entry_changes_nothing:
  assumes "append_locked ho e l = (st, l')" and "\<not> Status_ok st"
    and "status_code st \<noteq> ErrorCode_kOverflow" and "status_code st \<noteq> ErrorCode_kReconciliationFailure"
  shows "l' = l"
  using assms by (rule append_rejected)

theorem refused_entry_changes_nothing_witness:
  "snd (append_locked insertion_order LedgerEntry_default (EfficiencyLedger_new (Identity 1))) = EfficiencyLedger_new (Identity 1)"
proof -
  have "fst (append_locked insertion_order LedgerEntry_default (EfficiencyLedger_new (Identity 1))) =
      Status ErrorCode_kInvalidInput ''invalid accounting entry''"
    by (simp add: append_locked_def EfficiencyLedger_new_def LedgerEntry_validate_def LedgerEntry_default_def)
  then show ?thesis
    by (intro refused_entry_changes_nothing [OF surjective_pairing]) (simp_all add: Status_ok_def)
qed

text \<open>
  C7 (functional). An accepted entry, ordinary or a revision, is the last entry of the history and is
  found under its id; every other id finds what it found before; ids stay unique.
\<close>

theorem accepted_entry_recorded:
  assumes "reachable {} l" and "append_locked ho e l = (st, l')" and "Status_ok st"
  shows "l_history l' = l_history l @ [e] \<and> distinct (map e_id (l_history l')) \<and>
    get (e_id e) l' = Some e \<and> (\<forall>k. k \<noteq> e_id e \<longrightarrow> get k l' = get k l)"
proof -
  have wf: "wf_ledger l" by (rule wf.reachable_keeps [OF assms(1)])
  have wf': "wf_ledger l'" by (rule append_wf [OF wf assms(2)])
  have h: "l_history l' = l_history l @ [e]" by (rule append_contribution(2) [OF wf assms(2,3)])
  have ids: "distinct (map e_id (l_history l'))"
    using wf' by (intro ids_unique) (simp add: wf_ledger_def)
  then have "e_id e \<notin> e_id ` set (l_history l)" by (simp add: h)
  then have fresh: "\<forall>x \<in> set (l_history l). e_id x \<noteq> e_id e" by (metis imageI)
  have "find_entry k (l_history l @ [e]) = (if k = e_id e then Some e else find_entry k (l_history l))" for k
    using find_entry_fresh [OF fresh] by (simp add: find_entry_snoc split: option.splits)
  with ids h wf wf' show ?thesis
    by (simp add: get_find_entry wf_ledger_def)
qed

theorem accepted_entry_recorded_witness:
  "\<exists>l. append_locked insertion_order restart_entry (EfficiencyLedger_new (Identity 1)) = (Status_success, l) \<and>
     get (Identity 1) l = Some restart_entry"
proof -
  obtain l where run: "append_locked insertion_order restart_entry (EfficiencyLedger_new (Identity 1)) = (Status_success, l)"
    by (rule restart_entry_accepted)
  have "get (e_id restart_entry) l = Some restart_entry"
    using accepted_entry_recorded [OF reachable.start run] by (simp add: Status_ok_def Status_success_def)
  with run show ?thesis by (auto simp: restart_entry_def)
qed

text \<open>
  C8 (liveness). A sequence of entries that is consistent in itself (ids distinct, attempts in order,
  every lifecycle completed once, sums below the width of the counters) and admissible is accepted
  by a fresh ledger entry by entry, for every traversal order.
\<close>

theorem admissible_run_accepted:
  assumes "run_ok es" and "\<forall>e \<in> set es. entry_admissible (EfficiencyLedger_new lid) e"
  shows "\<exists>l. append_all ho es (EfficiencyLedger_new lid) = (Status_success, l) \<and> l_history l = es"
  using run_accepted [OF cached_new _ assms] by (auto simp: EfficiencyLedger_new_def)

theorem admissible_run_accepted_witness:
  "\<exists>l. append_all reverse_insertion_order retry_and_reuse_entries (EfficiencyLedger_new (Identity 1)) = (Status_success, l) \<and>
     l_history l = retry_and_reuse_entries"
  by (rule admissible_run_accepted [OF examples_run_ok(2) examples_admissible(2)])

section \<open>Gates\<close>

text \<open>
  C9 (safety). The entries of one attempt follow each other as its fences prescribe: publications
  increase strictly, and after an outcome there is no second outcome, no completion signal and no
  entry of another attempt generation. Every ordinary entry binds all entries of its attempt after
  it, ordinary ones and revisions; a revision binds nothing, since it does not enter the attempt table.
\<close>

theorem attempts_in_order:
  assumes "reachable {} l"
  shows "sorted_wrt (\<lambda>x y. e_event x \<noteq> EventType_kReclassify \<longrightarrow> may_follow x y) (attempt_history a (l_history l))"
  using histories.reachable_keeps [OF assms] by (simp add: histories_ok_def follows_ordinary_def [abs_def])

theorem attempts_in_order_witness:
  "attempt_history (Identity 9) (l_history undercut_ledger) = undercut_entries \<and>
   may_follow (undercut_entries ! 0) (undercut_entries ! 1) \<and> may_follow (undercut_entries ! 0) (undercut_entries ! 2)"
proof -
  have "attempt_history (Identity 9) (l_history undercut_ledger) = undercut_entries"
    unfolding undercut_history by (simp add: attempt_history_def undercut_entries_def attempt_work_def has_attempt_def
        id_valid_def id_invalid_def)
  with attempts_in_order [OF undercut_reachable, of "Identity 9"] show ?thesis
    by (simp add: undercut_entries_def attempt_work_def LedgerEntry_default_def)
qed

text \<open>
  C10 (safety). Every transfer, reservation, allocation and recovery is completed at most once in the
  history, however often its completion was reported.
\<close>

theorem completions_at_most_once:
  assumes "reachable {} l"
  shows "distinct (map (\<lambda>e. o_transfer (e_owners e)) (filter completes_transfer (l_history l))) \<and>
    distinct (map (\<lambda>e. o_reservation (e_owners e)) (filter releases_reservation (l_history l))) \<and>
    distinct (map (\<lambda>e. o_allocation (e_owners e)) (filter releases_allocation (l_history l))) \<and>
    distinct (map (\<lambda>e. o_recovery (e_owners e)) (filter ends_recovery (l_history l)))"
  using transfer.once.reachable_keeps [OF assms] reservation.once.reachable_keeps [OF assms]
    allocation.once.reachable_keeps [OF assms] recovery.once.reachable_keeps [OF assms]
  by (simp add: recorded_once_def)

theorem completions_at_most_once_witness:
  "filter completes_transfer (l_history sample_ledger) = [finished_transfer] \<and>
   distinct (map (\<lambda>e. o_transfer (e_owners e)) (filter completes_transfer (l_history sample_ledger)))"
proof -
  have "filter completes_transfer (l_history sample_ledger) = [finished_transfer]"
    unfolding sample_history by (simp add: completes_transfer_def sample_entries_def shared_work_def published_work_def
        finished_transfer_def waste_revision_def id_valid_def)
  with completions_at_most_once [OF sample_reachable] show ?thesis by simp
qed

text \<open>
  C11 (safety). No ordinary entry is booked as USEFUL without an authoritative use: a publication, or an
  event that reuses or restores state.
\<close>

theorem useful_needs_authority:
  assumes "reachable {} l" and "e \<in> set (l_history l)" and "e_event e \<noteq> EventType_kReclassify"
    and "e_classification e = EfficiencyClass_kUseful"
  shows "is_authoritative_use e"
  using useful.reachable_keeps [OF assms(1)] assms(2-) by (simp add: useful_authorized_def)

theorem useful_needs_authority_witness: "is_authoritative_use published_work"
  by (rule useful_needs_authority [OF sample_reachable])
    (simp_all add: sample_history sample_entries_def published_work_def)

section \<open>Concurrent calls\<close>

text \<open>
  C12 (refinement). Without a data race the ledger is linearizable for callers that do not load from a
  record. Threads call its operations at the same time; each operation runs in the critical sections
  of the code, \<open>reclassify\<close> with its look-up outside of them. In an execution in which no look-up has
  raced with a write of the index or the history, for which it is enough that nobody calls \<open>reclassify\<close>,
  whatever the callers see, the calls and the answers in their order, they also see in an execution
  of the atomic ledger, in which each operation takes effect in one step between its call and its
  answer, and which ends with the same books; and the position that \<open>reclassify\<close> found is never past
  the end of the history.
\<close>

theorem ledger_linearizable:
  assumes "reachable faults l" and "executes concurrent_step (idle_threads l) tr s"
    and "\<forall>t bs. Invoke t (LoadFromString bs) \<notin> set tr"
    and "\<not> th_raced s \<or> (\<forall>t req. Invoke t (Call (Reclassify req)) \<notin> set tr)"
  shows "(\<exists>a. executes atomic_step (idle_atomic l) tr a \<and> am_ledger a = th_ledger s) \<and>
    (\<forall>t req. th_phase s t \<noteq> OutOfRange req)"
proof -
  have "reachable {} l" using assms(1) by (rule reachable_mono) simp
  then have wf: "wf_ledger l" by (rule wf.reachable_keeps)
  have "list_all no_reclassify tr" if "\<forall>t req. Invoke t (Call (Reclassify req)) \<notin> set tr"
    using that by (simp add: list_all_iff no_reclassify_iff) blast
  then have calm: "\<not> th_raced s" using assms(4) race_free [OF assms(2)] by blast
  have "list_all loads_no_record tr"
    using assms(3) by (auto simp: list_all_iff loads_no_record_def split: event.splits)
  then obtain a where a: "executes atomic_step (idle_atomic l) tr a" "threads_rel s a"
    using linearizes [OF assms(2) wf _ calm] by blast
  then have "th_phase s t \<noteq> OutOfRange req" for t req
    by (metis threads_rel_def phase_rel.simps(5))
  with a show ?thesis by (auto simp: threads_rel_def)
qed

theorem ledger_linearizable_witness:
  "\<exists>a. executes atomic_step (idle_atomic one_entry_ledger) shutdown_trace a \<and>
     am_ledger a = set_shutting_down one_entry_ledger"
proof -
  obtain s where s: "executes concurrent_step (idle_threads one_entry_ledger) shutdown_trace s"
    "\<not> th_raced s" "th_ledger s = set_shutting_down one_entry_ledger"
    using shutdown_schedule_run run_schedule_executes [OF _ executes.stop] by blast
  have "reachable {} one_entry_ledger" by (rule one_entry_reachable) simp
  moreover have "\<forall>t bs. Invoke t (LoadFromString bs) \<notin> set shutdown_trace"
    by (simp add: shutdown_trace_def)
  ultimately show ?thesis using ledger_linearizable [OF _ s(1)] s(2,3) by simp
qed

text \<open>
  C13 (invariant). However the threads interleave, also when they load or race, and whatever a racing
  look-up returns, every state of the ledger between two critical sections is one that calls made one
  after the other reach. So what holds in every reachable state, such as being well formed, also
  holds under concurrency.
\<close>

theorem concurrent_states_sequential:
  assumes "executes concurrent_step (idle_threads (EfficiencyLedger_new lid)) tr s"
  shows "reachable {} (th_ledger s) \<and> wf_ledger (th_ledger s)"
proof -
  have "reachable {} (th_ledger s)"
    by (rule executes_reachable [OF assms]) (simp add: idle_threads_def reachable.start)
  then show ?thesis using wf.reachable_keeps by blast
qed

theorem concurrent_states_sequential_witness: "wf_ledger one_entry_ledger"
proof -
  obtain tr s where s: "executes concurrent_step (idle_threads (EfficiencyLedger_new (Identity 1))) tr s"
    "th_ledger s = one_entry_ledger"
    using reclassify_races by blast
  from concurrent_states_sequential [OF s(1)] s(2) show ?thesis by simp
qed

text \<open>
  C14 (error). Loading is not atomic: \<open>load_from_string\<close> takes the mutex twice. While one thread loads the record
  of the very ledger, which holds an entry, another thread appends that entry again and is told
  that it was accepted; the atomic ledger never gives this answer, since the entry is there before
  and after the load.
\<close>

theorem torn_load_observable:
  "(\<exists>s. executes concurrent_step (idle_threads one_entry_ledger) torn_trace s \<and> \<not> th_raced s) \<and>
   \<not> (\<exists>a. executes atomic_step (idle_atomic one_entry_ledger) torn_trace a)"
proof
  obtain s where s: "executes concurrent_step (idle_threads one_entry_ledger) torn_trace s"
    using torn_schedule_run run_schedule_executes [OF _ executes.stop] by blast
  moreover from this have "\<not> th_raced s" by (rule race_free) (simp add: torn_trace_def)
  ultimately show "\<exists>s. executes concurrent_step (idle_threads one_entry_ledger) torn_trace s \<and> \<not> th_raced s" by blast
  have "entry_stays (idle_atomic one_entry_ledger)"
    by (simp add: entry_stays_def idle_atomic_def one_entry_contains)
  then show "\<not> (\<exists>a. executes atomic_step (idle_atomic one_entry_ledger) torn_trace a)"
    using atomic_never_accepts [of "idle_atomic one_entry_ledger" torn_trace _ 1] by (auto simp: torn_trace_def)
qed

section \<open>Attribution of shared work\<close>

text \<open>
  C15 (bounds). The apportionment of an amount by weights gives every participant its proportional
  quota rounded down, or one unit more if the quota was not whole; nothing is left over.
\<close>

theorem apportionment_quota:
  assumes "splittable a ws" and "i < length ws"
  shows "(unat (fst (distribute_dim a ws) ! i) = quota a ws (ws ! i) \<or>
     unat (fst (distribute_dim a ws) ! i) = quota a ws (ws ! i) + 1 \<and> quota_rem a ws (ws ! i) \<noteq> 0) \<and>
    (\<Sum>x \<leftarrow> fst (distribute_dim a ws). unat x) = unat a \<and> snd (distribute_dim a ws) = 0"
  using distribute_dim_nth [OF assms] rounded_up_remainder [OF assms(1)] distribute_dim_sum [of a ws] assms
  by (cases "i \<in> rounded_up a ws") (simp_all add: distribute_dim_residual)

theorem apportionment_quota_witness:
  "unat (fst (distribute_dim 100 [1, 1, 1]) ! 0) = 34 \<and> (\<Sum>x \<leftarrow> fst (distribute_dim 100 [1, 1, 1]). unat x) = 100"
proof -
  have "splittable 100 [1, 1, 1]" by (simp add: splittable_def)
  from apportionment_quota [OF this, of 0] have "(\<Sum>x \<leftarrow> fst (distribute_dim 100 [1, 1, 1]). unat x) = 100" by simp
  moreover have "fst (distribute_dim 100 [1, 1, 1]) ! 0 = 34" by code_simp
  ultimately show ?thesis by simp
qed

text \<open>
  C16 (functional). The units left over by rounding down go to the largest remainders, and among equal
  remainders to the participants named first.
\<close>

theorem apportionment_largest_remainder:
  assumes "splittable a ws" and "i < length ws" and "j < length ws"
    and "unat (fst (distribute_dim a ws) ! i) = quota a ws (ws ! i) + 1"
    and "unat (fst (distribute_dim a ws) ! j) = quota a ws (ws ! j)"
  shows "quota_rem a ws (ws ! j) < quota_rem a ws (ws ! i) \<or>
    quota_rem a ws (ws ! j) = quota_rem a ws (ws ! i) \<and> i < j"
proof (rule rounded_up_first [OF assms(1) _ assms(3)])
  show "i \<in> rounded_up a ws"
    using distribute_dim_nth [OF assms(1,2)] assms(4) by (cases "i \<in> rounded_up a ws") simp_all
  show "j \<notin> rounded_up a ws"
    using distribute_dim_nth [OF assms(1,3)] assms(5) by (cases "j \<in> rounded_up a ws") simp_all
qed

theorem apportionment_largest_remainder_witness:
  "fst (distribute_dim 10 [3, 2, 2]) = [4, 3, 3] \<and>
   (quota_rem 10 [3, 2, 2] 3 < quota_rem 10 [3, 2, 2] 2 \<or> quota_rem 10 [3, 2, 2] 3 = quota_rem 10 [3, 2, 2] 2 \<and> (1::nat) < 0)"
proof -
  have d: "fst (distribute_dim 10 [3, 2, 2]) = [4, 3, 3]" by code_simp
  have "splittable 10 [3, 2, 2]" by (simp add: splittable_def)
  from apportionment_largest_remainder [OF this, of 1 0] d show ?thesis by simp
qed

text \<open>
  C17 (invariant). Attribution loses and invents nothing: in every dimension the shares of an entry,
  the residual share included, add up to its usage, its avoided work and its stranded capacity.
\<close>

theorem attribution_exact:
  "(\<Sum>s \<leftarrow> ar_shares (compute_attribution e). unat (as_physical s d)) = unat (e_usage e d) \<and>
   (\<Sum>s \<leftarrow> ar_shares (compute_attribution e). unat (as_avoided s d)) = unat (usage_or_zero (e_avoided_work e) d) \<and>
   (\<Sum>s \<leftarrow> ar_shares (compute_attribution e). unat (as_stranded s d)) = unat (usage_or_zero (e_stranded_capacity e) d)"
  by (simp add: compute_attribution_sum)

text \<open>
  C18 (equivalence). The order in which the hash table of pending accounts is traversed does not matter:
  an append that is accepted under one order is accepted under any other, with the same books.
\<close>

theorem traversal_order_irrelevant:
  assumes "reachable {} l" and "append_locked ho e l = (st, l1)" and "Status_ok st"
  shows "\<exists>l2. append_locked ho' e l = (Status_success, l2) \<and> books_equiv l1 l2"
proof -
  have wf: "wf_ledger l" by (rule wf.reachable_keeps [OF assms(1)])
  have "\<not> l_shutting_down l \<and> Status_ok (check_authority l e)"
    using append_ordinary_iff [OF wf, of e ho] append_revision_iff [OF wf, of e ho] assms(2,3)
    by (cases "e_event e = EventType_kReclassify") simp_all
  then show ?thesis
    using append_equiv [OF wf wf _ assms(2,3), of ho'] by (simp add: books_equiv_def)
qed

theorem traversal_order_irrelevant_witness:
  "\<exists>l1 l2. append_locked insertion_order restart_entry (EfficiencyLedger_new (Identity 1)) = (Status_success, l1) \<and>
     append_locked reverse_insertion_order restart_entry (EfficiencyLedger_new (Identity 1)) = (Status_success, l2) \<and> books_equiv l1 l2"
proof -
  obtain l1 where run: "append_locked insertion_order restart_entry (EfficiencyLedger_new (Identity 1)) = (Status_success, l1)"
    by (rule restart_entry_accepted)
  with traversal_order_irrelevant [OF reachable.start run, of reverse_insertion_order] show ?thesis
    by (auto simp: Status_ok_def Status_success_def)
qed

section \<open>Revisions and arithmetic failures\<close>

text \<open>
  C19 (functional). An accepted revision moves exactly what its target was attributed, account by
  account and dimension by dimension, from the bucket of the target's class to the bucket of the new
  class, and changes no other counter.
\<close>

theorem revision_moves_amounts:
  assumes "reachable {} l" and "append_locked ho r l = (st, l')" and "Status_ok st"
    and "e_event r = EventType_kReclassify" and "e_revision_target r = Some tid" and "get tid l = Some t"
  shows "int (cell_of (l_accounts l') k f d) = int (cell_of (l_accounts l) k f d) +
    (if bucket_field (e_classification r) = Some f then int (attributed t k FPhysical d) else 0) -
    (if bucket_field (e_classification t) = Some f then int (attributed t k FPhysical d) else 0)"
proof -
  have wf: "wf_ledger l" by (rule wf.reachable_keeps [OF assms(1)])
  have "revision_target_of (l_history l) r = Some t"
    using wf assms(5,6) by (simp add: revision_target_of_def get_find_entry wf_ledger_def)
  with append_contribution(1) [OF wf assms(2,3), of k f d] assms(4) show ?thesis
    by (simp add: contribution_def)
qed

theorem revision_moves_amounts_witness:
  "int (cell_of (l_accounts sample_ledger) (Identity 8) FWaste kCpuNanoseconds) =
     int (cell_of (l_accounts unrevised_ledger) (Identity 8) FWaste kCpuNanoseconds) + 67"
proof -
  have "get (Identity 1) unrevised_ledger = find_entry (Identity 1) (l_history unrevised_ledger)"
    using wf.reachable_keeps [OF unrevised_reachable] by (intro get_find_entry) (simp add: wf_ledger_def)
  then have target: "get (Identity 1) unrevised_ledger = Some shared_work"
    by (simp add: unrevised_history unrevised_entries_def find_entry_def shared_work_def)
  have "attributed shared_work (Identity 8) FPhysical kCpuNanoseconds = 67" by code_simp
  with revision_moves_amounts [OF unrevised_reachable sample_step _ _ _ target, of "Identity 8" FWaste kCpuNanoseconds]
  show ?thesis
    by (simp add: Status_ok_def Status_success_def waste_revision_def shared_work_def bucket_field_def)
qed

text \<open>
  C20 (error). The first revision that fails with a reconciliation failure is not recorded but has taken
  place in part. Of the shares of its target, those before some share have been moved from the
  bucket of the target's class to that of the revision's class; of that share itself, the old bucket
  has lost the amounts of all dimensions before the one that did not suffice, which no bucket has
  received; and nothing else has changed.
\<close>

theorem failed_revision_takes_out:
  assumes "reachable {ErrorCode_kReconciliationFailure} l" and "append_locked ho r l = (st, l')"
    and "status_code st = ErrorCode_kReconciliationFailure"
    and "e_revision_target r = Some tid" and "get tid l = Some t"
  shows "l_history l' = l_history l \<and>
    (\<exists>a b i n. bucket_field (e_classification t) = Some a \<and> bucket_field (e_classification r) = Some b \<and>
       stopped_at a b (ar_shares (compute_attribution t)) i n (l_accounts l) (l_accounts l'))"
proof -
  have closed: "closed_ledger l" by (rule closed.reachable_keeps [OF assms(1)])
  have run: "apply_reclassify_locked r l = (st, l')"
    using assms(2,3) check_authority_code [of l r] check_classification_code [of r] lifecycle_gate_code [of r l] pending_phase_ok [of ho r l]
    by (auto simp: append_locked_def Let_def Status_ok_def Status_success_def split: if_splits option.splits prod.splits)
  obtain a b i n where ab: "bucket_field (e_classification t) = Some a" "bucket_field (e_classification r) = Some b"
    "stopped_at a b (ar_shares (compute_attribution t)) i n (l_accounts l) (l_accounts l')"
    and l': "l' = l\<lparr>l_accounts := l_accounts l'\<rparr>"
    by (rule revision_stopped [OF closed run assms(3-5)])
  have "l_history l' = l_history l" by (subst l') simp
  with ab show ?thesis by blast
qed

theorem failed_revision_takes_out_witness:
  "cell_of (l_accounts (snd (append_locked insertion_order third_revision revised_ledger))) (Identity 7) FUnknown kCpuNanoseconds = 0"
proof -
  let ?l' = "snd (append_locked insertion_order third_revision revised_ledger)"
  let ?u = "zero_totals(kCpuNanoseconds := 100, kTransferBytes := 50)"
  let ?t = "unknown_work 1 ?u"
  have run: "append_locked insertion_order third_revision revised_ledger =
      (Status ErrorCode_kReconciliationFailure ''reclassify underflow'', ?l')"
    using third_revision_fails by (simp add: prod_eq_iff)
  have inv: "exact_ledger revised_ledger"
    by (rule exact.reachable_keeps) (rule revised_reachable, simp)
  have cpu: "cell_of (l_accounts revised_ledger) (Identity 7) FUnknown kCpuNanoseconds = 100"
  proof -
    have "book_totals revised_twice (Identity 7) FUnknown kCpuNanoseconds = 100" by code_simp
    moreover have "int (cell_of (l_accounts revised_ledger) (Identity 7) FUnknown kCpuNanoseconds) =
        book_totals revised_twice (Identity 7) FUnknown kCpuNanoseconds"
      using inv by (simp add: exact_ledger_def revised_history)
    ultimately show ?thesis by simp
  qed
  have target: "get (Identity 1) revised_ledger = Some ?t"
    using inv by (simp add: get_find_entry exact_ledger_def wf_ledger_def revised_history revised_twice_def find_entry_def unknown_work_def)
  have fields: "e_revision_target third_revision = Some (Identity 1)"
    "bucket_field (e_classification ?t) = Some FUnknown" "bucket_field (e_classification third_revision) = Some FWaste"
    by (simp_all add: third_revision_def revision_of_def unknown_work_def LedgerEntry_default_def bucket_field_def)
  obtain sh where sh: "ar_shares (compute_attribution ?t) = [sh]" "as_account sh = Identity 7" "as_physical sh = ?u"
    by (rule single_account_shares [of ?t]) (simp_all add: unknown_work_def LedgerEntry_default_def id_valid_def id_invalid_def)
  obtain i n where stop: "stopped_at FUnknown FWaste [sh] i n (l_accounts revised_ledger) (l_accounts ?l')"
    using failed_revision_takes_out [OF revised_reachable run _ fields(1) target] fields(2,3) sh(1) by auto
  then have i: "i = 0" by (simp add: stopped_at_def)
  have n: "n < length dims" "cell_of (l_accounts ?l') (Identity 7) FUnknown (dims ! n) < unat (?u (dims ! n))"
    using stop unfolding stopped_at_def i nth_Cons_0 sh(2,3) by blast+
  have "cell_of (l_accounts ?l') k f d +
      (if f = FUnknown then 0 + (if Identity 7 = k \<and> d \<in> set (take n dims) then unat (?u d) else 0) else 0) =
      cell_of (l_accounts revised_ledger) k f d + (if f = FWaste then 0 else 0)" for k f d
    using stop unfolding stopped_at_def i nth_Cons_0 sh(2,3) take_0 list.map sum_list.Nil by blast
  from this [of "Identity 7" FUnknown]
  have out: "cell_of (l_accounts ?l') (Identity 7) FUnknown d + (if d \<in> set (take n dims) then unat (?u d) else 0) =
      cell_of (l_accounts revised_ledger) (Identity 7) FUnknown d" for d
    by (simp del: fun_upd_apply)
  have "kCpuNanoseconds \<in> set (take n dims) \<or> dims ! n \<noteq> kCpuNanoseconds"
    using n(2) out [of kCpuNanoseconds] cpu by (cases "dims ! n = kCpuNanoseconds") (auto split: if_splits)
  then have "dims ! n = kTransferBytes \<or> kCpuNanoseconds \<in> set (take n dims)"
    using n(2) by (auto split: if_splits)
  moreover have "kCpuNanoseconds \<in> set (take n dims)" if "dims ! n = kTransferBytes"
  proof -
    have "n = 3" using that n(1) nth_eq_iff_index_eq [OF distinct_dims, of n 3] by (simp add: dims_def)
    then show ?thesis by (simp add: dims_def)
  qed
  ultimately have "kCpuNanoseconds \<in> set (take n dims)" by blast
  then show ?thesis
    using out [of kCpuNanoseconds] cpu by simp
qed

text \<open>
  C21 (bounds). An append that reports an overflow is not recorded, and no counter loses anything or gains
  more than the entry was attributed; but what was merged before the overflow stays, as the account
  of the first participant in the witness, which no entry of the history mentions.
\<close>

theorem overflow_bounded:
  assumes "append_locked ho e l = (st, l')" and "status_code st = ErrorCode_kOverflow"
  shows "l_history l' = l_history l \<and> cell_of (l_accounts l) k f d \<le> cell_of (l_accounts l') k f d \<and>
    cell_of (l_accounts l') k f d \<le> cell_of (l_accounts l) k f d + attributed e k f d"
proof -
  have "l_history l' = l_history l" by (subst overflow_bounds(1) [OF assms]) simp
  with overflow_bounds(2,3) [OF assms] show ?thesis by blast
qed

theorem overflow_bounded_witness:
  "l_history overflown_ledger = [hd overflowing] \<and> has_account (Identity 8) overflown_ledger"
proof -
  have "l_history overflown_ledger =
      l_history (snd (run_calls insertion_order (map Append [hd overflowing]) (EfficiencyLedger_new (Identity 1))))"
    using overflow_bounded [OF overflowing_steps(2)] by simp
  also have "\<dots> = [hd overflowing]"
    using run_appends_history [OF wf_new, of insertion_order "[hd overflowing]"] overflowing_steps(1)
    by (simp add: EfficiencyLedger_new_def)
  finally show ?thesis using overflown_account by simp
qed

section \<open>Replay and persistence\<close>

text \<open>
  C22 (equivalence). Replaying the history of a ledger that has reported neither an overflow nor a
  reconciliation failure into any open ledger whose epoch and generations the fences of the entries
  name rebuilds the books exactly: the same history, index, attempts,
  completions and account counters, whatever traversal orders the two ledgers used.
\<close>

theorem replay_rebuilds_books:
  assumes "reachable {ErrorCode_kOverflow, ErrorCode_kReconciliationFailure} l" and "\<not> l_shutting_down l0"
    and "\<forall>e \<in> set (l_history l). fences_current l0 e"
  shows "\<exists>l1. load_history ho (l_history l) l0 = (Status_success, l1) \<and> books_equiv l l1"
proof -
  obtain l1 where "load_history ho (l_history l) l0 = (Status_success, l1)" "books_equiv l l1"
    by (rule load_history_replays [OF replay.reachable_keeps [OF assms(1)] assms(2)]) (use assms(3) in auto)
  then show ?thesis by blast
qed

theorem replay_rebuilds_books_witness:
  "\<exists>l1. load_history reverse_insertion_order (l_history sample_ledger) (EfficiencyLedger_new (Identity 2)) = (Status_success, l1) \<and>
     books_equiv sample_ledger l1"
  by (rule replay_rebuilds_books [OF sample_reachable])
    (simp_all add: EfficiencyLedger_new_def sample_history sample_entries_def fences_current_def shared_work_def
      published_work_def finished_transfer_def waste_revision_def LedgerEntry_default_def AuthorityFences_default_def
      id_valid_def id_invalid_def)

text \<open>
  C23 (roundtrip). Saving a ledger and loading the record gives back the same books, identity, epoch and
  generations, and the same digest, provided that the ledger has reported neither an overflow nor a
  reconciliation failure, no note exceeds the limit of the reader (1 MiB), the fences of the entries
  are still current, and the history is not longer than the reader allows (\<open>2 ^ 28\<close> entries).
\<close>

theorem save_load_round_trip:
  assumes "reachable {ErrorCode_kOverflow, ErrorCode_kReconciliationFailure} l"
    and "\<forall>e \<in> set (l_history l). length (e_note e) \<le> kMaxNoteLen \<and> fences_current l e"
    and "length (l_history l) \<le> unat kMaxEntryCount"
  shows "\<exists>l1. load_from_string ho (snd (save_to_string l)) l0 = (Status_success, None, l1) \<and> books_equiv l l1 \<and>
    digest l1 = digest l \<and> l_ledger_id l1 = l_ledger_id l \<and> l_epoch l1 = l_epoch l \<and>
    l_ledger_generation l1 = l_ledger_generation l \<and> l_account_generation l1 = l_account_generation l"
proof -
  have inv: "replays l" by (rule replay.reachable_keeps [OF assms(1)])
  then have "loadable l"
    using assms(2,3) validate_encodable by (auto simp: loadable_def list_all_iff replays_def wf_ledger_def entry_ok_def)
  from save_load [OF inv this, of ho l0] obtain l1 where
    "load_from_string ho (snd (save_to_string l)) l0 = (Status_success, None, l1)" "books_equiv l l1"
    "l_ledger_id l1 = l_ledger_id l" "l_epoch l1 = l_epoch l" "l_ledger_generation l1 = l_ledger_generation l"
    "l_account_generation l1 = l_account_generation l" by blast
  moreover from this(2) have "digest l1 = digest l" by (intro digest_history) (simp add: books_equiv_def)
  ultimately show ?thesis by blast
qed

theorem save_load_round_trip_witness:
  "\<exists>l1. load_from_string reverse_insertion_order (snd (save_to_string sample_ledger)) (EfficiencyLedger_new (Identity 9)) =
     (Status_success, None, l1) \<and> books_equiv sample_ledger l1"
proof -
  have au: "same_authority (EfficiencyLedger_new (Identity 1)) sample_ledger"
    unfolding sample_ledger_def by (rule run_appends_authority)
  have "\<forall>e \<in> set (l_history sample_ledger). length (e_note e) \<le> kMaxNoteLen \<and> fences_current sample_ledger e"
    unfolding fences_current_authority [OF au]
    by (simp add: EfficiencyLedger_new_def sample_history sample_entries_def fences_current_def shared_work_def
        published_work_def finished_transfer_def waste_revision_def LedgerEntry_default_def AuthorityFences_default_def
        id_valid_def id_invalid_def)
  moreover have "length (l_history sample_ledger) \<le> unat kMaxEntryCount"
    by (simp add: sample_history sample_entries_def kMaxEntryCount_def)
  ultimately show ?thesis
    using save_load_round_trip [OF sample_reachable, of reverse_insertion_order "EfficiencyLedger_new (Identity 9)"] by auto
qed


text \<open>
  C25 (error). A record with any one byte damaged is refused with a checksum error, and a record that is
  cut short anywhere is refused as well, records being self-delimiting; the ledger is as it was
  before the load.
\<close>

theorem damaged_record_refused:
  assumes "parse_record bs = Inr r" and "n < length bs"
  shows "(b \<noteq> bs ! n \<longrightarrow>
      load_from_string ho (bs[n := b]) l = (corrupt ''CRC-32C mismatch'', Some ''checksum mismatch'', l)) \<and>
    (\<exists>st err. load_from_string ho (take n bs) l = (st, err, l) \<and> parse_record (take n bs) = Inl (st, err))"
proof
  have split: "bs = take n bs @ bs ! n # drop (Suc n) bs" using assms(2) by (rule id_take_nth_drop)
  show "b \<noteq> bs ! n \<longrightarrow> load_from_string ho (bs[n := b]) l = (corrupt ''CRC-32C mismatch'', Some ''checksum mismatch'', l)"
    using parse_record_damaged [of "take n bs" "bs ! n" "drop (Suc n) bs" r b] assms split
    by (auto simp: upd_conv_take_nth_drop intro: load_refused)
  have "parse_record (take n bs @ drop n bs) = Inr r" using assms(1) by simp
  from truncated_record_refused [OF this, of ho l] assms(2)
  show "\<exists>st err. load_from_string ho (take n bs) l = (st, err, l) \<and> parse_record (take n bs) = Inl (st, err)" by simp
qed

theorem damaged_record_refused_witness:
  "load_from_string insertion_order ((snd (save_to_string (EfficiencyLedger_new (Identity 1))))[3 := 0]) (EfficiencyLedger_new (Identity 2)) =
     (corrupt ''CRC-32C mismatch'', Some ''checksum mismatch'', EfficiencyLedger_new (Identity 2)) \<and>
   (\<exists>st err. load_from_string insertion_order (take 3 (snd (save_to_string (EfficiencyLedger_new (Identity 1))))) (EfficiencyLedger_new (Identity 2)) =
     (st, err, EfficiencyLedger_new (Identity 2)))"
proof -
  let ?bs = "snd (save_to_string (EfficiencyLedger_new (Identity 1)))"
  have parse: "parse_record ?bs = Inr (header_of (EfficiencyLedger_new (Identity 1)), [])"
    by (simp add: parse_record_iff save_record EfficiencyLedger_new_def)
  have bs: "\<exists>rest. ?bs = kMagic @ rest"
    by (simp add: save_record record_of_def header_bytes_def Let_def EfficiencyLedger_new_def)
  then have "3 < length ?bs" "?bs ! 3 = kMagic ! 3" by (auto simp: nth_append)
  moreover have "(0 :: u8) \<noteq> kMagic ! 3" by code_simp
  ultimately show ?thesis
    using damaged_record_refused [OF parse, of 3 0 insertion_order "EfficiencyLedger_new (Identity 2)"] by auto
qed

text \<open>
  C26 (roundtrip). The entry codec is canonical: decoding at an offset succeeds exactly on the bytes that
  encoding the decoded entry puts there, so encoding and decoding are inverse to each other, and
  what follows in the buffer plays no part.
\<close>

theorem entry_codec_canonical:
  "decode_entry buf offset LedgerEntry_default = Some (e, offset') \<longleftrightarrow>
     encodable e \<and> offset \<le> length buf \<and> offset' \<le> length buf \<and> take offset' buf = encode_entry e (take offset buf)"
proof
  assume dec: "decode_entry buf offset LedgerEntry_default = Some (e, offset')"
  then have "offset \<le> length buf" by (auto simp: decode_entry_def split: if_splits)
  with decode_entry_canonical [OF dec]
  show "encodable e \<and> offset \<le> length buf \<and> offset' \<le> length buf \<and> take offset' buf = encode_entry e (take offset buf)" by simp
next
  assume enc: "encodable e \<and> offset \<le> length buf \<and> offset' \<le> length buf \<and> take offset' buf = encode_entry e (take offset buf)"
  then have "length (encode_entry e (take offset buf)) = offset'" by (metis length_take min.absorb2)
  moreover have "buf = encode_entry e (take offset buf) @ drop offset' buf" using enc by (metis append_take_drop_id)
  ultimately show "decode_entry buf offset LedgerEntry_default = Some (e, offset')"
    using decode_encode_entry [of e "take offset buf" "drop offset' buf"] enc by simp
qed

text \<open>
  C27 (error). A ledger whose epoch has moved on from the epoch an entry of its history names writes a record
  that cannot be loaded: the replay of the record refuses that entry.
\<close>

theorem stale_record_refused:
  assumes "list_all encodable (l_history l)" and "length (l_history l) \<le> unat kMaxEntryCount" and "e \<in> set (l_history l)"
    and "id_valid (f_epoch (e_fences e))" and "f_epoch (e_fences e) \<noteq> l_epoch l"
  shows "status_code (fst (load_from_string ho (snd (save_to_string l)) l0)) = ErrorCode_kPersistenceCorrupt"
proof -
  have parse: "parse_record (snd (save_to_string l)) = Inr (header_of l, l_history l)"
    using assms(1,2) by (simp add: parse_record_iff save_record)
  show ?thesis
    by (rule load_stale [OF parse assms(3)]) (use assms(4,5) in \<open>simp add: header_of_def\<close>)
qed

theorem stale_record_refused_witness:
  "status_code (fst (load_from_string insertion_order (snd (save_to_string (advance_epoch sample_ledger))) (EfficiencyLedger_new (Identity 1)))) =
     ErrorCode_kPersistenceCorrupt"
proof (rule stale_record_refused [where e = published_work])
  have "same_authority (EfficiencyLedger_new (Identity 1)) sample_ledger"
    unfolding sample_ledger_def by (rule run_appends_authority)
  then have "l_epoch (advance_epoch sample_ledger) = Identity 2"
    by (simp add: same_authority_def advance_epoch_def EfficiencyLedger_new_def)
  then show "f_epoch (e_fences published_work) \<noteq> l_epoch (advance_epoch sample_ledger)"
    by (simp add: published_work_def)
qed (simp_all add: advance_epoch_def sample_history sample_entries_def encodable_def shared_fits_def kMaxSharedParticipants_def
    kMaxEntryCount_def shared_work_def published_work_def finished_transfer_def waste_revision_def LedgerEntry_default_def id_valid_def)

section \<open>Checksums and digests\<close>

text \<open>
  C28 (equivalence). The table-driven checksum is the bit-by-bit CRC-32C with the reflected polynomial, and it
  can be computed piecewise with the seed argument.
\<close>

theorem crc_table_is_bitwise:
  "crc32c bs seed = NOT (foldl crc_bitwise (NOT seed) bs) \<and> crc32c (bs @ bs') seed = crc32c bs' (crc32c bs seed)"
proof -
  have "crc_byte build_table = crc_bitwise" by (simp add: fun_eq_iff crc_byte_bitwise)
  then show ?thesis by (simp add: crc32c_def crc32c_append [unfolded crc32c_def])
qed

text \<open>
  C29 (safety). The digest tells histories apart: two ledgers with histories of the same length whose
  encodings differ in exactly one byte have different digests, whatever else they hold.
\<close>

theorem digest_separates:
  assumes "length (l_history l) = length (l_history l')" and "b \<noteq> b'"
    and "concat (map (\<lambda>e. encode_entry e []) (l_history l)) = xs @ b # ys"
    and "concat (map (\<lambda>e. encode_entry e []) (l_history l')) = xs @ b' # ys"
  shows "digest l \<noteq> digest l'"
  using assms by (rule digests_differ)

theorem digest_separates_witness:
  "digest ((EfficiencyLedger_new (Identity 1))\<lparr>l_history := [restart_entry]\<rparr>) \<noteq>
   digest ((EfficiencyLedger_new (Identity 1))\<lparr>l_history := [restart_entry\<lparr>e_id := Identity 2\<rparr>]\<rparr>)"
proof -
  obtain xs ys where "encode_entry restart_entry [] = xs @ 1 # ys"
    "encode_entry (restart_entry\<lparr>e_id := Identity 2\<rparr>) [] = xs @ 2 # ys"
    by (rule restart_encodings)
  then show ?thesis
    by (intro digest_separates [where b = 1 and b' = 2 and xs = xs and ys = ys]) simp_all
qed

section \<open>Protocol and coordinator\<close>

text \<open>
  C30 (roundtrip). The frame codec is canonical in both directions: a buffer decodes to a message exactly
  if it is the frame of that message.
\<close>

theorem frame_codec_canonical:
  "decode_frame frame = Some (kind, req, body) \<longleftrightarrow> encode_frame kind req body = Some frame"
  using encode_decode_frame decode_encode_frame by blast

text \<open>
  C31 (equivalence). The coordinator's loop over the bytes of a connection ends and does what the loop over
  the messages does, for every way in which the network cuts the stream into pieces.
\<close>

theorem byte_stream_served:
  assumes "[] \<notin> set cs" and "frames_of ms = Some (concat cs)"
  shows "serve_bytes ho path env i cs s = serve_frames ho path (arrivals env i ms) s"
  using assms by (rule serve_bytes_frames)

theorem byte_stream_served_witness:
  "serve_bytes insertion_order [] (\<lambda>_. no_io_error) 0 (map (\<lambda>b. [b]) (the (frames_of [(kQueryDigest, 1, [])])))
       (coordinator_start insertion_order False [] 0 Map.empty, Connection_new) =
   serve_frames insertion_order [] [(no_io_error, kQueryDigest, [])]
       (coordinator_start insertion_order False [] 0 Map.empty, Connection_new)"
proof -
  have "frames_of [(kQueryDigest, 1, [])] \<noteq> None"
    by (simp add: encode_frame_def Let_def kMaxFramePayload_def)
  then have fr: "frames_of [(kQueryDigest, 1, [])] = Some (concat (map (\<lambda>b. [b]) (the (frames_of [(kQueryDigest, 1, [])]))))"
    by (simp add: concat_map_singleton del: frames_of.simps)
  have ne: "[] \<notin> set (map (\<lambda>b. [b]) (the (frames_of [(kQueryDigest, 1, [])])))" by auto
  from byte_stream_served [OF ne fr] show ?thesis by simp
qed

text \<open>
  C32 (termination). \<open>recv_all\<close> returns for every stream of pieces; it delivers exactly the bytes it was asked
  for if the stream has that many, and otherwise reports failure with what there was.
\<close>

theorem recv_all_delivers:
  assumes "[] \<notin> set cs"
  shows "\<exists>cs'. recv_all n cs = (n \<le> length (concat cs), take n (concat cs), cs') \<and> concat cs' = drop n (concat cs)"
  using recv_loop_spec [OF assms, of "[]" n] by (auto simp: recv_all_def split: if_splits)

theorem recv_all_delivers_witness:
  "\<exists>cs'. recv_all 3 [[1, 2], [3, 4]] = (True, [1, 2, 3], cs') \<and> concat cs' = [4]"
  using recv_all_delivers [of "[[1, 2], [3, 4]]" 3] by simp

text \<open>
  C33 (safety). An append that the coordinator acknowledges survives a crash right after it, if the file
  operations succeed, the ledger can be loaded from its record (no note over 1 MiB, at most \<open>2 ^ 28\<close>
  entries, their fences current) and its calls have reported neither an overflow nor a reconciliation
  failure: a coordinator started with the file has books equivalent to the ones that were
  acknowledged, whatever epoch it is started with.
\<close>

theorem acknowledged_append_survives:
  assumes "reachable {ErrorCode_kOverflow, ErrorCode_kReconciliationFailure} (co_ledger co)"
    and "handle_frame ho no_io_error path kind body (co, cn) = ((st, payload), left, co', cn')"
    and "kind = kAppend \<or> kind = kReclassify" and "Status_ok st" and "path \<noteq> []" and "loadable (co_ledger co')"
  shows "books_equiv (co_ledger co') (co_ledger (coordinator_start ho' True path epoch (co_fs co')))"
proof -
  have "kind \<noteq> kRegister" using assms(3) by (auto simp: kAppend_def kReclassify_def kRegister_def)
  then obtain e where "append_locked ho e (co_ledger co) = (st, co_ledger co')"
    using assms(2-4) by (auto simp: handle_frame_def Let_def Status_ok_def split: option.splits prod.splits if_splits)
  then have "replays (co_ledger co')"
    using assms(4) by (intro append_replays [OF replay.reachable_keeps [OF assms(1)]]) (auto simp: Status_ok_def)
  then show ?thesis
    using acknowledged_saved [OF assms(2-5)] assms(5,6) by (intro restart_recovers)
qed

theorem acknowledged_append_survives_witness:
  "\<exists>co'. handle_frame insertion_order no_io_error ''x.led'' kAppend (encode_entry restart_entry [])
       (coordinator_start insertion_order False [] 0 Map.empty, Connection_new) = ((Status_success, []), False, co', Connection_new) \<and>
     books_equiv (co_ledger co') (co_ledger (coordinator_start reverse_insertion_order True ''x.led'' 5 (co_fs co')))"
proof -
  let ?co = "coordinator_start insertion_order False [] 0 Map.empty"
  have new: "co_ledger ?co = EfficiencyLedger_new kDefaultLedgerId" by (simp add: coordinator_start_def)
  obtain l where run: "append_locked insertion_order restart_entry (co_ledger ?co) = (Status_success, l)"
    and h: "l_history l = [restart_entry]"
    unfolding new by (rule restart_entry_accepted)
  have enc: "encodable restart_entry" by (simp add: encodable_def restart_entry_def LedgerEntry_default_def)
  let ?co' = "save_if_path no_io_error ''x.led'' (?co\<lparr>co_ledger := l\<rparr>)"
  have step: "handle_frame insertion_order no_io_error ''x.led'' kAppend (encode_entry restart_entry []) (?co, Connection_new) =
      ((Status_success, []), False, ?co', Connection_new)"
    using handle_append [OF enc run] by (simp add: Status_ok_def Status_success_def)
  have "loadable (co_ledger ?co')"
    using enc by (simp add: loadable_def h kMaxEntryCount_def fences_current_def restart_entry_def client_entry_defs)
  moreover have "reachable {ErrorCode_kOverflow, ErrorCode_kReconciliationFailure} (co_ledger ?co)"
    unfolding new by (rule reachable.start)
  ultimately have "books_equiv (co_ledger ?co') (co_ledger (coordinator_start reverse_insertion_order True ''x.led'' 5 (co_fs ?co')))"
    by (intro acknowledged_append_survives [OF _ step]) (simp_all add: Status_ok_def Status_success_def)
  with step show ?thesis by blast
qed

text \<open>
  C34 (functional). One exchange between worker and coordinator: if the request went out and the reply frame
  arrives, in whatever pieces, then the worker's \<open>send_append\<close> returns true exactly if the ledger of
  the coordinator accepted the entry.
\<close>

theorem worker_sees_decision:
  assumes "encodable e" and "write_frame kAppend 0 (encode_entry e []) answers = (True, out)"
    and "append_locked ho e (co_ledger co) = (st, l)"
    and "encode_frame 0 0 (encode_status_payload st []) = Some frame"
    and "[] \<notin> set cs" and "concat cs = out" and "[] \<notin> set rs" and "concat rs = frame @ rest"
  shows "fst (serve_bytes ho path env i cs (co, cn)) = [(st, [])] \<and> fst (send_append answers e rs) = Status_ok st"
  using append_exchange [OF assms] by simp

theorem worker_sees_decision_witness:
  "\<exists>rs. fst (send_append [10000] restart_entry rs) = True"
proof -
  let ?co = "coordinator_start insertion_order False [] 0 Map.empty"
  have new: "co_ledger ?co = EfficiencyLedger_new kDefaultLedgerId" by (simp add: coordinator_start_def)
  obtain l where run: "append_locked insertion_order restart_entry (co_ledger ?co) = (Status_success, l)"
    unfolding new by (rule restart_entry_accepted)
  have enc: "encodable restart_entry" by (simp add: encodable_def restart_entry_def LedgerEntry_default_def)
  have "length (entry_body restart_entry) = 378"
    by (simp add: entry_body_def restart_entry_def LedgerEntry_default_def put_subcategory_def put_optional_def put_fences_def put_owners_def)
  then have len: "length (encode_entry restart_entry []) = 382" by (simp add: encode_entry_def)
  then obtain f where f: "encode_frame kAppend 0 (encode_entry restart_entry []) = Some f" and lf: "length f = 406"
    by (simp add: encode_frame_def Let_def kMaxFramePayload_def)
  have sent: "write_frame kAppend 0 (encode_entry restart_entry []) [10000] = (True, f)"
    using lf by (auto simp: write_frame_def f send_all_def send_loop.simps)
  obtain r where r: "encode_frame 0 0 (encode_status_payload Status_success []) = Some r"
    by (simp add: encode_frame_def Let_def kMaxFramePayload_def encode_status_payload_def Status_success_def)
  have "r \<noteq> []" using r by (auto simp: encode_frame_def Let_def put_u32_def put_le_def split: if_splits)
  moreover have "f \<noteq> []" using lf by auto
  ultimately have "fst (send_append [10000] restart_entry [r]) = Status_ok Status_success"
    using worker_sees_decision [OF enc sent run r, of "[f]" "[r]" "[]" "[]" "\<lambda>_. no_io_error" 0 Connection_new] by simp
  then show ?thesis by (auto simp: Status_ok_def Status_success_def)
qed

section \<open>The hardware proof\<close>

text \<open>
  C35 (liveness). If every call of the CUDA runtime succeeds, the results agree with the CPU, no
  measurement exceeds 73 years, and the free memory is the same within a MiB whenever the context is
  warm and no device buffer is held, then the hardware proof returns 0 and holds nothing. It has
  made seven measurements: five of a kernel and two of a copy to the device and back. Its ledger has
  the seven entries in which each of them is booked as the section that took it says, and the totals
  of its account are their sums.
\<close>

theorem cuda_proof_passes:
  assumes "\<forall>tr c. cuda_answers env tr c" and "\<forall>tr. mismatches env tr = 0" and "\<forall>tr. unat (elapsed_ns env tr) \<le> 2 ^ 61"
    and "\<forall>tr tr'. settled tr \<and> settled tr' \<longrightarrow> free_delta (free_memory env tr) (free_memory env tr') \<le> kOneMiB"
  shows "\<exists>s t. cuda_main env ho = (0, s) \<and> held s = {#} \<and> l_history (cu_ledger s) = cuda_entries t \<and>
    measurements env (cu_trace s) =
      [([Launch], t1_ns t), ([Launch], t2_ns t), ([Launch], t3a_ns t), ([Launch], t3b_ns t), ([Launch], t4_ns t),
       ([MemcpyHostToDevice, MemcpyDeviceToHost], t5_ns t), ([MemcpyHostToDevice, MemcpyDeviceToHost], t5b_ns t)] \<and>
    unat (sm_useful (account_summary (Identity 3) (cu_ledger s)) kAcceleratorNanoseconds) = unat (t1_ns t) + unat (t3b_ns t) \<and>
    unat (sm_waste (account_summary (Identity 3) (cu_ledger s)) kAcceleratorNanoseconds) = unat (t2_ns t) + unat (t3a_ns t) \<and>
    unat (sm_avoided (account_summary (Identity 3) (cu_ledger s)) kAcceleratorNanoseconds) = unat (t4_ns t) \<and>
    unat (sm_overhead (account_summary (Identity 3) (cu_ledger s)) kDeviceNanoseconds) = unat (t5_ns t) \<and>
    unat (sm_waste (account_summary (Identity 3) (cu_ledger s)) kDeviceNanoseconds) = unat (t5b_ns t) \<and>
    unat (sm_overhead (account_summary (Identity 3) (cu_ledger s)) kTransferBytes) = 536870912"
proof -
  have "works env" using assms by (simp add: works_def)
  then obtain s where main: "cuda_main env ho = (0, s)" and books: "on_books_after env ho 7 102 4 all_work s"
    using works_main by blast
  have "\<forall>x \<in> set (cu_trace s). snd x"
    using books by (auto simp: on_books_after_def on_books_def list_all_iff)
  then have held: "held s = {#}"
    using cuda_main_held [OF main] nothing_leaked by auto
  from books obtain t where h: "l_history (cu_ledger s) = cuda_entries t"
    and m: "measurements env (cu_trace s) = zip all_work [t1_ns t, t2_ns t, t3a_ns t, t3b_ns t, t4_ns t, t5_ns t, t5b_ns t]"
    and cells: "\<And>f d. cell_of (l_accounts (cu_ledger s)) (Identity 3) f d = (\<Sum>e \<leftarrow> cuda_entries t. attributed e (Identity 3) f d)"
    by (rule on_books_closed) blast
  have work: "all_work = [[Launch], [Launch], [Launch], [Launch], [Launch],
      [MemcpyHostToDevice, MemcpyDeviceToHost], [MemcpyHostToDevice, MemcpyDeviceToHost]]"
    by (simp add: all_work_def kernel_work_def transfer_work_def numeral_eq_Suc)
  show ?thesis
    by (intro exI [of _ s] exI [of _ t] conjI main h held m [unfolded work, simplified])
      (simp_all add: summary_cells cells cuda_entries_def cuda_entry_defs attributed_single bucket_field_def transfer_bytes_def)
qed

theorem cuda_proof_passes_witness:
  "\<exists>s t. cuda_main \<lparr>cuda_answers = \<lambda>_ _. True, elapsed_ns = \<lambda>tr. word_of_nat (length tr mod 1000), mismatches = \<lambda>_. 0,
       free_memory = \<lambda>tr. 2 ^ 33 - word_of_nat (count (held_after tr) DIn + count (held_after tr) DOut) * 2 ^ 28\<rparr>
       insertion_order = (0, s) \<and> held s = {#} \<and> l_history (cu_ledger s) = cuda_entries t"
proof -
  let ?env = "\<lparr>cuda_answers = \<lambda>_ _. True, elapsed_ns = \<lambda>tr. word_of_nat (length tr mod 1000), mismatches = \<lambda>_. 0,
    free_memory = \<lambda>tr. 2 ^ 33 - word_of_nat (count (held_after tr) DIn + count (held_after tr) DOut) * 2 ^ 28\<rparr>"
  have time: "unat (word_of_nat (length tr mod 1000) :: u64) \<le> 2 ^ 61" for tr :: cuda_trace
    by (simp add: unat_of_nat take_bit_eq_mod order.trans [OF less_imp_le [OF mod_less_divisor]])
  have delta: "\<forall>tr tr'. settled tr \<and> settled tr' \<longrightarrow> free_delta (free_memory ?env tr) (free_memory ?env tr') \<le> kOneMiB"
    by (auto simp: settled_def not_in_iff free_delta_def)
  have "\<exists>s t. cuda_main ?env insertion_order = (0, s) \<and> held s = {#} \<and> l_history (cu_ledger s) = cuda_entries t"
    using cuda_proof_passes [OF _ _ _ delta, of insertion_order] time by (simp only: cuda_env.simps) blast
  then show ?thesis .
qed

text \<open>
  C36 (safety). What the hardware proof holds when it returns, whatever the CUDA runtime answers. A
  handle is leaked if the call that should have released it failed. If the program returns 0, it
  holds nothing but leaked events of its timers. If it returns 1, it holds, beside what is leaked,
  nothing, or all its buffers and its stream, as after every failure within its sections, or the
  second device buffer, as when the first could not be freed. So it holds nothing after a return
  of 0 in which every release succeeded.
\<close>

theorem cuda_resources:
  assumes "cuda_main env ho = (code, s)"
  shows "code = 0 \<and> held s = leaked s \<and> set_mset (leaked s) \<subseteq> {Start, Stop} \<or>
    code = 1 \<and> (held s = leaked s \<or> held s = {#HIn, HOut, DIn, DOut, Stream#} + leaked s \<or> held s = {#DOut#} + leaked s)"
  using cuda_main_held [OF assms] by (auto simp: working_set_def events_only_def)

theorem cuda_resources_witness:
  "\<exists>s. cuda_main \<lparr>cuda_answers = \<lambda>_ c. c \<noteq> Free Warm, elapsed_ns = \<lambda>_. 0, mismatches = \<lambda>_. 0, free_memory = \<lambda>_. 0\<rparr>
       insertion_order = (1, s) \<and> leaked s = {#Warm#} \<and> held s \<in> {{#Warm#}, {#HIn, HOut, DIn, DOut, Stream, Warm#}, {#DOut, Warm#}}"
proof -
  let ?env = "\<lparr>cuda_answers = \<lambda>_ c. c \<noteq> Free Warm, elapsed_ns = \<lambda>_. 0, mismatches = \<lambda>_. 0, free_memory = \<lambda>_. 0\<rparr>"
  obtain code s where main: "cuda_main ?env insertion_order = (code, s)" by fastforce
  then have "code = 1" "leaked s = {#Warm#}"
    by (auto simp: cuda_main_def cuda_setup_def checked_def ignore_def issue_def host_buffers_def
        leaked_def leaked_by_def cuda_start_def Let_def)
  with cuda_resources [OF main] main show ?thesis by auto
qed

text \<open>
  C37 (bounds). The grid-stride kernel covers its array for every grid geometry: as long as its index arithmetic
  stays below the limit of \<open>int\<close>, each element is written by exactly one thread, exactly once.
\<close>

theorem kernel_covers_array:
  assumes "0 < grid" and "0 < block" and "n + uint block * uint grid \<le> INT_MAX + 1" and "0 \<le> j" and "j < n"
  shows "\<exists>!(b, t). b < grid \<and> t < block \<and>
    (\<exists>is. saxpy_thread n grid block b t = Some is \<and> distinct is \<and> j \<in> set is)"
proof -
  let ?r = "j mod (uint block * uint grid)"
  let ?W = "\<lambda>b t. \<exists>is. saxpy_thread n grid block b t = Some is \<and> distinct is \<and> j \<in> set is"
  have pos: "0 < uint block" "0 < uint grid" using assms(1,2) by (simp_all add: word_less_def)
  note r = thread_of_index [OF pos, of j]
  obtain b0 t0 :: u32 where bt: "uint b0 = ?r div uint block" "uint t0 = ?r mod uint block"
    using word_of_int_inverse [OF refl r(1) order_less_trans [OF r(2) uint_lt2p]]
      word_of_int_inverse [OF refl r(3) order_less_trans [OF r(4) uint_lt2p]] by blast
  have small: "uint block * uint grid \<le> INT_MAX" using assms(3-5) by linarith
  have writes: "?W b t \<longleftrightarrow> b = b0 \<and> t = t0" if "b < grid" "t < block" for b t
    using grid_stride_writes [OF pos(1) uint_ge_0 _ uint_ge_0 _ assms(3-5), of b t] that
    unfolding saxpy_thread_ints [OF that small] bt [symmetric] word_uint_eq_iff word_less_def by blast
  have "b0 < grid" "t0 < block" using r bt by (simp_all only: word_less_def)
  then have unique: "b < grid \<and> t < block \<and> ?W b t \<longleftrightarrow> (b, t) = (b0, t0)" for b t
    using writes by blast
  show ?thesis
    unfolding split_def by (rule ex1I [of _ "(b0, t0)"]) (simp_all only: unique prod.collapse fst_conv snd_conv)
qed

theorem kernel_covers_array_witness:
  "\<exists>!(b, t). b < word_of_int (launch_grid 67108864) \<and> t < word_of_int kBlock \<and>
     (\<exists>is. saxpy_thread 67108864 (word_of_int (launch_grid 67108864)) (word_of_int kBlock) b t = Some is \<and>
        distinct is \<and> 1000000 \<in> set is)"
  by (rule kernel_covers_array) (simp_all add: launch_grid_def kBlock_def INT_MAX_def)

section \<open>Benchmarks\<close>

text \<open>
  C38 (liveness). For every number of entries up to \<open>2 ^ 28\<close>, far above its largest scale, the benchmark
  verifies what it measures with one thread: every append is accepted, every second append refused
  as a duplicate, the accounts are as many as expected, the shared attribution reconciles, and
  replay and reload give back all entries. Its line for the digest reports success unless the digest
  of these entries happens to be zero.
\<close>

theorem benchmarks_verify:
  assumes "unat n \<le> 2 ^ 28"
  shows "bench_append ho n = (True, \<lparr>row_name = ''event_append'', row_events = n\<rparr>) \<and>
    bench_dedup ho n = (True, \<lparr>row_name = ''dedup_lookup'', row_events = n\<rparr>) \<and>
    bench_aggregation ho n = (True, \<lparr>row_name = ''account_aggregation'', row_events = min n 4096\<rparr>) \<and>
    fst (bench_shared ho n) \<and> row_events (snd (bench_shared ho n)) = min n 4096 \<and>
    bench_replay ho n = (True, \<lparr>row_name = ''history_replay'', row_events = n\<rparr>) \<and>
    bench_persist ho n = (True, \<lparr>row_name = ''persistence_save_load'', row_events = n\<rparr>) \<and>
    bench_digest ho n =
      (digest ((EfficiencyLedger_new kDefaultLedgerId)\<lparr>l_history := map make_entry (indices n)\<rparr>) \<noteq> 0,
       \<lparr>row_name = ''digest'', row_events = n\<rparr>)"
proof -
  have "bench_aggregation ho n = (True, \<lparr>row_name = ''account_aggregation'', row_events = min n 4096\<rparr>)"
    using bench_aggregation_ok [OF assms, of ho] bench_aggregation_empty [of ho]
    by (cases "n = 0") (simp_all add: kMaxSharedParticipants_def)
  then show ?thesis
    using bench_shared_ok [of ho n]
    by (simp add: bench_append_ok [OF assms] bench_dedup_ok [OF assms] bench_replay_ok [OF assms] bench_digest_ok [OF assms]
        kMaxSharedParticipants_def)
qed

theorem benchmarks_verify_witness:
  "list_all (\<lambda>n. fst (bench_append insertion_order n) \<and> fst (bench_aggregation insertion_order n) \<and>
     fst (bench_persist insertion_order n)) (0 # kScales)"
  using benchmarks_verify [of _ insertion_order] by (simp add: kScales_def)

text \<open>
  C39 (equivalence). The schedule of the threads does not matter: for every number of threads, every
  interleaving of their appends is accepted completely, and the ledger reconciles, as it does when
  one thread appends all entries.
\<close>

theorem schedule_irrelevant:
  assumes "interleaving (map (\<lambda>t. thread_work n threads (word_of_nat t)) [0..<unat threads]) schedule"
    and "threads \<noteq> 0" and "unat n \<le> 2 ^ 28"
  shows "bench_concurrent ho schedule n = bench_concurrent ho (map make_entry (indices n)) n \<and> fst (bench_concurrent ho schedule n)"
proof -
  have "interleaving (map (\<lambda>t. thread_work n 1 (word_of_nat t)) [0..<unat (1 :: u64)]) (map make_entry (indices n))"
    using interleaving_concat [of "map (\<lambda>t. thread_work n 1 (word_of_nat t)) [0..<unat (1 :: u64)]"]
    unfolding thread_work_all [OF one_neq_zero] .
  from bench_concurrent_ok [OF assms(3) one_neq_zero this] show ?thesis
    by (simp add: bench_concurrent_ok [OF assms(3,2,1)])
qed

theorem schedule_irrelevant_witness:
  "fst (bench_concurrent insertion_order
     (concat (map (\<lambda>t. thread_work 1000000 kThreads (word_of_nat t)) [0..<unat kThreads])) 1000000)"
  by (rule conjunct2 [OF schedule_irrelevant [OF interleaving_concat]]) (simp_all add: kThreads_def)

section \<open>Sockets\<close>

text \<open>
  C40 (safety). If the operating system never hands out a descriptor that is open, then a coordinator that
  ends, also when it cannot bind its port or \<open>accept\<close> fails, and a worker, also when it cannot connect
  or is refused, have closed every descriptor they opened and no other. A coordinator that ends with
  exit code 0 has served the connections it accepted as the loop without sockets does.
\<close>

theorem sockets_released:
  assumes "fresh_descriptors os"
  shows "(coordinator_program os ho atoi stoull args conns last_env fs tr = (Some code, replies, co', tr') \<longrightarrow>
      open_fds tr' = open_fds tr \<and>
      (code = 0 \<longrightarrow> (let c = coordinator_args atoi stoull args CoordinatorArgs_default in
         coordinator_main ho (ca_load c) (ca_path c) (ca_epoch c) (take (length replies) conns) last_env fs = (replies, co')))) \<and>
    open_fds (snd (snd (snd (worker_program os atoi stoull wargs first answers cs tr)))) = open_fds tr"
  using coordinator_program_fds [OF assms] coordinator_program_main worker_program_fds [OF assms]
  by (auto simp: Let_def)

theorem sockets_released_witness:
  "\<exists>replies co' tr'. coordinator_program counting_os insertion_order (\<lambda>_. 0) (\<lambda>_. 0) [] [[], [(no_io_error, kShutdown, [])]] no_io_error Map.empty [] =
     (Some 0, replies, co', tr') \<and> open_fds tr' = {} \<and> \<not> co_running co'"
proof -
  obtain r replies co' tr' where run: "coordinator_program counting_os insertion_order (\<lambda>_. 0) (\<lambda>_. 0) [] [[], [(no_io_error, kShutdown, [])]] no_io_error Map.empty [] =
     (r, replies, co', tr')" by (metis prod_cases4)
  have "fst (coordinator_program counting_os insertion_order (\<lambda>_. 0) (\<lambda>_. 0) [] [[], [(no_io_error, kShutdown, [])]] no_io_error Map.empty []) = Some 0"
    "\<not> co_running (fst (snd (snd (coordinator_program counting_os insertion_order (\<lambda>_. 0) (\<lambda>_. 0) [] [[], [(no_io_error, kShutdown, [])]] no_io_error Map.empty []))))"
    by code_simp+
  with run have r: "r = Some 0 \<and> \<not> co_running co'" by simp
  with sockets_released [OF counting_os_fresh] run show ?thesis
    by (fastforce simp: open_fds_def)
qed

end
